(* ===== verification/Prelude.thy ===== *)
theory Prelude
  imports Main "HOL-Library.Word" "HOL-Library.Monad_Syntax" "HOL-Library.AList"
begin

text \<open>
  Shared vocabulary of the development: the widths of the machine integers the headers use,
  thread identifiers, and the generic facts on lists, association lists, options and words that
  several components need.  \<open>32 word\<close> is \<open>int\<close> / \<open>unsigned int\<close> / \<open>uint32_t\<close>,
  \<open>64 word\<close> is \<open>size_t\<close>, \<open>ptrdiff_t\<close> and glibc's \<open>uint_fast32_t\<close> (64 bits on
  x86-64).  The option monad (\<open>do\<close>) is used for code that dereferences pointers: \<open>None\<close>
  is undefined behaviour (a null or dangling dereference) or a failed \<open>assert\<close>.
\<close>

unbundle bit_operations_syntax

type_synonym u32 = "32 word"
type_synonym u64 = "64 word"
type_synonym tid = nat

named_theorems ptr_simps \<open>pointer-map equations of the linked structures\<close>
named_theorems step_simps \<open>unfolding equations of the step functions\<close>
named_theorems inv_intros \<open>preservation of component invariants\<close>

section \<open>Lists and association lists\<close>

lemma distinct_split_unique:
  "\<lbrakk> distinct (as @ x # bs); as @ x # bs = cs @ x # ds \<rbrakk> \<Longrightarrow> as = cs \<and> bs = ds"
  by (metis append_Cons_eq_iff distinct.simps(2) distinct_append not_distinct_conv_prefix)

lemma remove1_split: "x \<notin> set as \<Longrightarrow> remove1 x (as @ x # bs) = as @ bs"
  by (simp add: remove1_append)

lemma in_set_tlD: "x \<in> set (tl xs) \<Longrightarrow> x \<in> set xs"
  by (cases xs) auto

lemma last_snocE:
  assumes "xs \<noteq> []" obtains ys y where "xs = ys @ [y]" "y = last xs"
  using assms append_butlast_last_id by metis

lemma map_of_SomeI_distinct:
  "\<lbrakk> distinct (map fst m); (k, v) \<in> set m \<rbrakk> \<Longrightarrow> map_of m k = Some v"
  by simp

lemma dom_map_of_keys: "dom (map_of m) = fst ` set m"
  by (simp add: dom_map_of_conv_image_fst)

lemma map_of_alist_update [simp]: "map_of (AList.update k v m) = (map_of m)(k \<mapsto> v)"
  by (simp add: update_conv')

lemma map_of_alist_delete [simp]: "map_of (AList.delete k m) = (map_of m)(k := None)"
  by (simp add: delete_conv')

lemma keys_delete [simp]: "fst ` set (AList.delete k m) = fst ` set m - {k}"
  by (auto simp: AList.delete_eq)

lemma keys_update [simp]: "fst ` set (AList.update k v m) = insert k (fst ` set m)"
  using dom_update [of k v m] by (simp add: dom_map_of_conv_image_fst)

lemma delete_append: "AList.delete k (xs @ ys) = AList.delete k xs @ AList.delete k ys"
  by (simp add: AList.delete_eq)

lemma delete_split:
  assumes "distinct (map fst (as @ (k, v) # bs))"
  shows "AList.delete k (as @ (k, v) # bs) = as @ bs"
proof -
  have "k \<notin> fst ` set as" "k \<notin> fst ` set bs" using assms by auto
  then show ?thesis by (simp add: delete_append)
qed

lemma length_distinct_keys:
  assumes "distinct (map fst m)" "distinct xs" "fst ` set m = set xs"
  shows "length m = length xs"
proof -
  have "length m = card (set (map fst m))"
    using assms(1) distinct_card by fastforce
  also have "\<dots> = card (set xs)" using assms(3) by simp
  also have "\<dots> = length xs" using assms(2) distinct_card by auto
  finally show ?thesis .
qed

section \<open>Sums over threads\<close>

text \<open>One thread moves: what the sum loses is what that thread loses.\<close>

lemma sum_change_one:
  fixes f g :: "'a \<Rightarrow> nat"
  assumes "finite T" "t \<in> T" "\<And>u. u \<in> T \<Longrightarrow> u \<noteq> t \<Longrightarrow> g u = f u"
  shows "sum g T + f t = sum f T + g t"
proof -
  have "sum g (T - {t}) = sum f (T - {t})" by (rule sum.cong) (use assms(3) in auto)
  then show ?thesis using sum.remove [OF assms(1,2), of f] sum.remove [OF assms(1,2), of g] by simp
qed

section \<open>Options\<close>

lemma bind_Some_iff [simp]:
  "(Option.bind m f = Some y) \<longleftrightarrow> (\<exists>x. m = Some x \<and> f x = Some y)"
  by (cases m) auto

lemma map_option_SomeE:
  assumes "map_option f x = Some y" obtains z where "x = Some z" "f z = y"
  using assms by (cases x) auto

section \<open>Words that fit into \<open>int\<close>\<close>

lemma sint_small: "unat (p :: u32) < 2 ^ 31 \<Longrightarrow> sint p = int (unat p)"
proof -
  assume a: "unat p < 2 ^ 31"
  have "uint p = int (unat p)" by simp
  moreover have "int (unat p) < int (2 ^ 31)" using a by (simp only: of_nat_less_iff)
  ultimately have u: "uint p < 2 ^ 31" by simp
  have "signed_take_bit 31 (uint p) = uint p"
    by (subst signed_take_bit_int_eq_self_iff) (use u order_trans [of "- (2 ^ 31)" 0 "uint p"] in simp)
  moreover have "sint p = signed_take_bit 31 (uint p)" by (simp add: sint_uint)
  ultimately show ?thesis by simp
qed
lemma sint_le_small:
  "\<lbrakk> unat (p :: u32) < 2 ^ 31; unat r < 2 ^ 31 \<rbrakk> \<Longrightarrow> sint r \<le> sint p \<longleftrightarrow> r \<le> p"
  by (simp only: sint_small word_le_nat_alt of_nat_le_iff)

lemma take_small:
  assumes "r \<le> (p :: u32)" shows "unat (p - r) + unat r = unat p"
  using assms by (simp add: unat_sub word_le_nat_alt)

lemma give_small: "unat (p :: u32) + unat r < 2 ^ 31 \<Longrightarrow> unat (p + r) = unat p + unat r"
  by (simp add: unat_add_lem [THEN iffD1])

end
