(* ===== verification/Linked_List.thy ===== *)
theory Linked_List
  imports Prelude
begin

text \<open>
  Doubly linked lists threaded through a store.  \<open>nx\<close> and \<open>pv\<close> read the forward and the
  backward pointer of a node (\<open>None\<close> is \<open>nullptr\<close>); \<open>dll nx pv h t xs\<close> says that head
  pointer \<open>h\<close> and tail pointer \<open>t\<close> delimit a list whose nodes are \<open>xs\<close>.  The LRU list of
  \<open>lru_cache.h\<close> (\<open>child\<close>, \<open>parent\<close>) and the waiting queue of \<open>semaphore.h\<close>
  (\<open>next\<close>, \<open>prev\<close>) are both instances, so the pointer surgery is verified once here.
  \<open>chain\<close> is the forward-only list used for the node cache.
\<close>

definition fst_ptr :: "'p list \<Rightarrow> 'p option \<Rightarrow> 'p option" where
  "fst_ptr xs n = (case xs of [] \<Rightarrow> n | x # _ \<Rightarrow> Some x)"

definition last_ptr :: "'p option \<Rightarrow> 'p list \<Rightarrow> 'p option" where
  "last_ptr p xs = (if xs = [] then p else Some (last xs))"

lemma fst_ptr_simps [simp]: "fst_ptr [] n = n" "fst_ptr (x # xs) n = Some x"
  by (simp_all add: fst_ptr_def)

lemma last_ptr_simps [simp]:
  "last_ptr p [] = p" "last_ptr p (x # xs) = last_ptr (Some x) xs"
  "last_ptr p (xs @ [x]) = Some x"
  by (simp_all add: last_ptr_def)

lemma fst_ptr_append: "fst_ptr (xs @ ys) n = fst_ptr xs (fst_ptr ys n)"
  by (cases xs) simp_all

lemma last_ptr_Some_neq [simp]: "last_ptr (Some a) xs \<noteq> None"
  by (simp add: last_ptr_def)

lemma last_ptr_append: "last_ptr p (xs @ ys) = last_ptr (last_ptr p xs) ys"
  by (simp add: last_ptr_def)

lemma fst_ptr_None_iff [simp]: "fst_ptr xs None = None \<longleftrightarrow> xs = []"
  by (cases xs) simp_all

lemma last_ptr_None_iff [simp]: "last_ptr None xs = None \<longleftrightarrow> xs = []"
  by (simp add: last_ptr_def)

lemma last_ptr_Some_iff: "last_ptr None xs = Some x \<longleftrightarrow> (\<exists>ys. xs = ys @ [x])"
  by (cases xs rule: rev_cases) auto

lemma fst_ptr_Some_iff: "fst_ptr xs None = Some x \<longleftrightarrow> (\<exists>ys. xs = x # ys)"
  by (cases xs) auto

section \<open>Segments\<close>

fun dseg :: "('p \<Rightarrow> 'p option) \<Rightarrow> ('p \<Rightarrow> 'p option) \<Rightarrow> 'p option \<Rightarrow> 'p list \<Rightarrow> 'p option \<Rightarrow> bool" where
  "dseg nx pv p [] n \<longleftrightarrow> True"
| "dseg nx pv p (x # xs) n \<longleftrightarrow> pv x = p \<and> nx x = fst_ptr xs n \<and> dseg nx pv (Some x) xs n"

lemma dseg_append:
  "dseg nx pv p (xs @ ys) n \<longleftrightarrow>
     dseg nx pv p xs (fst_ptr ys n) \<and> dseg nx pv (last_ptr p xs) ys n"
  by (induction xs arbitrary: p) (auto simp: fst_ptr_append)

lemma dseg_upd_nx [simp]:
  "x \<notin> set xs \<Longrightarrow> dseg (nx(x := v)) pv p xs n = dseg nx pv p xs n"
  by (induction xs arbitrary: p) auto

lemma dseg_upd_pv [simp]:
  "x \<notin> set xs \<Longrightarrow> dseg nx (pv(x := v)) p xs n = dseg nx pv p xs n"
  by (induction xs arbitrary: p) auto

lemma dseg_cong:
  "\<lbrakk> \<And>x. x \<in> set xs \<Longrightarrow> nx x = nx' x; \<And>x. x \<in> set xs \<Longrightarrow> pv x = pv' x \<rbrakk>
     \<Longrightarrow> dseg nx pv p xs n = dseg nx' pv' p xs n"
  by (induction xs arbitrary: p) auto

text \<open>Redirecting the last forward pointer, or the first backward pointer, of a segment.\<close>

definition set_last :: "'p list \<Rightarrow> 'p option \<Rightarrow> ('p \<Rightarrow> 'p option) \<Rightarrow> 'p \<Rightarrow> 'p option" where
  "set_last xs n nx = (if xs = [] then nx else nx(last xs := n))"

definition set_first :: "'p list \<Rightarrow> 'p option \<Rightarrow> ('p \<Rightarrow> 'p option) \<Rightarrow> 'p \<Rightarrow> 'p option" where
  "set_first xs p pv = (if xs = [] then pv else pv(hd xs := p))"

lemma dseg_set_last:
  assumes "dseg nx pv p xs n" "distinct xs"
  shows "dseg (set_last xs n' nx) pv p xs n'"
proof (cases xs rule: rev_cases)
  case Nil
  then show ?thesis by simp
next
  case (snoc ys y)
  with assms show ?thesis by (simp add: set_last_def dseg_append)
qed

lemma dseg_set_first:
  assumes "dseg nx pv p xs n" "distinct xs"
  shows "dseg nx (set_first xs p' pv) p' xs n"
  using assms by (cases xs) (auto simp: set_first_def)

lemma dseg_set_last_other:
  "set xs \<inter> set ys = {} \<Longrightarrow> dseg (set_last ys n' nx) pv p xs n = dseg nx pv p xs n"
  by (cases ys rule: rev_cases) (auto simp: set_last_def)

lemma dseg_set_first_other:
  "set xs \<inter> set ys = {} \<Longrightarrow> dseg nx (set_first ys p' pv) p xs n = dseg nx pv p xs n"
  by (cases ys) (auto simp: set_first_def)

section \<open>Whole lists\<close>

definition dll :: "('p \<Rightarrow> 'p option) \<Rightarrow> ('p \<Rightarrow> 'p option) \<Rightarrow> 'p option \<Rightarrow> 'p option \<Rightarrow> 'p list \<Rightarrow> bool" where
  "dll nx pv h t xs \<longleftrightarrow>
     h = fst_ptr xs None \<and> t = last_ptr None xs \<and> dseg nx pv None xs None \<and> distinct xs"

lemma dll_Nil [simp]: "dll nx pv h t [] \<longleftrightarrow> h = None \<and> t = None"
  by (auto simp: dll_def)

lemma dll_distinct: "dll nx pv h t xs \<Longrightarrow> distinct xs"
  by (simp add: dll_def)

lemma dll_cong:
  "\<lbrakk> \<And>x. x \<in> set xs \<Longrightarrow> nx x = nx' x; \<And>x. x \<in> set xs \<Longrightarrow> pv x = pv' x \<rbrakk>
     \<Longrightarrow> dll nx pv h t xs = dll nx' pv' h t xs"
  by (simp add: dll_def cong: dseg_cong)

lemma dll_upd_other [simp]:
  "x \<notin> set xs \<Longrightarrow> dll (nx(x := v)) pv h t xs = dll nx pv h t xs"
  "x \<notin> set xs \<Longrightarrow> dll nx (pv(x := v)) h t xs = dll nx pv h t xs"
  by (simp_all add: dll_def)

lemma dll_node:
  assumes "dll nx pv h t (as @ x # bs)"
  shows "pv x = last_ptr None as" "nx x = fst_ptr bs None"
  using assms by (simp_all add: dll_def dseg_append)

text \<open>Unlinking a node in the middle, at an end, or the only node.\<close>

lemma dll_unlink:
  assumes l: "dll nx pv h t (as @ x # bs)"
  shows "dll (set_last as (nx x) nx) (set_first bs (pv x) pv)
             (if pv x = None then nx x else h) (if nx x = None then pv x else t) (as @ bs)"
proof -
  have d: "distinct as" "distinct bs" "set as \<inter> set bs = {}"
    using l by (auto simp: dll_def)
  have a: "dseg nx pv None as (Some x)" and b: "dseg nx pv (Some x) bs None"
    using l by (simp_all add: dll_def dseg_append)
  have "dseg (set_last as (nx x) nx) (set_first bs (pv x) pv) None as (fst_ptr bs None)"
    using dseg_set_last [OF a d(1), of "fst_ptr bs None"] dll_node(2) [OF l] d(3)
    by (simp add: dseg_set_first_other)
  moreover have "dseg (set_last as (nx x) nx) (set_first bs (pv x) pv) (last_ptr None as) bs None"
    using dseg_set_first [OF b d(2), of "last_ptr None as"] dll_node(1) [OF l] d(3)
    by (simp add: dseg_set_last_other Int_commute)
  moreover have "(if pv x = None then nx x else h) = fst_ptr (as @ bs) None"
    using l dll_node [OF l] by (cases as) (auto simp: dll_def)
  moreover have "(if nx x = None then pv x else t) = last_ptr None (as @ bs)"
    using l dll_node [OF l] by (cases bs) (auto simp: dll_def last_ptr_append)
  ultimately show ?thesis
    using d by (simp add: dll_def dseg_append)
qed

lemma dll_push_front:
  assumes l: "dll nx pv h t xs" and x: "x \<notin> set xs" "nx x = h" "pv x = None"
  shows "dll nx (set_first xs (Some x) pv) (Some x) (if h = None then Some x else t) (x # xs)"
proof -
  have "dseg nx (set_first xs (Some x) pv) (Some x) xs None"
    using l by (auto simp: dll_def intro: dseg_set_first)
  moreover have "set_first xs (Some x) pv x = None"
    using x by (cases xs) (auto simp: set_first_def)
  ultimately show ?thesis
    using l x by (cases xs) (auto simp: dll_def last_ptr_def)
qed

lemma dll_push_back:
  assumes l: "dll nx pv h t xs" and x: "x \<notin> set xs" "nx x = None" "pv x = t"
  shows "dll (set_last xs (Some x) nx) pv (if t = None then Some x else h) (Some x) (xs @ [x])"
proof -
  have "dseg (set_last xs (Some x) nx) pv None xs (Some x)"
    using l by (auto simp: dll_def intro: dseg_set_last)
  moreover have "set_last xs (Some x) nx x = None"
    using x by (cases xs rule: rev_cases) (auto simp: set_last_def)
  ultimately show ?thesis
    using l x by (cases xs) (auto simp: dll_def dseg_append last_ptr_def fst_ptr_append)
qed

section \<open>Forward chains\<close>

fun chain :: "('p \<Rightarrow> 'p option) \<Rightarrow> 'p option \<Rightarrow> 'p list \<Rightarrow> bool" where
  "chain nx h [] \<longleftrightarrow> h = None"
| "chain nx h (x # xs) \<longleftrightarrow> h = Some x \<and> chain nx (nx x) xs"

lemma chain_upd_other [simp]:
  "x \<notin> set xs \<Longrightarrow> chain (nx(x := v)) h xs = chain nx h xs"
  by (induction xs arbitrary: h) auto

lemma chain_cong:
  "(\<And>x. x \<in> set xs \<Longrightarrow> nx x = nx' x) \<Longrightarrow> chain nx h xs = chain nx' h xs"
  by (induction xs arbitrary: h) auto

lemma chain_None [simp]: "chain nx None xs \<longleftrightarrow> xs = []"
  by (cases xs) simp_all

lemma chain_Some: "chain nx (Some x) xs \<longleftrightarrow> (\<exists>ys. xs = x # ys \<and> chain nx (nx x) ys)"
  by (cases xs) auto

lemma dseg_chain: "dseg nx pv p xs None \<Longrightarrow> chain nx (fst_ptr xs None) xs"
  by (induction xs arbitrary: p) auto

end
