(* ===== verification/Event_System.thy ===== *)
theory Event_System
  imports Prelude
begin

text \<open>
  Concurrent components are event systems: a state, a step function
  \<open>'e \<Rightarrow> 's \<Rightarrow> 's option\<close> (one atomic section of one thread; \<open>None\<close> when the thread is
  not enabled there) and the runs over a list of events.  Quantifying over all event lists is
  quantifying over all schedules.  The locale \<open>inv_system\<close> is the contract "every enabled step
  keeps the invariant", \<open>guarded_system\<close> the same for schedules whose events satisfy a
  discipline, and \<open>bisim_system\<close> the contract of a
  bisimulation with an abstract machine; each component interprets
  the ones it satisfies on its own step function.
\<close>

fun runs :: "('e \<Rightarrow> 's \<Rightarrow> 's option) \<Rightarrow> 'e list \<Rightarrow> 's \<Rightarrow> 's option" where
  "runs step [] s = Some s"
| "runs step (e # es) s = Option.bind (step e s) (runs step es)"

lemma runs_append:
  "runs step (es @ fs) s = Option.bind (runs step es s) (runs step fs)"
  by (induction es arbitrary: s) (simp_all split: bind_splits)

lemma runs_snoc_iff:
  "runs step (es @ [e]) s = Some t \<longleftrightarrow> (\<exists>u. runs step es s = Some u \<and> step e u = Some t)"
  by (simp add: runs_append)

text \<open>A schedule under a discipline: every event meets a guard on the state it fires in.\<close>

locale guarded_system =
  fixes step :: "'e \<Rightarrow> 's \<Rightarrow> 's option"
    and guard :: "'e \<Rightarrow> bool"
    and inv :: "'s \<Rightarrow> bool"
  assumes step_inv: "\<lbrakk> inv s; guard e; step e s = Some t \<rbrakk> \<Longrightarrow> inv t"
begin

lemma runs_inv:
  "\<lbrakk> inv s; list_all guard es; runs step es s = Some t \<rbrakk> \<Longrightarrow> inv t"
proof (induction es arbitrary: s)
  case Nil
  then show ?case by simp
next
  case (Cons e es)
  then obtain u where "step e s = Some u" "runs step es u = Some t" by auto
  with Cons show ?case by (auto intro: step_inv)
qed

end

locale inv_system =
  fixes step :: "'e \<Rightarrow> 's \<Rightarrow> 's option"
    and inv :: "'s \<Rightarrow> bool"
  assumes step_inv: "\<lbrakk> inv s; step e s = Some t \<rbrakk> \<Longrightarrow> inv t"

sublocale inv_system \<subseteq> all: guarded_system step "\<lambda>_. True" inv
  by unfold_locales (rule step_inv)

context inv_system
begin

lemma runs_inv: "\<lbrakk> inv s; runs step es s = Some t \<rbrakk> \<Longrightarrow> inv t"
  by (rule all.runs_inv) (simp_all add: list_all_iff)

text \<open>A preorder every step follows is followed by every run: no growth, no decrease, no change.\<close>

lemma runs_rel:
  assumes "reflp R" "transp R" and follow: "\<And>s e t. \<lbrakk> inv s; step e s = Some t \<rbrakk> \<Longrightarrow> R s t"
    and "inv s" "runs step es s = Some t"
  shows "R s t"
  using assms(4,5)
proof (induction es arbitrary: s)
  case Nil
  with assms(1) show ?case by (simp add: reflpD)
next
  case (Cons e es)
  then obtain u where u: "step e s = Some u" "runs step es u = Some t" by auto
  with Cons have "R s u" "R u t" by (blast intro: follow step_inv)+
  with assms(2) show ?case by (blast dest: transpD)
qed

lemma runs_antimono:
  fixes f :: "'s \<Rightarrow> 'b::order"
  assumes "\<And>s e t. \<lbrakk> inv s; step e s = Some t \<rbrakk> \<Longrightarrow> f t \<le> f s"
    and "inv s" "runs step es s = Some t"
  shows "f t \<le> f s"
  by (rule runs_rel [of "\<lambda>s t. f t \<le> f s", OF _ _ assms])
    (auto intro!: reflpI transpI)

lemma runs_mono:
  fixes f :: "'s \<Rightarrow> 'b::order"
  assumes "\<And>s e t. \<lbrakk> inv s; step e s = Some t \<rbrakk> \<Longrightarrow> f s \<le> f t"
    and "inv s" "runs step es s = Some t"
  shows "f s \<le> f t"
  by (rule runs_rel [of "\<lambda>s t. f s \<le> f t", OF _ _ assms])
    (auto intro!: reflpI transpI)

lemma runs_const:
  assumes "\<And>s e t. \<lbrakk> inv s; step e s = Some t \<rbrakk> \<Longrightarrow> f t = f s"
    and "inv s" "runs step es s = Some t"
  shows "f t = f s"
  by (rule runs_rel [of "\<lambda>s t. f t = f s", OF _ _ assms])
    (auto intro!: reflpI transpI)

end

text \<open>
  Bisimulation: the same event is enabled on both sides and leads to related states, so every
  schedule runs on one side exactly when it runs on the other.
\<close>

locale bisim_system =
  fixes cstep :: "'e \<Rightarrow> 'c \<Rightarrow> 'c option"
    and astep :: "'e \<Rightarrow> 'a \<Rightarrow> 'a option"
    and rel :: "'c \<Rightarrow> 'a \<Rightarrow> bool"
  assumes bisim: "rel c a \<Longrightarrow> rel_option rel (cstep e c) (astep e a)"
begin

lemma runs_bisim: "rel c a \<Longrightarrow> rel_option rel (runs cstep es c) (runs astep es a)"
proof (induction es arbitrary: c a)
  case Nil
  then show ?case by simp
next
  case (Cons e es)
  from bisim [OF Cons.prems, of e] show ?case
    by (cases "cstep e c"; cases "astep e a") (auto intro: Cons.IH)
qed

lemma runs_forth:
  assumes "rel c a" "runs cstep es c = Some c'"
  obtains a' where "runs astep es a = Some a'" "rel c' a'"
  using runs_bisim [OF assms(1), of es] assms(2) that by (cases "runs astep es a") auto

lemma runs_back:
  assumes "rel c a" "runs astep es a = Some a'"
  obtains c' where "runs cstep es c = Some c'" "rel c' a'"
  using runs_bisim [OF assms(1), of es] assms(2) that by (cases "runs cstep es c") auto

end

end
