(* ===== verification/Lru_Cache.thy ===== *)
theory Lru_Cache
  imports Linked_List Event_System
begin

text \<open>
  \<^verbatim>\<open>util/lru_cache.h\<close>: \<open>LRUCache\<close> and its thread-safe wrapper \<open>BlockingLRUCache\<close>.
  The \<open>unordered_map\<close> is an association list with distinct keys.  Its nodes never move, and a
  node is identified by its key, so a \<open>PairType*\<close> is the key of the node it points to;
  following a pointer whose key is not in the map is undefined behaviour (\<open>None\<close>).  The hidden
  doubly linked list runs through the entries (\<open>parent\<close> towards the head, \<open>child\<close> towards the
  tail).  The second half refines the cache to a list of pairs, most recently used first.
\<close>

section \<open>State\<close>

record ('k, 'v) entry =
  e_value :: 'v
  parent :: "'k option"
  child :: "'k option"

record ('k, 'v) lru_cache =
  mem :: "('k \<times> ('k, 'v) entry) list"
  capacity :: u32
  lru_list_head :: "'k option"
  lru_list_tail :: "'k option"

text \<open>The constructor takes a \<open>size_t\<close> and stores it in a \<open>uint32_t\<close>.\<close>

definition LRUCache :: "u64 \<Rightarrow> ('k, 'v) lru_cache" where
  "LRUCache cap = \<lparr>mem = [], capacity = ucast cap, lru_list_head = None, lru_list_tail = None\<rparr>"

section \<open>Pointer accesses\<close>

definition deref :: "('k, 'v) lru_cache \<Rightarrow> 'k \<Rightarrow> ('k, 'v) entry option" where
  "deref c p = map_of (mem c) p"

definition store :: "'k \<Rightarrow> (('k, 'v) entry \<Rightarrow> ('k, 'v) entry) \<Rightarrow> ('k, 'v) lru_cache \<Rightarrow> ('k, 'v) lru_cache option" where
  "store p f c = (case deref c p of None \<Rightarrow> None
     | Some n \<Rightarrow> Some (c\<lparr>mem := AList.update p (f n) (mem c)\<rparr>))"

section \<open>The recency list\<close>

definition list_insert_head :: "'k \<Rightarrow> ('k, 'v) lru_cache \<Rightarrow> ('k, 'v) lru_cache option" where
  "list_insert_head e c =
     (case lru_list_head c of
        None \<Rightarrow> do {
          c \<leftarrow> Some (c\<lparr>lru_list_head := Some e, lru_list_tail := Some e\<rparr>);
          c \<leftarrow> store e (parent_update (\<lambda>_. None)) c;
          store e (child_update (\<lambda>_. None)) c }
      | Some _ \<Rightarrow> do {
          c \<leftarrow> store e (parent_update (\<lambda>_. None)) c;
          c \<leftarrow> store e (child_update (\<lambda>_. lru_list_head c)) c;
          h \<leftarrow> lru_list_head c;
          c \<leftarrow> store h (parent_update (\<lambda>_. Some e)) c;
          Some (c\<lparr>lru_list_head := Some e\<rparr>) })"

definition list_release :: "'k \<Rightarrow> ('k, 'v) lru_cache \<Rightarrow> ('k, 'v) lru_cache option" where
  "list_release e c = do {
     n \<leftarrow> deref c e;
     c \<leftarrow> (case parent n of
             None \<Rightarrow> Some (c\<lparr>lru_list_head := child n\<rparr>)
           | Some p \<Rightarrow> store p (child_update (\<lambda>_. child n)) c);
     n \<leftarrow> deref c e;
     (case child n of
        None \<Rightarrow> Some (c\<lparr>lru_list_tail := parent n\<rparr>)
      | Some d \<Rightarrow> store d (parent_update (\<lambda>_. parent n)) c) }"

definition list_move_to_head :: "'k \<Rightarrow> ('k, 'v) lru_cache \<Rightarrow> ('k, 'v) lru_cache option" where
  "list_move_to_head e c = do { c \<leftarrow> list_release e c; list_insert_head e c }"

text \<open>\<open>gc1\<close>: the \<open>assert\<close> on the tail is the \<open>None\<close> of the first bind.\<close>

definition gc1 :: "('k, 'v) lru_cache \<Rightarrow> ('k, 'v) lru_cache option" where
  "gc1 c = do {
     e \<leftarrow> lru_list_tail c;
     c \<leftarrow> list_release e c;
     Some (c\<lparr>mem := AList.delete e (mem c)\<rparr>) }"

section \<open>Operations\<close>

definition lru_set :: "'k \<Rightarrow> 'v \<Rightarrow> ('k, 'v) lru_cache \<Rightarrow> ('k, 'v) lru_cache option" where
  "lru_set key v c =
     (case map_of (mem c) key of
        None \<Rightarrow> do {
          c \<leftarrow> Some (c\<lparr>mem := (key, \<lparr>e_value = v, parent = None, child = None\<rparr>) # mem c\<rparr>);
          c \<leftarrow> list_insert_head key c;
          (if unat (capacity c) < length (mem c) then gc1 c else Some c) }
      | Some _ \<Rightarrow> do {
          c \<leftarrow> store key (e_value_update (\<lambda>_. v)) c;
          list_move_to_head key c })"

text \<open>\<open>get\<close> returns a pointer into the entry (here the key of that entry) or \<open>nullptr\<close>.\<close>

definition lru_get :: "'k \<Rightarrow> ('k, 'v) lru_cache \<Rightarrow> ('k option \<times> ('k, 'v) lru_cache) option" where
  "lru_get key c =
     (case map_of (mem c) key of
        None \<Rightarrow> Some (None, c)
      | Some _ \<Rightarrow> do { c \<leftarrow> list_move_to_head key c; Some (Some key, c) })"

text \<open>
  The operations with an out-parameter take the current contents of \<open>*out_value\<close> and return the
  new contents beside the boolean result.
\<close>

definition lru_get_copy :: "'k \<Rightarrow> 'v \<Rightarrow> ('k, 'v) lru_cache \<Rightarrow> (bool \<times> 'v \<times> ('k, 'v) lru_cache) option" where
  "lru_get_copy key out c =
     (case map_of (mem c) key of
        None \<Rightarrow> Some (False, out, c)
      | Some _ \<Rightarrow> do {
          c \<leftarrow> list_move_to_head key c;
          n \<leftarrow> deref c key;
          Some (True, e_value n, c) })"

definition lru_get_move :: "'k \<Rightarrow> 'v \<Rightarrow> ('k, 'v) lru_cache \<Rightarrow> (bool \<times> 'v \<times> ('k, 'v) lru_cache) option" where
  "lru_get_move key out c =
     (case map_of (mem c) key of
        None \<Rightarrow> Some (False, out, c)
      | Some n \<Rightarrow> do {
          c \<leftarrow> list_release key c;
          Some (True, e_value n, c\<lparr>mem := AList.delete key (mem c)\<rparr>) })"

text \<open>\<open>target\<close> dereferences a stored smart pointer; \<open>None\<close> when it is null.\<close>

definition lru_get_copy_pointee ::
    "('v \<Rightarrow> 'w option) \<Rightarrow> 'k \<Rightarrow> 'w \<Rightarrow> ('k, 'v) lru_cache \<Rightarrow> (bool \<times> 'w \<times> ('k, 'v) lru_cache) option" where
  "lru_get_copy_pointee target key out c =
     (case map_of (mem c) key of
        None \<Rightarrow> Some (False, out, c)
      | Some _ \<Rightarrow> do {
          c \<leftarrow> list_move_to_head key c;
          n \<leftarrow> deref c key;
          w \<leftarrow> target (e_value n);
          Some (True, w, c) })"

definition lru_has_key :: "'k \<Rightarrow> ('k, 'v) lru_cache \<Rightarrow> bool" where
  "lru_has_key key c \<longleftrightarrow> map_of (mem c) key \<noteq> None"

definition lru_erase :: "'k \<Rightarrow> ('k, 'v) lru_cache \<Rightarrow> (bool \<times> ('k, 'v) lru_cache) option" where
  "lru_erase key c =
     (case map_of (mem c) key of
        None \<Rightarrow> Some (False, c)
      | Some _ \<Rightarrow> do {
          c \<leftarrow> list_release key c;
          Some (True, c\<lparr>mem := AList.delete key (mem c)\<rparr>) })"

definition lru_clear :: "('k, 'v) lru_cache \<Rightarrow> ('k, 'v) lru_cache" where
  "lru_clear c = c\<lparr>mem := [], lru_list_head := None, lru_list_tail := None\<rparr>"

section \<open>The store as pointer maps\<close>

definition keys :: "('k, 'v) lru_cache \<Rightarrow> 'k set" where
  "keys c = fst ` set (mem c)"

definition childs :: "('k, 'v) lru_cache \<Rightarrow> 'k \<Rightarrow> 'k option" where
  "childs c p = Option.bind (map_of (mem c) p) child"

definition parents :: "('k, 'v) lru_cache \<Rightarrow> 'k \<Rightarrow> 'k option" where
  "parents c p = Option.bind (map_of (mem c) p) parent"

definition vals :: "('k, 'v) lru_cache \<Rightarrow> 'k \<Rightarrow> 'v option" where
  "vals c p = map_option e_value (map_of (mem c) p)"

lemma map_of_keys_iff: "map_of (mem c) p = None \<longleftrightarrow> p \<notin> keys c"
  by (simp add: keys_def map_of_eq_None_iff)

lemma keysE:
  assumes "p \<in> keys c" obtains n where "map_of (mem c) p = Some n"
  using assms map_of_keys_iff [of c p] by blast

text \<open>What a store operation leaves alone.\<close>

definition same_data :: "('k, 'v) lru_cache \<Rightarrow> ('k, 'v) lru_cache \<Rightarrow> bool" where
  "same_data c c' \<longleftrightarrow> keys c' = keys c \<and> vals c' = vals c \<and> capacity c' = capacity c \<and>
     map fst (mem c') = map fst (mem c)"

lemma same_data_refl [simp]: "same_data c c"
  by (simp add: same_data_def)

lemma same_data_trans: "\<lbrakk> same_data a b; same_data b c \<rbrakk> \<Longrightarrow> same_data a c"
  by (simp add: same_data_def)

lemma same_data_length: "same_data c c' \<Longrightarrow> length (mem c') = length (mem c)"
  unfolding same_data_def by (metis length_map)

lemma maps_update:
  "childs (c\<lparr>mem := AList.update p n (mem c)\<rparr>) = (childs c)(p := child n)"
  "parents (c\<lparr>mem := AList.update p n (mem c)\<rparr>) = (parents c)(p := parent n)"
  "vals (c\<lparr>mem := AList.update p n (mem c)\<rparr>) = (vals c)(p \<mapsto> e_value n)"
  by (auto simp: childs_def parents_def vals_def fun_eq_iff)

lemma same_data_update:
  assumes "map_of (mem c) p = Some n" "e_value n' = e_value n"
  shows "same_data c (c\<lparr>mem := AList.update p n' (mem c)\<rparr>)"
proof -
  have "p \<in> set (map fst (mem c))"
    using assms(1) by (metis map_of_eq_None_iff list.set_map option.distinct(1))
  moreover have "vals (c\<lparr>mem := AList.update p n' (mem c)\<rparr>) = vals c"
    using assms by (auto simp: vals_def fun_eq_iff)
  ultimately show ?thesis
    by (auto simp: same_data_def keys_def update_keys insert_absorb)
qed

lemma store_child:
  assumes "p \<in> keys c"
  obtains c' where "store p (child_update (\<lambda>_. v)) c = Some c'" "same_data c c'"
    "childs c' = (childs c)(p := v)" "parents c' = parents c"
    "lru_list_head c' = lru_list_head c" "lru_list_tail c' = lru_list_tail c"
proof -
  obtain n where n: "map_of (mem c) p = Some n" using assms by (rule keysE)
  then have "parents c p = parent n" by (simp add: parents_def)
  then show ?thesis
    using n same_data_update [OF n, of "n\<lparr>child := v\<rparr>"]
    by (intro that [of "c\<lparr>mem := AList.update p (n\<lparr>child := v\<rparr>) (mem c)\<rparr>"])
      (auto simp: store_def deref_def maps_update)
qed

lemma store_parent:
  assumes "p \<in> keys c"
  obtains c' where "store p (parent_update (\<lambda>_. v)) c = Some c'" "same_data c c'"
    "parents c' = (parents c)(p := v)" "childs c' = childs c"
    "lru_list_head c' = lru_list_head c" "lru_list_tail c' = lru_list_tail c"
proof -
  obtain n where n: "map_of (mem c) p = Some n" using assms by (rule keysE)
  then have "childs c p = child n" by (simp add: childs_def)
  then show ?thesis
    using n same_data_update [OF n, of "n\<lparr>parent := v\<rparr>"]
    by (intro that [of "c\<lparr>mem := AList.update p (n\<lparr>parent := v\<rparr>) (mem c)\<rparr>"])
      (auto simp: store_def deref_def maps_update)
qed

section \<open>The recency list as a list of keys\<close>

definition lru_list :: "('k, 'v) lru_cache \<Rightarrow> 'k list \<Rightarrow> bool" where
  "lru_list c xs \<longleftrightarrow>
     dll (childs c) (parents c) (lru_list_head c) (lru_list_tail c) xs \<and> set xs \<subseteq> keys c"

lemma lru_list_head_update [simp]:
  "childs (lru_list_head_update f c) = childs c" "childs (lru_list_tail_update f c) = childs c"
  "parents (lru_list_head_update f c) = parents c" "parents (lru_list_tail_update f c) = parents c"
  "keys (lru_list_head_update f c) = keys c" "keys (lru_list_tail_update f c) = keys c"
  "vals (lru_list_head_update f c) = vals c" "vals (lru_list_tail_update f c) = vals c"
  "same_data c (lru_list_head_update g d) = same_data c d"
  "same_data c (lru_list_tail_update g d) = same_data c d"
  by (simp_all add: childs_def parents_def keys_def vals_def same_data_def fun_eq_iff)

lemma list_insert_head_empty:
  assumes l: "lru_list c []" and e: "e \<in> keys c"
  shows "\<exists>c'. list_insert_head e c = Some c' \<and> lru_list c' [e] \<and> same_data c c'"
proof -
  define c0 where "c0 = c\<lparr>lru_list_head := Some e, lru_list_tail := Some e\<rparr>"
  have "e \<in> keys c0" using e by (simp add: c0_def)
  then obtain c1 where c1: "store e (parent_update (\<lambda>_. None)) c0 = Some c1" "same_data c0 c1"
    "parents c1 = (parents c0)(e := None)" "lru_list_head c1 = Some e" "lru_list_tail c1 = Some e"
    by (rule store_parent [of e c0 None]) (simp add: c0_def)
  from \<open>e \<in> keys c0\<close> c1(2) have "e \<in> keys c1" by (simp add: same_data_def)
  then obtain c2 where c2: "store e (child_update (\<lambda>_. None)) c1 = Some c2" "same_data c1 c2"
    "childs c2 = (childs c1)(e := None)" "parents c2 = parents c1"
    "lru_list_head c2 = Some e" "lru_list_tail c2 = Some e"
    by (rule store_child [of e c1 None]) (simp add: c1)
  have "same_data c c2" using c1(2) c2(2) by (simp add: c0_def same_data_def)
  moreover have "list_insert_head e c = Some c2"
    using l c1(1) c2(1) by (simp add: lru_list_def list_insert_head_def c0_def)
  moreover have "lru_list c2 [e]"
    using c1 c2 e \<open>same_data c c2\<close> by (simp add: lru_list_def dll_def same_data_def)
  ultimately show ?thesis by blast
qed

lemma list_insert_head_nonempty:
  assumes l: "lru_list c (y # ys)" and e: "e \<in> keys c" "e \<notin> set (y # ys)"
  shows "\<exists>c'. list_insert_head e c = Some c' \<and> lru_list c' (e # y # ys) \<and> same_data c c'"
proof -
  have h: "lru_list_head c = Some y" using l by (simp add: lru_list_def dll_def)
  obtain c1 where c1: "store e (parent_update (\<lambda>_. None)) c = Some c1" "same_data c c1"
    "parents c1 = (parents c)(e := None)" "childs c1 = childs c"
    "lru_list_head c1 = Some y" "lru_list_tail c1 = lru_list_tail c"
    using e(1) by (rule store_parent [of e c None]) (simp add: h)
  from e c1(2) have "e \<in> keys c1" by (simp add: same_data_def)
  then obtain c2 where c2: "store e (child_update (\<lambda>_. Some y)) c1 = Some c2" "same_data c1 c2"
    "childs c2 = (childs c)(e := Some y)" "parents c2 = (parents c)(e := None)"
    "lru_list_head c2 = Some y" "lru_list_tail c2 = lru_list_tail c"
    by (rule store_child [of e c1 "Some y"]) (simp add: c1)
  have "y \<in> keys c2" using l c1(2) c2(2) by (auto simp: lru_list_def same_data_def)
  then obtain c3 where c3: "store y (parent_update (\<lambda>_. Some e)) c2 = Some c3" "same_data c2 c3"
    "parents c3 = (parents c)(e := None, y := Some e)" "childs c3 = (childs c)(e := Some y)"
    "lru_list_head c3 = Some y" "lru_list_tail c3 = lru_list_tail c"
    by (rule store_parent [of y c2 "Some e"]) (simp add: c2)
  have sd: "same_data c c3" using c1(2) c2(2) c3(2) by (simp add: same_data_def)
  have "list_insert_head e c = Some (c3\<lparr>lru_list_head := Some e\<rparr>)"
    using c1 c2 c3 h by (simp add: list_insert_head_def)
  moreover have "lru_list (c3\<lparr>lru_list_head := Some e\<rparr>) (e # y # ys)"
  proof -
    have "dll ((childs c)(e := Some y)) ((parents c)(e := None)) (Some y) (lru_list_tail c) (y # ys)"
      using l e(2) h by (simp add: lru_list_def)
    from dll_push_front [OF this e(2)]
    have "dll ((childs c)(e := Some y)) (set_first (y # ys) (Some e) ((parents c)(e := None)))
        (Some e) (lru_list_tail c) (e # y # ys)" by simp
    then show ?thesis
      using c3 l e sd by (auto simp: lru_list_def set_first_def same_data_def)
  qed
  ultimately show ?thesis using sd by fastforce
qed

lemma list_insert_head_spec:
  assumes "lru_list c xs" "e \<in> keys c" "e \<notin> set xs"
  shows "\<exists>c'. list_insert_head e c = Some c' \<and> lru_list c' (e # xs) \<and> same_data c c'"
  using assms by (cases xs) (auto intro: list_insert_head_empty list_insert_head_nonempty)

lemma deref_keys:
  assumes "p \<in> keys c"
  obtains n where "deref c p = Some n" "child n = childs c p" "parent n = parents c p"
    "vals c p = Some (e_value n)"
proof -
  obtain n where "map_of (mem c) p = Some n" using assms by (rule keysE)
  then show ?thesis by (intro that [of n]) (simp_all add: deref_def childs_def parents_def vals_def)
qed

text \<open>
  The two halves of \<open>list_release\<close>: redirecting the pointer that leads to the node from the
  head side and from the tail side, or the list's own head or tail pointer at an end.
\<close>

lemma redirect_child:
  assumes "p = last_ptr None as" "set as \<subseteq> keys c"
  obtains c' where
    "(case p of None \<Rightarrow> Some (c\<lparr>lru_list_head := v\<rparr>)
      | Some q \<Rightarrow> store q (child_update (\<lambda>_. v)) c) = Some c'"
    "same_data c c'" "childs c' = set_last as v (childs c)" "parents c' = parents c"
    "lru_list_head c' = (if p = None then v else lru_list_head c)"
    "lru_list_tail c' = lru_list_tail c"
proof (cases as rule: rev_cases)
  case Nil
  then show ?thesis
    using assms by (intro that [of "c\<lparr>lru_list_head := v\<rparr>"]) (simp_all add: set_last_def)
next
  case (snoc zs z)
  then have "z \<in> keys c" using assms by simp
  then obtain c' where "store z (child_update (\<lambda>_. v)) c = Some c'" "same_data c c'"
      "childs c' = (childs c)(z := v)" "parents c' = parents c"
      "lru_list_head c' = lru_list_head c" "lru_list_tail c' = lru_list_tail c"
    by (rule store_child)
  then show ?thesis using assms snoc by (intro that [of c']) (simp_all add: set_last_def)
qed

lemma redirect_parent:
  assumes "p = fst_ptr bs None" "set bs \<subseteq> keys c"
  obtains c' where
    "(case p of None \<Rightarrow> Some (c\<lparr>lru_list_tail := v\<rparr>)
      | Some q \<Rightarrow> store q (parent_update (\<lambda>_. v)) c) = Some c'"
    "same_data c c'" "parents c' = set_first bs v (parents c)" "childs c' = childs c"
    "lru_list_tail c' = (if p = None then v else lru_list_tail c)"
    "lru_list_head c' = lru_list_head c"
proof (cases bs)
  case Nil
  then show ?thesis
    using assms by (intro that [of "c\<lparr>lru_list_tail := v\<rparr>"]) (simp_all add: set_first_def)
next
  case (Cons z zs)
  then have "z \<in> keys c" using assms by simp
  then obtain c' where "store z (parent_update (\<lambda>_. v)) c = Some c'" "same_data c c'"
      "parents c' = (parents c)(z := v)" "childs c' = childs c"
      "lru_list_head c' = lru_list_head c" "lru_list_tail c' = lru_list_tail c"
    by (rule store_parent)
  then show ?thesis using assms Cons by (intro that [of c']) (simp_all add: set_first_def)
qed

lemma list_release_spec:
  assumes l: "lru_list c (as @ e # bs)"
  shows "\<exists>c'. list_release e c = Some c' \<and> lru_list c' (as @ bs) \<and> same_data c c'"
proof -
  have d: "dll (childs c) (parents c) (lru_list_head c) (lru_list_tail c) (as @ e # bs)"
    and ks: "set (as @ e # bs) \<subseteq> keys c" using l by (simp_all add: lru_list_def)
  note ptrs = dll_node [OF d]
  have "e \<in> keys c" using ks by simp
  then obtain n where n: "deref c e = Some n" "child n = childs c e" "parent n = parents c e"
    by (rule deref_keys)
  have "parent n = last_ptr None as" "set as \<subseteq> keys c" using n ptrs ks by simp_all
  then obtain c1 where c1: "(case parent n of None \<Rightarrow> Some (c\<lparr>lru_list_head := child n\<rparr>)
          | Some q \<Rightarrow> store q (child_update (\<lambda>_. child n)) c) = Some c1"
      "same_data c c1" "childs c1 = set_last as (child n) (childs c)" "parents c1 = parents c"
      "lru_list_head c1 = (if parent n = None then child n else lru_list_head c)"
      "lru_list_tail c1 = lru_list_tail c"
    by (rule redirect_child)
  have e: "e \<notin> set as" "e \<notin> set bs" using dll_distinct [OF d] by auto
  have ks1: "set (as @ e # bs) \<subseteq> keys c1" using ks c1(2) by (simp add: same_data_def)
  then have "e \<in> keys c1" by simp
  then obtain m where "deref c1 e = Some m" "child m = childs c1 e" "parent m = parents c1 e"
    by (rule deref_keys)
  then have m: "deref c1 e = Some m" "child m = childs c e" "parent m = parents c e"
    using e c1 n by (auto simp: set_last_def)
  have "child m = fst_ptr bs None" "set bs \<subseteq> keys c1" using m ptrs ks1 by simp_all
  then obtain c2 where c2: "(case child m of None \<Rightarrow> Some (c1\<lparr>lru_list_tail := parent m\<rparr>)
          | Some q \<Rightarrow> store q (parent_update (\<lambda>_. parent m)) c1) = Some c2"
      "same_data c1 c2" "parents c2 = set_first bs (parent m) (parents c1)"
      "childs c2 = childs c1"
      "lru_list_tail c2 = (if child m = None then parent m else lru_list_tail c1)"
      "lru_list_head c2 = lru_list_head c1"
    by (rule redirect_parent)
  have sd: "same_data c c2" using c1(2) c2(2) by (rule same_data_trans)
  have "dll (childs c2) (parents c2) (lru_list_head c2) (lru_list_tail c2) (as @ bs)"
    unfolding c2(3-6) c1(3-6) m(2,3) n(2,3) by (rule dll_unlink [OF d])
  with sd ks have "lru_list c2 (as @ bs)" by (simp add: lru_list_def same_data_def)
  moreover have "list_release e c = Some c2"
    using n(1) c1(1) m(1) c2(1) by (simp add: list_release_def)
  ultimately show ?thesis using sd by blast
qed

lemma list_move_to_head_spec:
  assumes l: "lru_list c xs" and e: "e \<in> set xs"
  shows "\<exists>c'. list_move_to_head e c = Some c' \<and> lru_list c' (e # removeAll e xs) \<and> same_data c c'"
proof -
  obtain as bs where xs: "xs = as @ e # bs" using e by (meson split_list)
  obtain c1 where c1: "list_release e c = Some c1" "lru_list c1 (as @ bs)" "same_data c c1"
    using list_release_spec [of c as e bs] l xs by blast
  have d: "distinct xs" "set xs \<subseteq> keys c" using l by (auto simp: lru_list_def dest: dll_distinct)
  then have "e \<notin> set (as @ bs)" "removeAll e xs = as @ bs" using xs by auto
  moreover have "e \<in> keys c1" using d e c1(3) by (auto simp: same_data_def)
  ultimately show ?thesis
    using list_insert_head_spec [OF c1(2), of e] c1
    by (auto simp: list_move_to_head_def intro: same_data_trans)
qed

end
