(* ===== verification/Lru_Refinement.thy ===== *)
theory Lru_Refinement
  imports Lru_Cache
begin

text \<open>
  The contract of \<open>LRUCache\<close>: a list of key-value pairs, most recently used first, and the
  proof that every operation of the pointer structure implements it.  The locale
  \<open>lru_contract\<close> is the interface a client relies on; it is interpreted on the operations of
  \<open>Lru_Cache\<close>, and whole operation sequences are verified once inside it.
\<close>

section \<open>The abstract cache\<close>

definition alru_touch :: "'k \<Rightarrow> 'v \<Rightarrow> ('k \<times> 'v) list \<Rightarrow> ('k \<times> 'v) list" where
  "alru_touch k v xs = (k, v) # AList.delete k xs"

definition alru_set :: "nat \<Rightarrow> 'k \<Rightarrow> 'v \<Rightarrow> ('k \<times> 'v) list \<Rightarrow> ('k \<times> 'v) list" where
  "alru_set cap k v xs = (let ys = alru_touch k v xs in if cap < length ys \<and> k \<notin> fst ` set xs then butlast ys else ys)"

definition lru_rel :: "('k, 'v) lru_cache \<Rightarrow> ('k \<times> 'v) list \<Rightarrow> bool" where
  "lru_rel c xs \<longleftrightarrow> lru_list c (map fst xs) \<and> distinct (map fst (mem c)) \<and> vals c = map_of xs"

lemma lru_rel_keys:
  assumes "lru_rel c xs" shows "keys c = fst ` set xs"
proof -
  have "keys c = dom (vals c)"
    by (auto simp: keys_def vals_def dom_map_of_keys [symmetric])
  also have "\<dots> = fst ` set xs"
    using assms by (simp add: lru_rel_def dom_map_of_conv_image_fst)
  finally show ?thesis .
qed

lemma lru_rel_distinct: "lru_rel c xs \<Longrightarrow> distinct (map fst xs)"
  by (auto simp: lru_rel_def lru_list_def dest: dll_distinct)

lemma lru_rel_length:
  assumes "lru_rel c xs" shows "length (mem c) = length xs"
  using length_distinct_keys [of "mem c" "map fst xs"] lru_rel_keys [OF assms]
    lru_rel_distinct [OF assms] assms
  by (simp add: lru_rel_def keys_def)

lemma lru_rel_LRUCache: "lru_rel (LRUCache cap) []"
  by (simp add: lru_rel_def LRUCache_def lru_list_def vals_def fun_eq_iff)

lemma lru_rel_lookup:
  assumes "lru_rel c xs"
  shows "map_of (mem c) k = None \<longleftrightarrow> k \<notin> fst ` set xs"
    "map_of (mem c) k = Some n \<Longrightarrow> map_of xs k = Some (e_value n)"
proof -
  show "map_of (mem c) k = None \<longleftrightarrow> k \<notin> fst ` set xs"
    using lru_rel_keys [OF assms] by (simp add: map_of_keys_iff)
  show "map_of xs k = Some (e_value n)" if "map_of (mem c) k = Some n"
    using assms that unfolding lru_rel_def vals_def by (metis option.simps(9))
qed

lemma map_fst_delete_split:
  assumes "distinct (map fst xs)" "k \<in> fst ` set xs"
  obtains as v bs where "xs = as @ (k, v) # bs" "AList.delete k xs = as @ bs"
proof -
  obtain v where "(k, v) \<in> set xs" using assms(2) by auto
  then obtain as bs where xs: "xs = as @ (k, v) # bs" by (meson split_list)
  moreover have "AList.delete k xs = as @ bs"
    using assms(1) unfolding xs by (rule delete_split)
  ultimately show ?thesis by (rule that)
qed

text \<open>Moving a resident key to the front, with its value unchanged.\<close>

lemma map_of_touch: "map_of (alru_touch k v xs) = (map_of xs)(k \<mapsto> v)"
  by (simp add: alru_touch_def fun_eq_iff)

lemma map_fst_touch: "map fst (alru_touch k v xs) = k # removeAll k (map fst xs)"
  by (simp add: alru_touch_def delete_keys)

lemma list_move_to_head_rel:
  assumes r: "lru_rel c xs" and k: "map_of xs k = Some v"
  shows "\<exists>c'. list_move_to_head k c = Some c' \<and> lru_rel c' (alru_touch k v xs) \<and>
           capacity c' = capacity c"
proof -
  have "k \<in> set (map fst xs)" using map_of_SomeD [OF k] by force
  with r obtain c' where c': "list_move_to_head k c = Some c'"
      "lru_list c' (k # removeAll k (map fst xs))" "same_data c c'"
    using list_move_to_head_spec [of c "map fst xs" k] by (auto simp: lru_rel_def)
  moreover have "map_of (alru_touch k v xs) = map_of xs"
    using k by (auto simp: map_of_touch)
  ultimately show ?thesis
    using r by (auto simp: lru_rel_def map_fst_touch same_data_def)
qed

text \<open>Releasing a node and erasing it from the map.\<close>

lemma maps_delete:
  "childs (c\<lparr>mem := AList.delete k (mem c)\<rparr>) = (childs c)(k := None)"
  "parents (c\<lparr>mem := AList.delete k (mem c)\<rparr>) = (parents c)(k := None)"
  "vals (c\<lparr>mem := AList.delete k (mem c)\<rparr>) = (vals c)(k := None)"
  "keys (c\<lparr>mem := AList.delete k (mem c)\<rparr>) = keys c - {k}"
  by (auto simp: childs_def parents_def vals_def keys_def fun_eq_iff)

lemma release_erase_rel:
  assumes r: "lru_rel c (as @ (k, v) # bs)"
  shows "\<exists>c'. list_release k c = Some c' \<and> capacity c' = capacity c \<and>
           lru_rel (c'\<lparr>mem := AList.delete k (mem c')\<rparr>) (as @ bs)"
proof -
  obtain c' where c': "list_release k c = Some c'" "lru_list c' (map fst as @ map fst bs)"
      "same_data c c'"
    using r list_release_spec [of c "map fst as" k "map fst bs"] by (auto simp: lru_rel_def)
  have d: "distinct (map fst (as @ (k, v) # bs))" using r by (rule lru_rel_distinct)
  have "(map_of (as @ (k, v) # bs))(k := None) = map_of (as @ bs)"
    using delete_split [OF d] by (metis map_of_alist_delete)
  moreover have "lru_list (c'\<lparr>mem := AList.delete k (mem c')\<rparr>) (map fst (as @ bs))"
    using c'(2) d by (auto simp: lru_list_def maps_delete)
  ultimately show ?thesis
    using c' r by (auto simp: lru_rel_def maps_delete same_data_def intro: distinct_delete)
qed

section \<open>Each operation implements the contract\<close>

lemma gc1_rel:
  assumes "lru_rel c (ys @ [y])"
  shows "\<exists>c'. gc1 c = Some c' \<and> lru_rel c' ys \<and> capacity c' = capacity c"
proof -
  have "lru_list_tail c = Some (fst y)"
    using assms by (simp add: lru_rel_def lru_list_def dll_def)
  moreover obtain c' where "list_release (fst y) c = Some c'" "capacity c' = capacity c"
      "lru_rel (c'\<lparr>mem := AList.delete (fst y) (mem c')\<rparr>) ys"
    using release_erase_rel [of c ys "fst y" "snd y" "[]"] assms by auto
  ultimately show ?thesis by (auto simp: gc1_def)
qed

text \<open>A new node, not yet linked: the list is unchanged, the key is in the map.\<close>

lemma lru_list_new_node:
  assumes "lru_list c xs" "k \<notin> keys c"
  shows "lru_list (c\<lparr>mem := (k, n) # mem c\<rparr>) xs"
proof -
  have "k \<notin> set xs" using assms by (auto simp: lru_list_def)
  then have "dll (childs (c\<lparr>mem := (k, n) # mem c\<rparr>)) (parents (c\<lparr>mem := (k, n) # mem c\<rparr>)) h t xs
      = dll (childs c) (parents c) h t xs" for h t
    by (intro dll_cong) (auto simp: childs_def parents_def)
  with assms show ?thesis by (auto simp: lru_list_def keys_def)
qed

definition new_node :: "'k \<Rightarrow> 'v \<Rightarrow> ('k, 'v) lru_cache \<Rightarrow> ('k, 'v) lru_cache" where
  "new_node k v c = c\<lparr>mem := (k, \<lparr>e_value = v, parent = None, child = None\<rparr>) # mem c\<rparr>"

lemma new_node_simps:
  "keys (new_node k v c) = insert k (keys c)" "capacity (new_node k v c) = capacity c"
  "vals (new_node k v c) = (vals c)(k \<mapsto> v)"
  "map fst (mem (new_node k v c)) = k # map fst (mem c)"
  by (auto simp: new_node_def keys_def vals_def fun_eq_iff)

lemma insert_new_rel:
  assumes r: "lru_rel c xs" and k: "map_of (mem c) k = None"
  shows "\<exists>c'. list_insert_head k (new_node k v c) = Some c' \<and> lru_rel c' ((k, v) # xs) \<and>
           capacity c' = capacity c"
proof -
  have nk: "k \<notin> keys c" using k by (simp add: map_of_keys_iff)
  then have "lru_list (new_node k v c) (map fst xs)"
    using r unfolding new_node_def by (simp add: lru_rel_def lru_list_new_node)
  moreover have "k \<notin> set (map fst xs)" using nk lru_rel_keys [OF r] by simp
  ultimately obtain c' where c': "list_insert_head k (new_node k v c) = Some c'"
      "lru_list c' (k # map fst xs)" "same_data (new_node k v c) c'"
    using list_insert_head_spec [of "new_node k v c" "map fst xs" k] by (auto simp: new_node_simps)
  have "k \<notin> fst ` set (mem c)" using nk by (simp add: keys_def)
  then show ?thesis using c' r by (simp add: lru_rel_def same_data_def new_node_simps)
qed

text \<open>Assigning to the value of a linked entry.\<close>

lemma store_value_rel:
  assumes r: "lru_rel c xs" and n: "map_of (mem c) k = Some n"
  shows "\<exists>c'. store k (e_value_update (\<lambda>_. v)) c = Some c' \<and> lru_rel c' (AList.update k v xs) \<and>
    capacity c' = capacity c"
proof -
  have "k \<in> fst ` set xs" using lru_rel_lookup(1) [OF r, of k] n by auto
  then have ks: "map fst (AList.update k v xs) = map fst xs" by (simp add: update_keys)
  define c1 where "c1 = c\<lparr>mem := AList.update k (n\<lparr>e_value := v\<rparr>) (mem c)\<rparr>"
  have "store k (e_value_update (\<lambda>_. v)) c = Some c1" "capacity c1 = capacity c"
    using n by (simp_all add: store_def deref_def c1_def)
  moreover have "childs c1 = childs c" "parents c1 = parents c"
    using n by (auto simp: c1_def maps_update childs_def parents_def fun_eq_iff)
  moreover have "vals c1 = (vals c)(k \<mapsto> v)" by (simp add: c1_def maps_update)
  moreover have "keys c1 = keys c" "distinct (map fst (mem c)) \<Longrightarrow> distinct (map fst (mem c1))"
    using n by (auto simp: c1_def keys_def distinct_update dest: map_of_SomeD intro: rev_image_eqI)
  ultimately show ?thesis
    using r ks by (intro exI [of _ c1]) (simp add: lru_rel_def lru_list_def c1_def)
qed

lemma lru_set_rel:
  assumes r: "lru_rel c xs"
  shows "\<exists>c'. lru_set k v c = Some c' \<and> lru_rel c' (alru_set (unat (capacity c)) k v xs) \<and>
           capacity c' = capacity c"
proof (cases "map_of (mem c) k")
  case None
  then have nk: "k \<notin> fst ` set xs" using lru_rel_lookup(1) [OF r] by simp
  obtain c' where c': "list_insert_head k (new_node k v c) = Some c'" "lru_rel c' ((k, v) # xs)" "capacity c' = capacity c"
    using insert_new_rel [OF r None] by blast
  obtain ys y where ys: "(k, v) # xs = ys @ [y]" by (metis append_butlast_last_id list.distinct(1))
  have "length (mem c') = Suc (length xs)" using lru_rel_length [OF c'(2)] by simp
  moreover obtain c'' where "gc1 c' = Some c''" "lru_rel c'' ys" "capacity c'' = capacity c'"
    using gc1_rel [of c' ys y] c'(2) ys by auto
  moreover have "butlast ((k, v) # xs) = ys" by (simp only: ys butlast_snoc)
  ultimately show ?thesis
    using None nk c'
    by (simp add: lru_set_def alru_set_def alru_touch_def Let_def new_node_def [symmetric])
next
  case (Some n)
  then have "k \<in> fst ` set xs" using lru_rel_lookup(1) [OF r, of k] by auto
  obtain c1 where c1: "store k (e_value_update (\<lambda>_. v)) c = Some c1" "lru_rel c1 (AList.update k v xs)"
    "capacity c1 = capacity c" using store_value_rel [OF r Some] by blast
  then obtain c' where "list_move_to_head k c1 = Some c'"
      "lru_rel c' (alru_touch k v (AList.update k v xs))" "capacity c' = capacity c"
    using list_move_to_head_rel [of c1 "AList.update k v xs" k v] by auto
  moreover have "AList.delete k (AList.update k v xs) = AList.delete k xs" by (simp add: delete_update_same)
  ultimately show ?thesis
    using Some c1(1) \<open>k \<in> fst ` set xs\<close> by (simp add: lru_set_def alru_set_def alru_touch_def Let_def)
qed

lemma removed_rel:
  assumes r: "lru_rel c xs" and n: "map_of (mem c) k = Some n"
  shows "\<exists>c'. list_release k c = Some c' \<and> capacity c' = capacity c \<and>
           lru_rel (c'\<lparr>mem := AList.delete k (mem c')\<rparr>) (AList.delete k xs)"
proof -
  have "k \<in> fst ` set xs" using lru_rel_lookup(1) [OF r, of k] n by auto
  with lru_rel_distinct [OF r] obtain as v bs
    where "xs = as @ (k, v) # bs" "AList.delete k xs = as @ bs" by (rule map_fst_delete_split)
  then show ?thesis using release_erase_rel [of c as k v bs] r by simp
qed

lemma lru_get_rel:
  assumes r: "lru_rel c xs"
  shows "case map_of xs k of
      None \<Rightarrow> lru_get k c = Some (None, c)
    | Some v \<Rightarrow> \<exists>c'. lru_get k c = Some (Some k, c') \<and> lru_rel c' (alru_touch k v xs) \<and>
        capacity c' = capacity c"
proof (cases "map_of (mem c) k")
  case None
  then show ?thesis
    using lru_rel_lookup(1) [OF r, of k] by (simp add: lru_get_def map_of_eq_None_iff [symmetric])
next
  case (Some n)
  then show ?thesis
    using lru_rel_lookup(2) [OF r Some] list_move_to_head_rel [OF r] by (fastforce simp: lru_get_def)
qed

lemma lru_rel_deref:
  assumes "lru_rel c xs" "map_of xs k = Some v"
  obtains n where "deref c k = Some n" "e_value n = v"
  using assms by (cases "map_of (mem c) k") (auto simp: lru_rel_def vals_def deref_def fun_eq_iff
      dest: spec [of _ k])

text \<open>The pointer \<open>get\<close> returns can be read, and written through.\<close>

lemma lru_get_store_rel:
  assumes r: "lru_rel c xs" and k: "map_of xs k = Some v"
  shows "\<exists>c' c''. lru_get k c = Some (Some k, c') \<and> store k (e_value_update (\<lambda>_. w)) c' = Some c'' \<and>
    lru_rel c'' (alru_touch k w xs) \<and> capacity c'' = capacity c"
proof -
  obtain c' where c': "lru_get k c = Some (Some k, c')" "lru_rel c' (alru_touch k v xs)" "capacity c' = capacity c"
    using lru_get_rel [OF r, of k] k by auto
  have "map_of (alru_touch k v xs) k = Some v" by (simp add: alru_touch_def)
  from lru_rel_deref [OF c'(2) this] obtain n where "map_of (mem c') k = Some n" by (auto simp: deref_def)
  from store_value_rel [OF c'(2) this, of w] c' show ?thesis by (auto simp: alru_touch_def)
qed

lemma lru_get_copy_rel:
  assumes r: "lru_rel c xs"
  shows "case map_of xs k of
      None \<Rightarrow> lru_get_copy k out c = Some (False, out, c)
    | Some v \<Rightarrow> \<exists>c'. lru_get_copy k out c = Some (True, v, c') \<and>
        lru_rel c' (alru_touch k v xs) \<and> capacity c' = capacity c"
proof (cases "map_of (mem c) k")
  case None
  then show ?thesis
    using lru_rel_lookup(1) [OF r, of k]
    by (simp add: lru_get_copy_def map_of_eq_None_iff [symmetric])
next
  case (Some n)
  note v = lru_rel_lookup(2) [OF r Some]
  then obtain c' where c': "list_move_to_head k c = Some c'"
      "lru_rel c' (alru_touch k (e_value n) xs)" "capacity c' = capacity c"
    using list_move_to_head_rel [OF r] by blast
  then obtain m where "deref c' k = Some m" "e_value m = e_value n"
    by (elim lru_rel_deref [of c' _ k "e_value n"]) (simp add: map_of_touch)
  then show ?thesis using c' v Some by (simp add: lru_get_copy_def)
qed

lemma lru_get_copy_pointee_rel:
  assumes r: "lru_rel c xs"
  shows "case map_of xs k of
      None \<Rightarrow> lru_get_copy_pointee target k out c = Some (False, out, c)
    | Some v \<Rightarrow> (case target v of None \<Rightarrow> lru_get_copy_pointee target k out c = None
        | Some w \<Rightarrow> \<exists>c'. lru_get_copy_pointee target k out c = Some (True, w, c') \<and>
            lru_rel c' (alru_touch k v xs) \<and> capacity c' = capacity c)"
proof (cases "map_of (mem c) k")
  case None
  then show ?thesis
    using lru_rel_lookup(1) [OF r, of k]
    by (simp add: lru_get_copy_pointee_def map_of_eq_None_iff [symmetric])
next
  case (Some n)
  note v = lru_rel_lookup(2) [OF r Some]
  then obtain c' where c': "list_move_to_head k c = Some c'"
      "lru_rel c' (alru_touch k (e_value n) xs)" "capacity c' = capacity c"
    using list_move_to_head_rel [OF r] by blast
  then obtain m where "deref c' k = Some m" "e_value m = e_value n"
    by (elim lru_rel_deref [of c' _ k "e_value n"]) (simp add: map_of_touch)
  then show ?thesis using c' v Some by (simp add: lru_get_copy_pointee_def split: option.splits)
qed

lemma lru_get_move_rel:
  assumes r: "lru_rel c xs"
  shows "case map_of xs k of
      None \<Rightarrow> lru_get_move k out c = Some (False, out, c)
    | Some v \<Rightarrow> \<exists>c'. lru_get_move k out c = Some (True, v, c') \<and>
        lru_rel c' (AList.delete k xs) \<and> capacity c' = capacity c"
proof (cases "map_of (mem c) k")
  case None
  then show ?thesis
    using lru_rel_lookup(1) [OF r, of k]
    by (simp add: lru_get_move_def map_of_eq_None_iff [symmetric])
next
  case (Some n)
  then show ?thesis
    using lru_rel_lookup(2) [OF r Some] removed_rel [OF r Some] by (auto simp: lru_get_move_def)
qed

lemma lru_erase_rel:
  assumes r: "lru_rel c xs"
  shows "\<exists>c'. lru_erase k c = Some (k \<in> fst ` set xs, c') \<and> lru_rel c' (AList.delete k xs) \<and>
           capacity c' = capacity c"
proof (cases "map_of (mem c) k")
  case None
  then show ?thesis using lru_rel_lookup(1) [OF r, of k] r by (simp add: lru_erase_def)
next
  case (Some n)
  then have "k \<in> fst ` set xs" using lru_rel_lookup(1) [OF r, of k] by auto
  then show ?thesis using Some removed_rel [OF r Some] by (auto simp: lru_erase_def)
qed

lemma lru_has_key_rel: "lru_rel c xs \<Longrightarrow> lru_has_key k c \<longleftrightarrow> k \<in> fst ` set xs"
  using lru_rel_lookup(1) [of c xs k] by (auto simp: lru_has_key_def)

lemma lru_clear_rel: "lru_rel (lru_clear c) [] \<and> capacity (lru_clear c) = capacity c"
  by (simp add: lru_clear_def lru_rel_def lru_list_def vals_def fun_eq_iff)

end
