(* ===== verification/Lru_Sessions.thy ===== *)
theory Lru_Sessions
  imports Lru_Refinement
begin

text \<open>
  Sequences of cache operations, and \<open>BlockingLRUCache\<close> under concurrent callers.  The locale
  \<open>cache_contract\<close> states what a client relies on (every operation is defined, answers like the
  abstract list and keeps the relation, unless it reads through a stored null pointer); whole
  sessions are verified inside it, and it is interpreted on the operations of \<open>LRUCache\<close>.
\<close>

section \<open>Operations as data\<close>

text \<open>
  \<open>Op_get k\<close> is a call of \<open>get\<close> whose result is read through the returned pointer, \<open>Op_get_store k v\<close>
  one that assigns \<open>v\<close> through it; both do nothing more when it is \<open>nullptr\<close>.
\<close>

datatype ('k, 'v, 'w) lru_op =
    Op_set 'k 'v
  | Op_get 'k
  | Op_get_store 'k 'v
  | Op_get_copy 'k 'v
  | Op_get_move 'k 'v
  | Op_get_copy_pointee 'k 'w
  | Op_has_key 'k
  | Op_erase 'k
  | Op_clear

datatype ('v, 'w) lru_out =
    Done | Answer bool | Answer_pointer "'v option" | Answer_value bool 'v | Answer_pointee bool 'w

fun lru_exec :: "('v \<Rightarrow> 'w option) \<Rightarrow> ('k, 'v, 'w) lru_op \<Rightarrow> ('k, 'v) lru_cache \<Rightarrow>
    (('v, 'w) lru_out \<times> ('k, 'v) lru_cache) option" where
  "lru_exec target (Op_set k v) c = map_option (Pair Done) (lru_set k v c)"
| "lru_exec target (Op_get k) c = do {
     (p, c) \<leftarrow> lru_get k c;
     (case p of
        None \<Rightarrow> Some (Answer_pointer None, c)
      | Some q \<Rightarrow> do { n \<leftarrow> deref c q; Some (Answer_pointer (Some (e_value n)), c) }) }"
| "lru_exec target (Op_get_store k v) c = do {
     (p, c) \<leftarrow> lru_get k c;
     (case p of
        None \<Rightarrow> Some (Answer False, c)
      | Some q \<Rightarrow> map_option (Pair (Answer True)) (store q (e_value_update (\<lambda>_. v)) c)) }"
| "lru_exec target (Op_get_copy k out) c =
     map_option (\<lambda>(b, v, c'). (Answer_value b v, c')) (lru_get_copy k out c)"
| "lru_exec target (Op_get_move k out) c =
     map_option (\<lambda>(b, v, c'). (Answer_value b v, c')) (lru_get_move k out c)"
| "lru_exec target (Op_get_copy_pointee k out) c =
     map_option (\<lambda>(b, w, c'). (Answer_pointee b w, c')) (lru_get_copy_pointee target k out c)"
| "lru_exec target (Op_has_key k) c = Some (Answer (lru_has_key k c), c)"
| "lru_exec target (Op_erase k) c = map_option (map_prod Answer id) (lru_erase k c)"
| "lru_exec target Op_clear c = Some (Done, lru_clear c)"

fun alru_exec :: "('v \<Rightarrow> 'w option) \<Rightarrow> nat \<Rightarrow> ('k, 'v, 'w) lru_op \<Rightarrow> ('k \<times> 'v) list \<Rightarrow>
    ('v, 'w) lru_out \<times> ('k \<times> 'v) list" where
  "alru_exec target cap (Op_set k v) xs = (Done, alru_set cap k v xs)"
| "alru_exec target cap (Op_get k) xs =
     (case map_of xs k of None \<Rightarrow> (Answer_pointer None, xs)
      | Some v \<Rightarrow> (Answer_pointer (Some v), alru_touch k v xs))"
| "alru_exec target cap (Op_get_store k w) xs =
     (case map_of xs k of None \<Rightarrow> (Answer False, xs)
      | Some v \<Rightarrow> (Answer True, alru_touch k w xs))"
| "alru_exec target cap (Op_get_copy k out) xs =
     (case map_of xs k of None \<Rightarrow> (Answer_value False out, xs)
      | Some v \<Rightarrow> (Answer_value True v, alru_touch k v xs))"
| "alru_exec target cap (Op_get_move k out) xs =
     (case map_of xs k of None \<Rightarrow> (Answer_value False out, xs)
      | Some v \<Rightarrow> (Answer_value True v, AList.delete k xs))"
| "alru_exec target cap (Op_get_copy_pointee k out) xs =
     (case map_of xs k of None \<Rightarrow> (Answer_pointee False out, xs)
      | Some v \<Rightarrow> (Answer_pointee True (the (target v)), alru_touch k v xs))"
| "alru_exec target cap (Op_has_key k) xs = (Answer (k \<in> fst ` set xs), xs)"
| "alru_exec target cap (Op_erase k) xs = (Answer (k \<in> fst ` set xs), AList.delete k xs)"
| "alru_exec target cap Op_clear xs = (Done, [])"

fun lru_session :: "('op \<Rightarrow> 'c \<Rightarrow> ('out \<times> 'c) option) \<Rightarrow> 'op list \<Rightarrow> 'c \<Rightarrow> ('out list \<times> 'c) option" where
  "lru_session exec [] c = Some ([], c)"
| "lru_session exec (p # ps) c = do {
     (out, c) \<leftarrow> exec p c;
     (outs, c) \<leftarrow> lru_session exec ps c;
     Some (out # outs, c) }"

fun alru_session :: "('v \<Rightarrow> 'w option) \<Rightarrow> nat \<Rightarrow> ('k, 'v, 'w) lru_op list \<Rightarrow> ('k \<times> 'v) list \<Rightarrow>
    ('v, 'w) lru_out list \<times> ('k \<times> 'v) list" where
  "alru_session target cap [] xs = ([], xs)"
| "alru_session target cap (p # ps) xs =
     (let (out, ys) = alru_exec target cap p xs;
          (outs, zs) = alru_session target cap ps ys
      in (out # outs, zs))"

text \<open>
  The one operation that follows a pointer of the client is \<open>get_copy_pointee\<close>, which assigns
  \<open>*(it->second->value)\<close>: it faults when the key is resident with a null smart pointer
  (\<open>target\<close> is \<open>None\<close> there).
\<close>

fun alru_null :: "('v \<Rightarrow> 'w option) \<Rightarrow> ('k, 'v, 'w) lru_op \<Rightarrow> ('k \<times> 'v) list \<Rightarrow> bool" where
  "alru_null target (Op_get_copy_pointee k out) xs =
     (case map_of xs k of None \<Rightarrow> False | Some v \<Rightarrow> target v = None)"
| "alru_null target p xs = False"

fun alru_faults :: "('v \<Rightarrow> 'w option) \<Rightarrow> nat \<Rightarrow> ('k, 'v, 'w) lru_op list \<Rightarrow> ('k \<times> 'v) list \<Rightarrow> bool" where
  "alru_faults target cap [] xs = False"
| "alru_faults target cap (p # ps) xs =
     (alru_null target p xs \<or> alru_faults target cap ps (snd (alru_exec target cap p xs)))"

lemma alru_null_total [simp]: "\<not> alru_null (\<lambda>v. Some (f v)) p xs"
  by (cases p) (simp_all split: option.split)

lemma alru_faults_total [simp]: "\<not> alru_faults (\<lambda>v. Some (f v)) cap ps xs"
  by (induction ps arbitrary: xs) simp_all

section \<open>The contract and its clients\<close>

locale cache_contract =
  fixes target :: "'v \<Rightarrow> 'w option"
    and exec :: "('k, 'v, 'w) lru_op \<Rightarrow> 'c \<Rightarrow> (('v, 'w) lru_out \<times> 'c) option"
    and rel :: "'c \<Rightarrow> ('k \<times> 'v) list \<Rightarrow> bool"
    and cap :: "'c \<Rightarrow> nat"
  assumes exec_refines:
    "rel c xs \<Longrightarrow>
      if alru_null target p xs then exec p c = None
      else \<exists>c'. exec p c = Some (fst (alru_exec target (cap c) p xs), c') \<and>
        rel c' (snd (alru_exec target (cap c) p xs)) \<and> cap c' = cap c"
begin

lemma session_refines:
  "rel c xs \<Longrightarrow>
    if alru_faults target (cap c) ps xs then lru_session exec ps c = None
    else \<exists>c'. lru_session exec ps c = Some (fst (alru_session target (cap c) ps xs), c') \<and>
      rel c' (snd (alru_session target (cap c) ps xs)) \<and> cap c' = cap c"
proof (induction ps arbitrary: c xs)
  case Nil
  then show ?case by simp
next
  case (Cons p ps)
  show ?case
  proof (cases "alru_null target p xs")
    case True
    then show ?thesis using exec_refines [OF Cons.prems, of p] by simp
  next
    case False
    with exec_refines [OF Cons.prems, of p] obtain d where d:
      "exec p c = Some (fst (alru_exec target (cap c) p xs), d)"
      "rel d (snd (alru_exec target (cap c) p xs))" "cap d = cap c" by auto
    show ?thesis
      using Cons.IH [OF d(2)] d False
      by (cases "alru_faults target (cap c) ps (snd (alru_exec target (cap c) p xs))")
        (fastforce split: prod.splits)+
  qed
qed

end

lemma lru_exec_refines:
  assumes r: "lru_rel c xs"
  shows "if alru_null target p xs then lru_exec target p c = None
     else \<exists>c'. lru_exec target p c = Some (fst (alru_exec target (unat (capacity c)) p xs), c') \<and>
       lru_rel c' (snd (alru_exec target (unat (capacity c)) p xs)) \<and>
       unat (capacity c') = unat (capacity c)"
proof (cases p)
  case (Op_set k v)
  then show ?thesis using lru_set_rel [OF r, of k v] by auto
next
  case (Op_get k)
  show ?thesis
  proof (cases "map_of xs k")
    case None
    then show ?thesis using Op_get lru_get_rel [OF r, of k] r by simp
  next
    case (Some v)
    then obtain c' where c': "lru_get k c = Some (Some k, c')" "lru_rel c' (alru_touch k v xs)"
      "capacity c' = capacity c" using lru_get_rel [OF r, of k] by auto
    have "map_of (alru_touch k v xs) k = Some v" by (simp add: alru_touch_def)
    from lru_rel_deref [OF c'(2) this] obtain n where "deref c' k = Some n" "e_value n = v" by blast
    with Op_get Some c' show ?thesis by simp
  qed
next
  case (Op_get_store k w)
  show ?thesis
  proof (cases "map_of xs k")
    case None
    then show ?thesis using Op_get_store lru_get_rel [OF r, of k] r by simp
  next
    case (Some v)
    with Op_get_store lru_get_store_rel [OF r Some, of w] show ?thesis by auto
  qed
next
  case (Op_get_copy k out)
  then show ?thesis using lru_get_copy_rel [OF r, of k out] r by (auto split: option.splits)
next
  case (Op_get_move k out)
  then show ?thesis using lru_get_move_rel [OF r, of k out] r by (auto split: option.splits)
next
  case (Op_get_copy_pointee k out)
  then show ?thesis
    using lru_get_copy_pointee_rel [OF r, where target = target and k = k and out = out] r
    by (auto split: option.splits)
next
  case (Op_has_key k)
  then show ?thesis using lru_has_key_rel [OF r, of k] r by simp
next
  case (Op_erase k)
  then show ?thesis using lru_erase_rel [OF r, of k] by auto
next
  case Op_clear
  then show ?thesis using lru_clear_rel [of c] by simp
qed

interpretation lruc: cache_contract target "lru_exec target" lru_rel "\<lambda>c. unat (capacity c)" for target
  by unfold_locales (rule lru_exec_refines)

section \<open>What the abstract cache guarantees\<close>

lemma alru_session_Cons [simp]:
  "fst (alru_session target cap (p # ps) xs) =
     fst (alru_exec target cap p xs) # fst (alru_session target cap ps (snd (alru_exec target cap p xs)))"
  "snd (alru_session target cap (p # ps) xs) = snd (alru_session target cap ps (snd (alru_exec target cap p xs)))"
  by (simp_all add: case_prod_beta Let_def)

declare alru_session.simps(2) [simp del]

lemma length_alist_delete: "length (AList.delete k xs) \<le> length xs"
  by (simp add: AList.delete_eq)

lemma length_touch:
  "length (alru_touch k v xs) \<le> Suc (length xs)"
  "k \<in> fst ` set xs \<Longrightarrow> length (alru_touch k v xs) \<le> length xs"
proof -
  show "length (alru_touch k v xs) \<le> Suc (length xs)"
    by (simp add: alru_touch_def length_alist_delete)
  show "length (alru_touch k v xs) \<le> length xs" if "k \<in> fst ` set xs"
  proof -
    have "length (AList.delete k xs) = length (removeAll k (map fst xs))"
      by (metis length_map delete_keys)
    also have "\<dots> < length xs"
      using that length_removeAll_less [of k "map fst xs"] by simp
    finally show ?thesis by (simp add: alru_touch_def)
  qed
qed

lemma alru_set_bounded: "length xs \<le> cap \<Longrightarrow> length (alru_set cap k v xs) \<le> cap"
  using length_touch [where k = k and v = v and xs = xs]
  by (auto simp: alru_set_def Let_def intro: order_trans)

lemma touch_bounded: "\<lbrakk> map_of xs k = Some v; length xs \<le> cap \<rbrakk> \<Longrightarrow> length (alru_touch k w xs) \<le> cap"
  using length_touch(2) [where k = k and xs = xs and v = w] map_of_SomeD [of xs k v] by (force intro: order_trans)

lemma alru_exec_bounded:
  "length xs \<le> cap \<Longrightarrow> length (snd (alru_exec target cap p xs)) \<le> cap"
  by (cases p) (auto simp: alru_set_bounded touch_bounded intro: order_trans [OF length_alist_delete]
      split: option.splits)

lemma alru_session_bounded:
  "length xs \<le> cap \<Longrightarrow> length (snd (alru_session target cap ps xs)) \<le> cap"
  by (induction ps arbitrary: xs) (simp_all add: alru_exec_bounded)

text \<open>
  The keys resident after a session that only stores and looks up are the \<open>cap\<close> most recently
  used ones.  A use is a store or a successful lookup.
\<close>

fun used_key :: "('k, 'v, 'w) lru_op \<Rightarrow> ('v, 'w) lru_out \<Rightarrow> 'k list" where
  "used_key (Op_set k v) out = [k]"
| "used_key (Op_get k) (Answer_pointer p) = (if p = None then [] else [k])"
| "used_key (Op_get_store k v) (Answer b) = (if b then [k] else [])"
| "used_key (Op_get_copy k v) (Answer_value b w) = (if b then [k] else [])"
| "used_key (Op_get_copy_pointee k v) (Answer_pointee b w) = (if b then [k] else [])"
| "used_key p out = []"

definition used_keys :: "('k, 'v, 'w) lru_op list \<Rightarrow> ('v, 'w) lru_out list \<Rightarrow> 'k list" where
  "used_keys ps outs = concat (map2 used_key ps outs)"

definition recency :: "'k list \<Rightarrow> 'k list" where
  "recency us = rev (remdups us)"

fun store_or_lookup :: "('k, 'v, 'w) lru_op \<Rightarrow> bool" where
  "store_or_lookup (Op_set k v) \<longleftrightarrow> True"
| "store_or_lookup (Op_get k) \<longleftrightarrow> True"
| "store_or_lookup (Op_get_store k v) \<longleftrightarrow> True"
| "store_or_lookup (Op_get_copy k v) \<longleftrightarrow> True"
| "store_or_lookup (Op_get_copy_pointee k v) \<longleftrightarrow> True"
| "store_or_lookup (Op_has_key k) \<longleftrightarrow> True"
| "store_or_lookup p \<longleftrightarrow> False"

lemma remdups_snoc: "remdups (us @ [k]) = removeAll k (remdups us) @ [k]"
  by (induction us) auto

lemma recency_snoc: "recency (us @ [k]) = k # removeAll k (recency us)"
  by (simp add: recency_def remdups_snoc removeAll_filter_not_eq rev_filter)

lemma distinct_recency: "distinct (recency us)"
  by (simp add: recency_def)

text \<open>Moving an element of a distinct list to the front commutes with keeping the first \<open>n\<close>.\<close>

lemma take_move_front_hit:
  assumes "distinct xs" "k \<in> set (take n xs)"
  shows "take n (k # removeAll k xs) = k # removeAll k (take n xs)"
proof -
  obtain as bs where t: "take n xs = as @ k # bs" using assms(2) by (meson split_list)
  then have xs: "xs = (as @ k # bs) @ drop n xs" by (metis append_take_drop_id)
  have "distinct ((as @ k # bs) @ drop n xs)" using assms(1) xs by metis
  then have d: "k \<notin> set as" "k \<notin> set bs" "k \<notin> set (drop n xs)" by auto
  have n: "length (as @ k # bs) = min n (length xs)" using t by (metis length_take min.commute)
  have "removeAll k xs = as @ bs @ drop n xs"
    by (subst xs) (use d in simp)
  moreover have "take n (k # as @ bs @ drop n xs) = k # as @ bs"
    using n by (cases "n \<le> length xs") auto
  ultimately show ?thesis using t d by simp
qed

lemma take_move_front_miss:
  assumes "k \<notin> set (take n xs)" "0 < n"
  shows "take n (k # removeAll k xs) = k # take (n - 1) xs"
proof -
  have "take (n - 1) (removeAll k xs) = take (n - 1) xs"
    using assms
  proof (induction n arbitrary: xs)
    case (Suc n)
    then show ?case by (cases xs; cases n) auto
  qed simp
  with assms(2) show ?thesis by (cases n) auto
qed

lemma alru_set_keys:
  assumes "map fst xs = take cap (recency us)"
  shows "map fst (alru_set cap k v xs) = take cap (recency (us @ [k]))"
proof (cases "k \<in> fst ` set xs")
  case True
  then have k: "k \<in> set (take cap (recency us))" using assms by (metis list.set_map)
  show ?thesis
    using take_move_front_hit [OF distinct_recency k] True assms
    by (simp add: alru_set_def map_fst_touch recency_snoc)
next
  case False
  then have k: "k \<notin> set (take cap (recency us))" using assms by (metis list.set_map)
  have t: "alru_touch k v xs = (k, v) # xs" using False by (simp add: alru_touch_def)
  have len: "length xs = min (length (recency us)) cap"
    using assms by (metis length_map length_take)
  show ?thesis
  proof (cases "cap = 0")
    case True
    with len t False show ?thesis by (simp add: alru_set_def)
  next
    case pos: False
    show ?thesis
    proof (cases "cap \<le> length xs")
      case True
      then have "map fst (butlast ((k, v) # xs)) = k # take (cap - 1) (recency us)"
        using len pos assms by (auto simp: map_butlast butlast_take)
      then show ?thesis
        using True False t pos take_move_front_miss [OF k]
        by (simp add: alru_set_def recency_snoc)
    next
      case short: False
      then have "take (cap - 1) (recency us) = map fst xs" using len assms by simp
      then show ?thesis
        using short False t pos take_move_front_miss [OF k]
        by (simp add: alru_set_def recency_snoc)
    qed
  qed
qed

lemma touch_keys:
  assumes "map fst xs = take cap (recency us)" "map_of xs k = Some v"
  shows "map fst (alru_touch k w xs) = take cap (recency (us @ [k]))"
proof -
  have "k \<in> set (take cap (recency us))"
    using assms(1) map_of_SomeD [OF assms(2)] by (metis fst_conv image_eqI list.set_map)
  from take_move_front_hit [OF distinct_recency this] show ?thesis
    by (simp add: map_fst_touch recency_snoc assms(1))
qed

lemma alru_exec_keys:
  assumes "map fst xs = take cap (recency us)" "store_or_lookup p"
  shows "map fst (snd (alru_exec target cap p xs)) =
     take cap (recency (us @ used_key p (fst (alru_exec target cap p xs))))"
  using assms alru_set_keys [OF assms(1)] touch_keys [OF assms(1)]
  by (cases p) (auto split: option.split)

lemma alru_session_keys:
  "\<lbrakk> map fst xs = take cap (recency us); list_all store_or_lookup ps \<rbrakk> \<Longrightarrow>
     map fst (snd (alru_session target cap ps xs)) =
       take cap (recency (us @ used_keys ps (fst (alru_session target cap ps xs))))"
proof (induction ps arbitrary: xs us)
  case Nil
  then show ?case by (simp add: used_keys_def)
next
  case (Cons p ps)
  then show ?case
    using alru_exec_keys [of xs cap us p] by (simp add: used_keys_def)
qed

section \<open>Properties\<close>

text \<open>
  C2: any sequence of operations on a fresh \<open>LRUCache\<close> answers exactly like the list of pairs
  kept most recently used first, and leaves a well-linked cache that holds that list and never more
  entries than the stored capacity; its only undefined behaviour is that of a
  \<open>get_copy_pointee\<close> that finds the key with a null smart pointer, and it has it in every such
  session.
\<close>

theorem lru_cache_refines_list:
  "if alru_faults target (unat (ucast cap :: u32)) ps []
   then lru_session (lru_exec target) ps (LRUCache cap) = None
   else \<exists>c. lru_session (lru_exec target) ps (LRUCache cap)
        = Some (fst (alru_session target (unat (ucast cap :: u32)) ps []), c) \<and>
      lru_rel c (snd (alru_session target (unat (ucast cap :: u32)) ps [])) \<and>
      length (mem c) \<le> unat (ucast cap :: u32)"
proof -
  let ?a = "alru_session target (unat (ucast cap :: u32)) ps []"
  have cap: "capacity (LRUCache cap) = ucast cap" by (simp add: LRUCache_def)
  have "length (mem c) \<le> unat (ucast cap :: u32)" if "lru_rel c (snd ?a)" for c
    using lru_rel_length [OF that] alru_session_bounded [of "[]"] by simp
  then show ?thesis
    using lruc.session_refines [OF lru_rel_LRUCache [of cap], of target ps] unfolding cap
    by (auto split: if_splits)
qed

text \<open>A null pointer stored and then followed, and the same session without following it.\<close>

lemma lru_cache_refines_list_instances:
  "alru_faults (\<lambda>v. v) 4 [Op_set (1::nat) (None :: nat option), Op_get_copy_pointee 1 0] []"
  "\<not> alru_faults (\<lambda>v. v) 4 [Op_set (1::nat) (None :: nat option), Op_get_copy_pointee 2 0, Op_get 1] []"
  by code_simp+

text \<open>
  C18: least-recently-used eviction.  After a session of stores and lookups on a fresh cache, the
  keys on the recency list, from head to tail, are exactly the capacity-many most recently used
  keys, where a use is a store or a successful lookup; everything else has been evicted.
\<close>

theorem lru_keeps_most_recent:
  assumes "list_all store_or_lookup ps"
  shows "\<exists>outs c. lru_session (lru_exec (\<lambda>v. Some (f v))) ps (LRUCache cap) = Some (outs, c) \<and>
    lru_list c (take (unat (ucast cap :: u32)) (recency (used_keys ps outs))) \<and>
    keys c = set (take (unat (ucast cap :: u32)) (recency (used_keys ps outs)))"
proof -
  let ?a = "alru_session (\<lambda>v. Some (f v)) (unat (ucast cap :: u32)) ps []"
  have cap: "capacity (LRUCache cap) = ucast cap" by (simp add: LRUCache_def)
  obtain c where c: "lru_session (lru_exec (\<lambda>v. Some (f v))) ps (LRUCache cap) = Some (fst ?a, c)"
      "lru_rel c (snd ?a)"
    using lruc.session_refines [OF lru_rel_LRUCache [of cap], of "\<lambda>v. Some (f v)" ps] unfolding cap
    by auto
  have "map fst (snd ?a) = take (unat (ucast cap :: u32)) (recency (used_keys ps (fst ?a)))"
    using alru_session_keys [of "[]" _ "[]" ps] assms by (simp add: recency_def)
  then show ?thesis
    using c lru_rel_keys [OF c(2)] by (auto simp: lru_rel_def simp flip: set_map)
qed

theorem lru_keeps_most_recent_witness:
  "\<exists>outs c. lru_session (lru_exec (\<lambda>v. Some v))
      [Op_set (1::nat) (10::nat), Op_set 2 20, Op_get_copy 1 0, Op_set 3 30] (LRUCache 2)
      = Some (outs, c) \<and> keys c = {3, 1}"
proof -
  let ?ps = "[Op_set 1 10, Op_set 2 20, Op_get_copy 1 0, Op_set 3 30] :: (nat, nat, nat) lru_op list"
  have d: "list_all store_or_lookup ?ps" by simp
  from lru_keeps_most_recent [OF d, of "\<lambda>v. v" 2] obtain outs c where
    c: "lru_session (lru_exec (\<lambda>v. Some v)) ?ps (LRUCache 2) = Some (outs, c)"
      "keys c = set (take (unat (ucast (2::u64) :: u32)) (recency (used_keys ?ps outs)))"
    by blast
  have "fst (the (lru_session (lru_exec (\<lambda>v. Some v)) ?ps (LRUCache 2)))
      = [Done, Done, Answer_value True 10, Done]"
    by code_simp
  then have "outs = [Done, Done, Answer_value True 10, Done]"
    unfolding c(1) by (simp only: option.sel fst_conv)
  moreover have "take 2 (recency (used_keys ?ps [Done, Done, Answer_value True 10, Done])) = [3, 1]"
    by code_simp
  ultimately have "keys c = {3, 1}" using c(2) by simp
  with c(1) show ?thesis by blast
qed

text \<open>
  The constructor narrows the requested \<open>size_t\<close> capacity to 32 bits, so a cache asked to
  hold \<open>2 ^ 32\<close> entries holds none: whatever is stored is evicted at once.
\<close>

lemma lru_capacity_truncated:
  "\<exists>c. lru_set k v (LRUCache (2 ^ 32) :: ('k, 'v) lru_cache) = Some c \<and> \<not> lru_has_key k c \<and> mem c = []"
proof -
  have cap: "unat (capacity (LRUCache (2 ^ 32) :: ('k, 'v) lru_cache)) = 0"
    by (simp add: LRUCache_def)
  obtain c where c: "lru_set k v (LRUCache (2 ^ 32) :: ('k, 'v) lru_cache) = Some c"
      "lru_rel c (alru_set 0 k v [])"
    using lru_set_rel [OF lru_rel_LRUCache [of "2 ^ 32"], of k v] unfolding cap by blast
  moreover have "alru_set 0 k v [] = []" by (simp add: alru_set_def alru_touch_def)
  ultimately show ?thesis
    using lru_rel_length [of c "[]"] lru_has_key_rel [of c "[]" k] by auto
qed

text \<open>
  On a linked cache, \<open>get_move\<close> hands the stored value out and removes the key: it answers
  with the value last stored, the key is gone afterwards, every other key keeps its value, and a
  second \<open>get_move\<close> answers \<open>false\<close> and leaves \<open>*out_value\<close> alone.
\<close>

lemma lru_get_move_moves_out:
  assumes "lru_rel c xs" "map_of xs k = Some v"
  shows "\<exists>c'. lru_get_move k out c = Some (True, v, c') \<and> \<not> lru_has_key k c' \<and>
    vals c' = (vals c)(k := None) \<and> lru_get_move k out' c' = Some (False, out', c')"
proof -
  obtain c' where c': "lru_get_move k out c = Some (True, v, c')" "lru_rel c' (AList.delete k xs)"
    using lru_get_move_rel [OF assms(1), of k out] assms(2) by auto
  moreover have "vals c' = (vals c)(k := None)"
    using c'(2) assms(1) by (simp add: lru_rel_def)
  moreover have "\<not> lru_has_key k c'" using lru_has_key_rel [OF c'(2), of k] by simp
  ultimately show ?thesis using lru_get_move_rel [OF c'(2), of k out'] by simp
qed

lemma lru_get_move_moves_out_instance:
  "\<exists>c. lru_set (7::nat) (70::nat) (LRUCache 1) = Some c \<and>
     (\<exists>c'. lru_get_move 7 0 c = Some (True, 70, c') \<and> \<not> lru_has_key 7 c')"
proof -
  have "unat (capacity (LRUCache 1 :: (nat, nat) lru_cache)) = 1" by (simp add: LRUCache_def)
  then obtain c where c: "lru_set (7::nat) (70::nat) (LRUCache 1) = Some c"
      "lru_rel c (alru_set 1 7 70 [])"
    using lru_set_rel [OF lru_rel_LRUCache [of 1], of "7::nat" "70::nat"] by auto
  have "map_of (alru_set 1 7 70 [] :: (nat \<times> nat) list) 7 = Some 70"
    by (simp add: alru_set_def alru_touch_def)
  from lru_get_move_moves_out [OF c(2) this, of 0 0] c(1) show ?thesis by blast
qed

end
