(* ===== verification/Blocking_Lru.thy ===== *)
theory Blocking_Lru
  imports Lru_Sessions
begin

text \<open>
  \<open>BlockingLRUCache\<close> of \<^verbatim>\<open>util/lru_cache.h\<close> under any number of threads.  Every member
  function is \<open>std::lock_guard<Mutex> lock(mtx)\<close> followed by the member of \<open>unsynced_cache\<close>;
  its three atomic sections are taking the mutex, running the operation and releasing the mutex
  when the guard goes out of scope.  \<open>mtx\<close> is the thread that holds the mutex, \<open>bpcs\<close> where
  each thread stands, and \<open>served\<close> a history of the answered calls, in the order in which the
  bodies ran.
\<close>

datatype ('k, 'v, 'w) bpc =
    B_outside
  | B_guarded "('k, 'v, 'w) lru_op"
  | B_leaving "('v, 'w) lru_out"

record ('k, 'v, 'w) blocking_lru =
  unsynced_cache :: "('k, 'v) lru_cache"
  mtx :: "tid option"
  bpcs :: "tid \<Rightarrow> ('k, 'v, 'w) bpc"
  served :: "(('k, 'v, 'w) lru_op \<times> ('v, 'w) lru_out) list"

datatype ('k, 'v, 'w) bevent =
    B_lock tid "('k, 'v, 'w) lru_op"
  | B_body tid
  | B_unlock tid

definition BlockingLRUCache :: "u64 \<Rightarrow> ('k, 'v, 'w) blocking_lru" where
  "BlockingLRUCache cap =
     \<lparr>unsynced_cache = LRUCache cap, mtx = None, bpcs = (\<lambda>_. B_outside), served = []\<rparr>"

text \<open>The wrapper has neither \<open>get\<close>, whose pointer would outlive the lock, nor \<open>has_key\<close>.\<close>

fun blocking_member :: "('k, 'v, 'w) lru_op \<Rightarrow> bool" where
  "blocking_member (Op_get k) = False"
| "blocking_member (Op_get_store k v) = False"
| "blocking_member (Op_has_key k) = False"
| "blocking_member _ = True"

fun blocking_step :: "('v \<Rightarrow> 'w option) \<Rightarrow> ('k, 'v, 'w) bevent \<Rightarrow> ('k, 'v, 'w) blocking_lru \<Rightarrow>
    ('k, 'v, 'w) blocking_lru option" where
  "blocking_step target (B_lock t p) s =
     (if blocking_member p \<and> bpcs s t = B_outside \<and> mtx s = None
      then Some (s\<lparr>mtx := Some t, bpcs := (bpcs s)(t := B_guarded p)\<rparr>) else None)"
| "blocking_step target (B_body t) s =
     (case bpcs s t of
        B_guarded p \<Rightarrow> (case lru_exec target p (unsynced_cache s) of
            None \<Rightarrow> None
          | Some (out, c) \<Rightarrow> Some (s\<lparr>unsynced_cache := c, bpcs := (bpcs s)(t := B_leaving out),
                served := served s @ [(p, out)]\<rparr>))
      | _ \<Rightarrow> None)"
| "blocking_step target (B_unlock t) s =
     (case bpcs s t of
        B_leaving out \<Rightarrow> Some (s\<lparr>mtx := None, bpcs := (bpcs s)(t := B_outside)\<rparr>)
      | _ \<Rightarrow> None)"

text \<open>Exactly the thread that owns the mutex is inside a member function.\<close>

definition one_inside :: "('k, 'v, 'w) blocking_lru \<Rightarrow> bool" where
  "one_inside s \<longleftrightarrow> (\<forall>t. bpcs s t \<noteq> B_outside \<longleftrightarrow> mtx s = Some t)"

text \<open>The history is a sequential session of the cache.\<close>

definition sequential :: "('v \<Rightarrow> 'w option) \<Rightarrow> u64 \<Rightarrow> ('k, 'v, 'w) blocking_lru \<Rightarrow> bool" where
  "sequential target cap s \<longleftrightarrow>
     lru_session (lru_exec target) (map fst (served s)) (LRUCache cap)
       = Some (map snd (served s), unsynced_cache s)"

definition blocking_inv :: "('v \<Rightarrow> 'w option) \<Rightarrow> u64 \<Rightarrow> ('k, 'v, 'w) blocking_lru \<Rightarrow> bool" where
  "blocking_inv target cap s \<longleftrightarrow> one_inside s \<and> sequential target cap s"

lemma blocking_inv_init: "blocking_inv target cap (BlockingLRUCache cap)"
  by (simp add: blocking_inv_def one_inside_def sequential_def BlockingLRUCache_def)

lemma lru_session_snoc:
  assumes "lru_session exec ps c = Some (outs, d)" "exec p d = Some (out, e)"
  shows "lru_session exec (ps @ [p]) c = Some (outs @ [out], e)"
  using assms by (induction ps arbitrary: c outs) (auto split: prod.splits)

lemma one_inside_step:
  assumes "one_inside s" "blocking_step target ev s = Some s'"
  shows "one_inside s'"
  using assms unfolding one_inside_def
  by (cases ev) (force split: if_splits bpc.splits option.splits)+

lemma sequential_step:
  assumes "sequential target cap s" "blocking_step target ev s = Some s'"
  shows "sequential target cap s'"
proof (cases ev)
  case (B_body t)
  then obtain p out c where "lru_exec target p (unsynced_cache s) = Some (out, c)"
    "s' = s\<lparr>unsynced_cache := c, bpcs := (bpcs s)(t := B_leaving out), served := served s @ [(p, out)]\<rparr>"
    using assms(2) by (auto split: bpc.splits option.splits)
  then show ?thesis
    using assms(1) unfolding sequential_def by (simp add: lru_session_snoc)
qed (use assms in \<open>auto simp: sequential_def split: if_splits bpc.splits\<close>)

lemma blocking_step_inv:
  "\<lbrakk> blocking_inv target cap s; blocking_step target ev s = Some s' \<rbrakk> \<Longrightarrow> blocking_inv target cap s'"
  unfolding blocking_inv_def by (blast intro: one_inside_step sequential_step)

interpretation blru: inv_system "blocking_step target" "blocking_inv target cap" for target cap
  by unfold_locales (rule blocking_step_inv)

text \<open>A guarded body always runs to its end: the cache behind the mutex is never corrupted.\<close>

lemma blocking_body_enabled:
  assumes "blocking_inv (\<lambda>v. Some (f v)) cap s" "bpcs s t = B_guarded p"
  shows "\<exists>s'. blocking_step (\<lambda>v. Some (f v)) (B_body t) s = Some s'"
proof -
  have "\<exists>xs. lru_rel (unsynced_cache s) xs"
    using lruc.session_refines [OF lru_rel_LRUCache [of cap], where target = "\<lambda>v. Some (f v)" and ps = "map fst (served s)"] assms(1)
    by (auto simp: blocking_inv_def sequential_def)
  then obtain xs where "lru_rel (unsynced_cache s) xs" by blast
  from lruc.exec_refines [OF this, of "\<lambda>v. Some (f v)" p] obtain c
    where "lru_exec (\<lambda>v. Some (f v)) p (unsynced_cache s) = Some c" by auto
  then show ?thesis using assms(2) by (cases c) simp
qed

section \<open>Properties\<close>

text \<open>
  C17: \<open>BlockingLRUCache\<close> is linearizable.  In every schedule of any number of threads, at most
  one thread is inside a member function, every call that holds the mutex can run its body, and the
  answers given so far are those of the sequential abstract cache for the calls in the order in
  which their bodies ran.  Where \<open>get_copy_pointee\<close> is used, the stored pointers are not null.
\<close>

theorem blocking_lru_linearizable:
  assumes "runs (blocking_step (\<lambda>v. Some (f v))) es (BlockingLRUCache cap) = Some s"
  shows "map snd (served s) =
      fst (alru_session (\<lambda>v. Some (f v)) (unat (ucast cap :: u32)) (map fst (served s)) []) \<and>
    (\<forall>t u. bpcs s t \<noteq> B_outside \<and> bpcs s u \<noteq> B_outside \<longrightarrow> t = u) \<and>
    (\<forall>t p. bpcs s t = B_guarded p \<longrightarrow>
      (\<exists>s'. blocking_step (\<lambda>v. Some (f v)) (B_body t) s = Some s'))"
proof -
  have inv: "blocking_inv (\<lambda>v. Some (f v)) cap s"
    using blru.runs_inv [OF blocking_inv_init assms] .
  have "map snd (served s) =
      fst (alru_session (\<lambda>v. Some (f v)) (unat (ucast cap :: u32)) (map fst (served s)) [])"
    using lruc.session_refines [OF lru_rel_LRUCache [of cap], where target = "\<lambda>v. Some (f v)" and ps = "map fst (served s)"] inv
    by (auto simp: blocking_inv_def sequential_def LRUCache_def)
  moreover have "\<forall>t u. bpcs s t \<noteq> B_outside \<and> bpcs s u \<noteq> B_outside \<longrightarrow> t = u"
    using inv by (auto simp: blocking_inv_def one_inside_def)
  ultimately show ?thesis using blocking_body_enabled [OF inv] by blast
qed

theorem blocking_lru_linearizable_witness:
  "\<exists>s. runs (blocking_step (\<lambda>v. Some v))
      [B_lock 0 (Op_set (1::nat) (5::nat)), B_body 0, B_unlock 0, B_lock 1 (Op_get_copy 1 0), B_body 1]
      (BlockingLRUCache 4) = Some s \<and>
    map snd (served s) = fst (alru_session (\<lambda>v. Some v) 4 (map fst (served s)) [])"
proof -
  let ?es = "[B_lock 0 (Op_set (1::nat) (5::nat)), B_body 0, B_unlock 0, B_lock 1 (Op_get_copy 1 0), B_body 1]"
  have "runs (blocking_step (\<lambda>v. Some v)) ?es (BlockingLRUCache 4) \<noteq> None" by code_simp
  then obtain s where s: "runs (blocking_step (\<lambda>v. Some v)) ?es (BlockingLRUCache 4) = Some s" by auto
  from blocking_lru_linearizable [OF s]
  have "map snd (served s) = fst (alru_session (\<lambda>v. Some v) 4 (map fst (served s)) [])" by simp
  with s show ?thesis by blast
qed

end
