(* ===== verification/Wait_Queue.thy ===== *)
theory Wait_Queue
  imports Linked_List Event_System
begin

text \<open>
  \<open>QueuedSemaphore::WaitNode\<close> and \<open>QueuedSemaphore::WaitQueue\<close> of
  \<^verbatim>\<open>concurrency/semaphore.h\<close>: a doubly linked queue of wait nodes with a cache of
  allocated nodes.  Nodes live in a heap (\<open>nodes\<close>), addresses are numbers handed out by
  \<open>new\<close> in increasing order (\<open>fresh\<close>); they are only compared, so any allocator behaves
  alike.  The condition variable of a node has no state of its own in the model: a thread that waits
  on it may go on exactly when the node is \<open>wakeable\<close>, which is the predicate of the wait.
  Operations are in the option monad, \<open>None\<close> being the dereference of a null, freed or never
  allocated node.  The second half shows that they implement a queue of nodes.
\<close>

section \<open>State\<close>

type_synonym ptr = nat

record wait_node =
  wakeable :: bool
  n_prev :: "ptr option"
  n_next :: "ptr option"

record wait_queue =
  nodes :: "ptr \<Rightarrow> wait_node option"
  fresh :: ptr
  q_head :: "ptr option"
  q_tail :: "ptr option"
  cache_head :: "ptr option"
  cur_queue_capacity :: nat

definition wq_store :: "ptr \<Rightarrow> (wait_node \<Rightarrow> wait_node) \<Rightarrow> wait_queue \<Rightarrow> wait_queue option" where
  "wq_store p f q = (case nodes q p of None \<Rightarrow> None
     | Some n \<Rightarrow> Some (q\<lparr>nodes := (nodes q)(p \<mapsto> f n)\<rparr>))"

section \<open>Operations\<close>

fun alloc_nodes :: "nat \<Rightarrow> wait_queue \<Rightarrow> wait_queue" where
  "alloc_nodes 0 q = q"
| "alloc_nodes (Suc i) q = alloc_nodes i
     (q\<lparr>nodes := (nodes q)(fresh q \<mapsto> \<lparr>wakeable = False, n_prev = None, n_next = cache_head q\<rparr>),
        fresh := Suc (fresh q), cache_head := Some (fresh q)\<rparr>)"

definition alloc_cache :: "wait_queue \<Rightarrow> wait_queue" where
  "alloc_cache q = alloc_nodes (cur_queue_capacity q) q"

definition WaitQueue :: wait_queue where
  "WaitQueue = alloc_cache \<lparr>nodes = Map.empty, fresh = 0, q_head = None, q_tail = None,
     cache_head = None, cur_queue_capacity = 256\<rparr>"

definition enqueue :: "wait_queue \<Rightarrow> (ptr \<times> wait_queue) option" where
  "enqueue q = do {
     q \<leftarrow> Some (if cache_head q = None
               then (alloc_cache q)\<lparr>cur_queue_capacity := 2 * cur_queue_capacity q\<rparr> else q);
     cur \<leftarrow> cache_head q;
     n \<leftarrow> nodes q cur;
     q \<leftarrow> Some (q\<lparr>cache_head := n_next n\<rparr>);
     q \<leftarrow> wq_store cur (wakeable_update (\<lambda>_. False)) q;
     q \<leftarrow> wq_store cur (n_next_update (\<lambda>_. None)) q;
     q \<leftarrow> (case q_tail q of
             None \<Rightarrow> Some (q\<lparr>q_head := Some cur, q_tail := Some cur\<rparr>)
           | Some t \<Rightarrow> do {
               q \<leftarrow> wq_store t (n_next_update (\<lambda>_. Some cur)) q;
               q \<leftarrow> wq_store cur (n_prev_update (\<lambda>_. Some t)) q;
               Some (q\<lparr>q_tail := Some cur\<rparr>) });
     Some (cur, q) }"

text \<open>
  The head and tail pointers in \<open>remove\<close>: the special case of the last node, then the head,
  then the tail.  \<open>n\<close> is the contents of the node being removed.
\<close>

definition adjust_ends :: "ptr \<Rightarrow> wait_node \<Rightarrow> wait_queue \<Rightarrow> wait_queue" where
  "adjust_ends p n q =
     (let q = (if Some p = q_head q \<and> q_head q = q_tail q
               then q\<lparr>q_head := None, q_tail := None\<rparr> else q);
          q = (if Some p = q_head q then q\<lparr>q_head := n_next n\<rparr> else q);
          q = (if Some p = q_tail q then q\<lparr>q_tail := n_prev n\<rparr> else q)
      in q)"

definition remove :: "ptr option \<Rightarrow> wait_queue \<Rightarrow> wait_queue option" where
  "remove node q =
     (case node of
        None \<Rightarrow> Some q
      | Some p \<Rightarrow> do {
          n \<leftarrow> nodes q p;
          q \<leftarrow> Some (adjust_ends p n q);
          q \<leftarrow> (case n_prev n of None \<Rightarrow> Some q
                | Some a \<Rightarrow> wq_store a (n_next_update (\<lambda>_. n_next n)) q);
          n \<leftarrow> nodes q p;
          q \<leftarrow> (case n_next n of None \<Rightarrow> Some q
                | Some b \<Rightarrow> wq_store b (n_prev_update (\<lambda>_. n_prev n)) q);
          q \<leftarrow> wq_store p (n_prev_update (\<lambda>_. None)) q;
          q \<leftarrow> wq_store p (n_next_update (\<lambda>_. cache_head q)) q;
          Some (q\<lparr>cache_head := node\<rparr>) })"

definition dequeue :: "wait_queue \<Rightarrow> wait_queue option" where
  "dequeue q = remove (q_head q) q"

definition wake_head :: "wait_queue \<Rightarrow> wait_queue option" where
  "wake_head q = (case q_head q of None \<Rightarrow> Some q
     | Some h \<Rightarrow> wq_store h (wakeable_update (\<lambda>_. True)) q)"

definition is_empty :: "wait_queue \<Rightarrow> bool" where
  "is_empty q \<longleftrightarrow> q_head q = None"

text \<open>The counting loop; \<open>None\<close> would be an endless or dangling chain.\<close>

partial_function (option) count_nodes :: "wait_queue \<Rightarrow> ptr option \<Rightarrow> u32 \<Rightarrow> u32 option" where
  "count_nodes q p ctr =
     (case p of None \<Rightarrow> Some ctr
      | Some a \<Rightarrow> (case nodes q a of None \<Rightarrow> None
         | Some n \<Rightarrow> count_nodes q (n_next n) (ctr + 1)))"

definition num_waiting_nodes :: "wait_queue \<Rightarrow> u32 option" where
  "num_waiting_nodes q = (if q_head q = None then Some 0 else count_nodes q (q_head q) 0)"

text \<open>The destructor frees the queued and then the cached nodes; freeing a node twice is \<open>None\<close>.\<close>

partial_function (option) delete_chain :: "ptr option \<Rightarrow> (ptr \<Rightarrow> wait_node option) \<Rightarrow> (ptr \<Rightarrow> wait_node option) option" where
  "delete_chain p ns =
     (case p of None \<Rightarrow> Some ns
      | Some a \<Rightarrow> (case ns a of None \<Rightarrow> None
         | Some n \<Rightarrow> delete_chain (n_next n) (ns(a := None))))"

definition WaitQueue_destroy :: "wait_queue \<Rightarrow> wait_queue option" where
  "WaitQueue_destroy q = do {
     ns \<leftarrow> delete_chain (q_head q) (nodes q);
     ns \<leftarrow> delete_chain (cache_head q) ns;
     Some (q\<lparr>nodes := ns, q_head := None, cache_head := None\<rparr>) }"

section \<open>The heap as pointer maps\<close>

definition nexts :: "wait_queue \<Rightarrow> ptr \<Rightarrow> ptr option" where
  "nexts q p = Option.bind (nodes q p) n_next"

definition prevs :: "wait_queue \<Rightarrow> ptr \<Rightarrow> ptr option" where
  "prevs q p = Option.bind (nodes q p) n_prev"

definition wakes :: "wait_queue \<Rightarrow> ptr \<Rightarrow> bool" where
  "wakes q p \<longleftrightarrow> (case nodes q p of None \<Rightarrow> False | Some n \<Rightarrow> wakeable n)"

text \<open>What the pointer writes leave alone.\<close>

definition same_heap :: "wait_queue \<Rightarrow> wait_queue \<Rightarrow> bool" where
  "same_heap q q' \<longleftrightarrow> dom (nodes q') = dom (nodes q) \<and> fresh q' = fresh q \<and>
     cur_queue_capacity q' = cur_queue_capacity q"

lemma same_heap_refl [simp]: "same_heap q q"
  by (simp add: same_heap_def)

lemma same_heap_trans: "\<lbrakk> same_heap p q; same_heap q r \<rbrakk> \<Longrightarrow> same_heap p r"
  by (simp add: same_heap_def)

definition ends :: "wait_queue \<Rightarrow> ptr option \<times> ptr option \<times> ptr option" where
  "ends q = (q_head q, q_tail q, cache_head q)"

lemma store_next:
  assumes "p \<in> dom (nodes q)"
  obtains q' where "wq_store p (n_next_update (\<lambda>_. v)) q = Some q'" "same_heap q q'"
    "nexts q' = (nexts q)(p := v)" "prevs q' = prevs q" "wakes q' = wakes q" "ends q' = ends q"
proof -
  obtain n where n: "nodes q p = Some n" using assms by blast
  show ?thesis
    by (rule that [of "q\<lparr>nodes := (nodes q)(p \<mapsto> n\<lparr>n_next := v\<rparr>)\<rparr>"])
      (use n in \<open>auto simp: wq_store_def same_heap_def nexts_def prevs_def wakes_def ends_def fun_eq_iff\<close>)
qed

lemma store_prev:
  assumes "p \<in> dom (nodes q)"
  obtains q' where "wq_store p (n_prev_update (\<lambda>_. v)) q = Some q'" "same_heap q q'"
    "prevs q' = (prevs q)(p := v)" "nexts q' = nexts q" "wakes q' = wakes q" "ends q' = ends q"
proof -
  obtain n where n: "nodes q p = Some n" using assms by blast
  show ?thesis
    by (rule that [of "q\<lparr>nodes := (nodes q)(p \<mapsto> n\<lparr>n_prev := v\<rparr>)\<rparr>"])
      (use n in \<open>auto simp: wq_store_def same_heap_def nexts_def prevs_def wakes_def ends_def fun_eq_iff\<close>)
qed

lemma store_wakeable:
  assumes "p \<in> dom (nodes q)"
  obtains q' where "wq_store p (wakeable_update (\<lambda>_. b)) q = Some q'" "same_heap q q'"
    "wakes q' = (wakes q)(p := b)" "nexts q' = nexts q" "prevs q' = prevs q" "ends q' = ends q"
proof -
  obtain n where n: "nodes q p = Some n" using assms by blast
  show ?thesis
    by (rule that [of "q\<lparr>nodes := (nodes q)(p \<mapsto> n\<lparr>wakeable := b\<rparr>)\<rparr>"])
      (use n in \<open>auto simp: wq_store_def same_heap_def nexts_def prevs_def wakes_def ends_def fun_eq_iff\<close>)
qed

lemma node_at:
  assumes "p \<in> dom (nodes q)"
  obtains n where "nodes q p = Some n" "n_next n = nexts q p" "n_prev n = prevs q p"
    "wakeable n = wakes q p"
  using assms that by (auto simp: nexts_def prevs_def wakes_def)

lemma ends_update [simp]:
  "nexts (q_head_update f q) = nexts q" "nexts (q_tail_update f q) = nexts q"
  "nexts (cache_head_update f q) = nexts q" "nexts (cur_queue_capacity_update g q) = nexts q"
  "prevs (q_head_update f q) = prevs q" "prevs (q_tail_update f q) = prevs q"
  "prevs (cache_head_update f q) = prevs q" "prevs (cur_queue_capacity_update g q) = prevs q"
  "wakes (q_head_update f q) = wakes q" "wakes (q_tail_update f q) = wakes q"
  "wakes (cache_head_update f q) = wakes q" "wakes (cur_queue_capacity_update g q) = wakes q"
  by (simp_all add: nexts_def prevs_def wakes_def fun_eq_iff)

section \<open>The invariant\<close>

text \<open>
  \<open>wq_inv q xs cs\<close>: the queue is the doubly linked list \<open>xs\<close>, the cache the chain \<open>cs\<close>,
  the two are disjoint and hold every allocated node, cached nodes have no predecessor (the
  \<open>already guaranteed\<close> of the comment in \<open>enqueue\<close>), and \<open>cur_queue_capacity\<close> counts all nodes.
\<close>

definition wq_inv :: "wait_queue \<Rightarrow> ptr list \<Rightarrow> ptr list \<Rightarrow> bool" where
  "wq_inv q xs cs \<longleftrightarrow>
     dll (nexts q) (prevs q) (q_head q) (q_tail q) xs \<and> chain (nexts q) (cache_head q) cs \<and>
     distinct (xs @ cs) \<and> dom (nodes q) = set (xs @ cs) \<and> (\<forall>p \<in> set cs. prevs q p = None) \<and>
     length xs + length cs = cur_queue_capacity q \<and> 0 < cur_queue_capacity q \<and>
     (\<forall>p \<in> set (xs @ cs). p < fresh q)"

section \<open>Allocation\<close>

lemma alloc_nodes_frame [simp]:
  "q_head (alloc_nodes n q) = q_head q" "q_tail (alloc_nodes n q) = q_tail q"
  "cur_queue_capacity (alloc_nodes n q) = cur_queue_capacity q"
  "fresh (alloc_nodes n q) = fresh q + n"
  by (induction n arbitrary: q) auto

lemma alloc_nodes_old:
  "p < fresh q \<or> fresh q + n \<le> p \<Longrightarrow> nodes (alloc_nodes n q) p = nodes q p"
  by (induction n arbitrary: q) auto

lemma alloc_nodes_new:
  "\<lbrakk> fresh q \<le> p; p < fresh q + n \<rbrakk> \<Longrightarrow>
     \<exists>v. nodes (alloc_nodes n q) p = Some \<lparr>wakeable = False, n_prev = None, n_next = v\<rparr>"
proof (induction n arbitrary: q)
  case (Suc n)
  show ?case
  proof (cases "p = fresh q")
    case True
    then show ?thesis by (simp add: alloc_nodes_old)
  next
    case False
    with Suc show ?thesis by simp
  qed
qed simp

lemma alloc_nodes_chain:
  assumes "chain (nexts q) (cache_head q) cs" "\<forall>c \<in> set cs. c < fresh q"
  shows "chain (nexts (alloc_nodes n q)) (cache_head (alloc_nodes n q))
     (rev [fresh q..<fresh q + n] @ cs)"
  using assms
proof (induction n arbitrary: q cs)
  case (Suc n)
  let ?q = "q\<lparr>nodes := (nodes q)(fresh q \<mapsto> \<lparr>wakeable = False, n_prev = None, n_next = cache_head q\<rparr>),
     fresh := Suc (fresh q), cache_head := Some (fresh q)\<rparr>"
  have "nexts ?q p = nexts q p" if "p \<in> set cs" for p
    using that Suc.prems(2) by (auto simp: nexts_def)
  with Suc.prems(1) have "chain (nexts ?q) (cache_head q) cs"
    using chain_cong [of cs "nexts ?q" "nexts q" "cache_head q"] by simp
  then have "chain (nexts ?q) (cache_head ?q) (fresh q # cs)" by (simp add: nexts_def)
  then have "chain (nexts (alloc_nodes n ?q)) (cache_head (alloc_nodes n ?q))
      (rev [fresh ?q..<fresh ?q + n] @ fresh q # cs)"
    using Suc.prems(2) by (intro Suc.IH) auto
  moreover have "rev [fresh ?q..<fresh ?q + n] @ fresh q # cs = rev [fresh q..<fresh q + Suc n] @ cs"
    by (simp add: upt_conv_Cons del: upt_Suc)
  ultimately show ?case by (simp only: alloc_nodes.simps)
qed simp

text \<open>Allocating \<open>n\<close> nodes: the queue stays, the new nodes come first in the cache.\<close>

lemma alloc_nodes_spec:
  assumes d: "dll (nexts q) (prevs q) (q_head q) (q_tail q) xs"
    and c: "chain (nexts q) (cache_head q) cs" "\<forall>p \<in> set cs. prevs q p = None"
    and dis: "distinct (xs @ cs)" and dm: "dom (nodes q) = set (xs @ cs)"
    and f: "\<forall>p \<in> set (xs @ cs). p < fresh q"
    and len: "length xs + length cs + n = k" "0 < k"
  shows "wq_inv ((alloc_nodes n q)\<lparr>cur_queue_capacity := k\<rparr>) xs (rev [fresh q..<fresh q + n] @ cs)"
    and "wakes (alloc_nodes n q) = wakes q"
proof -
  let ?q = "alloc_nodes n q"
  have old: "p < fresh q" if "p \<in> set (xs @ cs)" for p using that f by blast
  have unused: "nodes q p = None" if "fresh q \<le> p" for p
    using that old dm by (metis domIff not_le)
  have same: "nexts ?q p = nexts q p" "prevs ?q p = prevs q p" if "p \<in> set (xs @ cs)" for p
    using old [OF that] by (simp_all add: nexts_def prevs_def alloc_nodes_old)
  have new: "\<exists>v. nodes ?q p = Some \<lparr>wakeable = False, n_prev = None, n_next = v\<rparr>"
    if "p \<in> set [fresh q..<fresh q + n]" for p using that by (intro alloc_nodes_new) auto
  have "dom (nodes ?q) = set [fresh q..<fresh q + n] \<union> dom (nodes q)"
  proof (intro set_eqI iffI)
    fix p assume "p \<in> dom (nodes ?q)"
    then show "p \<in> set [fresh q..<fresh q + n] \<union> dom (nodes q)"
      using alloc_nodes_old [of p q n] by (cases "p < fresh q \<or> fresh q + n \<le> p") auto
  next
    fix p assume "p \<in> set [fresh q..<fresh q + n] \<union> dom (nodes q)"
    then show "p \<in> dom (nodes ?q)"
      using new [of p] old dm alloc_nodes_old [of p q n]
      by (cases "p < fresh q \<or> fresh q + n \<le> p") (auto simp: domIff)
  qed
  moreover have "dll (nexts ?q) (prevs ?q) (q_head q) (q_tail q) xs"
    using d same by (subst dll_cong [of xs _ "nexts q" _ "prevs q"]) auto
  moreover have "chain (nexts ?q) (cache_head ?q) (rev [fresh q..<fresh q + n] @ cs)"
    using c old by (intro alloc_nodes_chain) auto
  moreover have "prevs ?q p = None" if "p \<in> set (rev [fresh q..<fresh q + n] @ cs)" for p
    using that new [of p] c(2) same(2) [of p] by (auto simp: prevs_def)
  moreover have "set (xs @ cs) \<inter> set [fresh q..<fresh q + n] = {}" using old by force
  moreover have "p < fresh q + n" if "p \<in> set (xs @ rev [fresh q..<fresh q + n] @ cs)" for p
    using that old [of p] by auto
  ultimately show "wq_inv (?q\<lparr>cur_queue_capacity := k\<rparr>) xs (rev [fresh q..<fresh q + n] @ cs)"
    using dis dm len unfolding wq_inv_def by (auto simp: Int_Un_distrib)
  show "wakes ?q = wakes q"
  proof
    fix p show "wakes ?q p = wakes q p"
      using alloc_nodes_new [of q p n] alloc_nodes_old [of p q n] unused [of p]
      by (cases "p < fresh q \<or> fresh q + n \<le> p") (auto simp: wakes_def)
  qed
qed

lemma capacity_update_same: "cur_queue_capacity q = k \<Longrightarrow> q\<lparr>cur_queue_capacity := k\<rparr> = q"
  by (cases q) simp

lemma wq_inv_WaitQueue: "wq_inv WaitQueue [] (rev [0..<256])"
  using alloc_nodes_spec(1) [of "\<lparr>nodes = Map.empty, fresh = 0, q_head = None, q_tail = None,
     cache_head = None, cur_queue_capacity = 256\<rparr>" "[]" "[]" 256 256]
  by (simp add: WaitQueue_def alloc_cache_def capacity_update_same)

section \<open>Each operation implements a queue of nodes\<close>

text \<open>Taking the first cached node and resetting it.\<close>

lemma enqueue_take_node:
  assumes inv: "wq_inv q xs (p # cs)"
  obtains q' where
    "enqueue q = do {
      q \<leftarrow> (case q_tail q of
             None \<Rightarrow> Some (q'\<lparr>q_head := Some p, q_tail := Some p\<rparr>)
           | Some t \<Rightarrow> do {
               q \<leftarrow> wq_store t (n_next_update (\<lambda>_. Some p)) q';
               q \<leftarrow> wq_store p (n_prev_update (\<lambda>_. Some t)) q;
               Some (q\<lparr>q_tail := Some p\<rparr>) });
      Some (p, q) }"
    "same_heap q q'" "ends q' = (q_head q, q_tail q, nexts q p)"
    "nexts q' = (nexts q)(p := None)" "prevs q' = prevs q" "wakes q' = (wakes q)(p := False)"
proof -
  have h: "cache_head q = Some p" and pd: "p \<in> dom (nodes q)"
    using inv by (auto simp: wq_inv_def)
  obtain n where n: "nodes q p = Some n" "n_next n = nexts q p" using pd by (rule node_at)
  define q1 where "q1 = q\<lparr>cache_head := nexts q p\<rparr>"
  have q1: "nexts q1 = nexts q" "prevs q1 = prevs q" "wakes q1 = wakes q" "same_heap q q1"
    "ends q1 = (q_head q, q_tail q, nexts q p)" "p \<in> dom (nodes q1)"
    using pd by (simp_all add: q1_def same_heap_def ends_def)
  obtain q2 where q2: "wq_store p (wakeable_update (\<lambda>_. False)) q1 = Some q2" "same_heap q1 q2"
    "wakes q2 = (wakes q1)(p := False)" "nexts q2 = nexts q1" "prevs q2 = prevs q1" "ends q2 = ends q1"
    using q1(6) by (rule store_wakeable)
  have "p \<in> dom (nodes q2)" using q1(6) q2(2) by (simp add: same_heap_def)
  then obtain q3 where q3: "wq_store p (n_next_update (\<lambda>_. None)) q2 = Some q3" "same_heap q2 q3"
    "nexts q3 = (nexts q2)(p := None)" "prevs q3 = prevs q2" "wakes q3 = wakes q2" "ends q3 = ends q2"
    by (rule store_next)
  have "q_tail q3 = q_tail q" using q1(5) q2(6) q3(6) by (simp add: ends_def)
  moreover have "same_heap q q3" using q1(4) q2(2) q3(2) by (simp add: same_heap_def)
  ultimately show ?thesis
    using h n q1 q2 q3 by (intro that [of q3]) (simp_all add: enqueue_def flip: q1_def)
qed

text \<open>Linking the node at the end of a queue that is not empty.\<close>

lemma enqueue_link:
  assumes i: "wq_inv q (ys @ [y]) (p # cs)"
    and q3: "same_heap q q3" "ends q3 = (q_head q, q_tail q, nexts q p)" "nexts q3 = (nexts q)(p := None)"
      "prevs q3 = prevs q" "wakes q3 = (wakes q)(p := False)"
  obtains q5 where
    "do { q \<leftarrow> wq_store y (n_next_update (\<lambda>_. Some p)) q3; wq_store p (n_prev_update (\<lambda>_. Some y)) q } = Some q5"
    "wq_inv (q5\<lparr>q_tail := Some p\<rparr>) (ys @ [y, p]) cs" "wakes q5 = (wakes q)(p := False)"
proof -
  note i = i [unfolded wq_inv_def]
  have px: "p \<notin> set (ys @ [y])" "p \<notin> set cs" "p \<in> dom (nodes q)" using i by auto
  have t: "q_tail q = Some y" using i by (auto simp: dll_def)
  have "y \<in> dom (nodes q3)" using i q3(1) by (auto simp: same_heap_def)
  then obtain q4 where q4: "wq_store y (n_next_update (\<lambda>_. Some p)) q3 = Some q4" "same_heap q3 q4"
    "nexts q4 = (nexts q3)(y := Some p)" "prevs q4 = prevs q3" "wakes q4 = wakes q3" "ends q4 = ends q3"
    by (rule store_next)
  have "p \<in> dom (nodes q4)" using px(3) q3(1) q4(2) by (simp add: same_heap_def)
  then obtain q5 where q5: "wq_store p (n_prev_update (\<lambda>_. Some y)) q4 = Some q5" "same_heap q4 q5"
    "prevs q5 = (prevs q4)(p := Some y)" "nexts q5 = nexts q4" "wakes q5 = wakes q4" "ends q5 = ends q4"
    by (rule store_prev)
  have "dll ((nexts q)(p := None)) ((prevs q)(p := Some y)) (q_head q) (q_tail q) (ys @ [y])"
    using i px by simp
  from dll_push_back [OF this px(1)] t
  have "dll (nexts q5) (prevs q5) (q_head q5) (Some p) (ys @ [y, p])"
    using q3 q4 q5 by (simp add: set_last_def ends_def)
  moreover have "chain (nexts q5) (cache_head q5) cs"
    using i px q3 q4 q5 by (auto simp: ends_def)
  moreover have "same_heap q q5" using q3(1) q4(2) q5(2) by (simp add: same_heap_def)
  ultimately have "wq_inv (q5\<lparr>q_tail := Some p\<rparr>) (ys @ [y, p]) cs"
    using i px q3 q4 q5 unfolding wq_inv_def
    by (auto simp: same_heap_def domIff set_eq_iff)
  then show ?thesis using q3 q4 q5 by (intro that [of q5]) simp_all
qed

lemma enqueue_cached:
  assumes inv: "wq_inv q xs (p # cs)"
  shows "\<exists>q'. enqueue q = Some (p, q') \<and> wq_inv q' (xs @ [p]) cs \<and> wakes q' = (wakes q)(p := False)"
proof -
  note i = inv [unfolded wq_inv_def]
  have px: "p \<notin> set xs" "p \<notin> set cs" "p \<in> dom (nodes q)" using i by auto
  from inv obtain q3 where pre: "enqueue q = do {
      q \<leftarrow> (case q_tail q of
             None \<Rightarrow> Some (q3\<lparr>q_head := Some p, q_tail := Some p\<rparr>)
           | Some t \<Rightarrow> do {
               q \<leftarrow> wq_store t (n_next_update (\<lambda>_. Some p)) q3;
               q \<leftarrow> wq_store p (n_prev_update (\<lambda>_. Some t)) q;
               Some (q\<lparr>q_tail := Some p\<rparr>) });
      Some (p, q) }"
    and q3: "same_heap q q3" "ends q3 = (q_head q, q_tail q, nexts q p)"
      "nexts q3 = (nexts q)(p := None)" "prevs q3 = prevs q" "wakes q3 = (wakes q)(p := False)"
    by (rule enqueue_take_node)
  show ?thesis
  proof (cases xs rule: rev_cases)
    case Nil
    define q4 where "q4 = q3\<lparr>q_head := Some p, q_tail := Some p\<rparr>"
    have "q_tail q = None" using i Nil by (auto simp: dll_def)
    then have "enqueue q = Some (p, q4)" by (simp add: pre q4_def)
    moreover have "nodes q4 = nodes q3" "fresh q4 = fresh q3" by (simp_all add: q4_def)
    then have "wq_inv q4 (xs @ [p]) cs"
      using i px q3 Nil
      by (auto simp: wq_inv_def q4_def same_heap_def ends_def dll_def domIff set_eq_iff)
    ultimately show ?thesis by (auto simp: q4_def q3)
  next
    case (snoc ys y)
    have "q_tail q = Some y" using i snoc by (auto simp: dll_def)
    moreover obtain q5 where
      "do { q \<leftarrow> wq_store y (n_next_update (\<lambda>_. Some p)) q3; wq_store p (n_prev_update (\<lambda>_. Some y)) q } = Some q5"
      "wq_inv (q5\<lparr>q_tail := Some p\<rparr>) (ys @ [y, p]) cs" "wakes q5 = (wakes q)(p := False)"
      using inv [unfolded snoc] q3 by (rule enqueue_link)
    ultimately show ?thesis using snoc by (auto simp: pre)
  qed
qed

lemma enqueue_spec:
  assumes inv: "wq_inv q xs cs"
  shows "\<exists>p q' cs'. enqueue q = Some (p, q') \<and> p \<notin> set xs \<and> wq_inv q' (xs @ [p]) cs' \<and>
     wakes q' = (wakes q)(p := False)"
proof (cases cs)
  case (Cons p cs')
  then show ?thesis using enqueue_cached [of q xs p cs'] inv by (auto simp: wq_inv_def)
next
  case Nil
  note i = inv [unfolded wq_inv_def]
  define k where "k = 2 * cur_queue_capacity q"
  define q1 where "q1 = (alloc_cache q)\<lparr>cur_queue_capacity := k\<rparr>"
  define new where "new = rev [fresh q..<fresh q + cur_queue_capacity q]"
  have "wq_inv q1 xs (new @ [])" "wakes q1 = wakes q"
    using alloc_nodes_spec [of q xs "[]" "cur_queue_capacity q" k] i Nil
    by (auto simp: q1_def alloc_cache_def new_def k_def)
  moreover have "new \<noteq> []" using i by (simp add: new_def)
  ultimately obtain p cs' where c: "wq_inv q1 xs (p # cs')" "wakes q1 = wakes q"
    by (metis append_Nil2 neq_Nil_conv)
  have "cache_head q = None" using i Nil by simp
  moreover have "cache_head (alloc_cache q) = Some p" using c(1) by (simp add: wq_inv_def q1_def)
  ultimately have "enqueue q = enqueue q1"
    by (simp add: enqueue_def q1_def k_def)
  then show ?thesis using enqueue_cached [OF c(1)] c by (auto simp: wq_inv_def)
qed

text \<open>The neighbour updates of \<open>remove\<close>.\<close>

lemma redirect_next:
  assumes "p = last_ptr None as" "set as \<subseteq> dom (nodes q)"
  obtains q' where
    "(case p of None \<Rightarrow> Some q | Some a \<Rightarrow> wq_store a (n_next_update (\<lambda>_. v)) q) = Some q'"
    "same_heap q q'" "nexts q' = set_last as v (nexts q)" "prevs q' = prevs q"
    "wakes q' = wakes q" "ends q' = ends q"
proof (cases as rule: rev_cases)
  case Nil
  then show ?thesis using assms by (intro that [of q]) (simp_all add: set_last_def)
next
  case (snoc zs z)
  then have "z \<in> dom (nodes q)" using assms by simp
  then obtain q' where "wq_store z (n_next_update (\<lambda>_. v)) q = Some q'" "same_heap q q'"
      "nexts q' = (nexts q)(z := v)" "prevs q' = prevs q" "wakes q' = wakes q" "ends q' = ends q"
    by (rule store_next)
  then show ?thesis using assms snoc by (intro that [of q']) (simp_all add: set_last_def)
qed

lemma redirect_prev:
  assumes "p = fst_ptr bs None" "set bs \<subseteq> dom (nodes q)"
  obtains q' where
    "(case p of None \<Rightarrow> Some q | Some b \<Rightarrow> wq_store b (n_prev_update (\<lambda>_. v)) q) = Some q'"
    "same_heap q q'" "prevs q' = set_first bs v (prevs q)" "nexts q' = nexts q"
    "wakes q' = wakes q" "ends q' = ends q"
proof (cases bs)
  case Nil
  then show ?thesis using assms by (intro that [of q]) (simp_all add: set_first_def)
next
  case (Cons z zs)
  then have "z \<in> dom (nodes q)" using assms by simp
  then obtain q' where "wq_store z (n_prev_update (\<lambda>_. v)) q = Some q'" "same_heap q q'"
      "prevs q' = (prevs q)(z := v)" "nexts q' = nexts q" "wakes q' = wakes q" "ends q' = ends q"
    by (rule store_prev)
  then show ?thesis using assms Cons by (intro that [of q']) (simp_all add: set_first_def)
qed

lemma adjust_ends_spec:
  assumes d: "dll (nexts q) (prevs q) (q_head q) (q_tail q) (as @ p # bs)"
    and n: "n_next n = nexts q p" "n_prev n = prevs q p"
  shows "ends (adjust_ends p n q) = ((if prevs q p = None then nexts q p else q_head q),
      (if nexts q p = None then prevs q p else q_tail q), cache_head q)"
    and "nodes (adjust_ends p n q) = nodes q" "same_heap q (adjust_ends p n q)"
proof -
  have dis: "distinct (as @ p # bs)" using d by (rule dll_distinct)
  have h: "q_head q = Some p \<longleftrightarrow> as = []"
    using d dis by (cases as) (auto simp: dll_def)
  have t: "q_tail q = Some p \<longleftrightarrow> bs = []"
    using d dis by (cases bs rule: rev_cases) (auto simp: dll_def last_ptr_append)
  have np: "nexts q p = fst_ptr bs None" "prevs q p = last_ptr None as"
    using dll_node [OF d] by simp_all
  show "ends (adjust_ends p n q) = ((if prevs q p = None then nexts q p else q_head q),
      (if nexts q p = None then prevs q p else q_tail q), cache_head q)"
  proof (cases "as = []"; cases "bs = []")
    assume "as = []" "bs \<noteq> []"
    moreover from this have "q_head q = Some p" "q_tail q \<noteq> Some p" using h t by simp_all
    ultimately show ?thesis using n np by (simp add: adjust_ends_def ends_def Let_def)
  next
    assume "as \<noteq> []" "bs = []"
    moreover from this have "q_head q \<noteq> Some p" "q_tail q = Some p" using h t by simp_all
    ultimately show ?thesis using n np by (simp add: adjust_ends_def ends_def Let_def)
  next
    assume "as \<noteq> []" "bs \<noteq> []"
    moreover from this have "q_head q \<noteq> Some p" "q_tail q \<noteq> Some p" using h t by simp_all
    ultimately show ?thesis using n np by (auto simp: adjust_ends_def ends_def Let_def)
  next
    assume "as = []" "bs = []"
    moreover from this have "q_head q = Some p" "q_tail q = Some p" using h t by simp_all
    ultimately show ?thesis using n np by (simp add: adjust_ends_def ends_def Let_def)
  qed
  show "nodes (adjust_ends p n q) = nodes q" "same_heap q (adjust_ends p n q)"
    by (simp_all add: adjust_ends_def Let_def same_heap_def)
qed

text \<open>The last writes of \<open>remove\<close> put the node at the head of the cache.\<close>

lemma recycle_node:
  assumes "p \<in> dom (nodes q)"
  obtains q' where
    "do { q \<leftarrow> wq_store p (n_prev_update (\<lambda>_. None)) q; wq_store p (n_next_update (\<lambda>_. cache_head q)) q } = Some q'"
    "same_heap q q'" "nexts q' = (nexts q)(p := cache_head q)" "prevs q' = (prevs q)(p := None)"
    "wakes q' = wakes q" "ends q' = ends q"
proof -
  obtain q1 where q1: "wq_store p (n_prev_update (\<lambda>_. None)) q = Some q1" "same_heap q q1"
    "prevs q1 = (prevs q)(p := None)" "nexts q1 = nexts q" "wakes q1 = wakes q" "ends q1 = ends q"
    using assms by (rule store_prev)
  have "p \<in> dom (nodes q1)" using assms q1(2) by (simp add: same_heap_def)
  then obtain q2 where q2: "wq_store p (n_next_update (\<lambda>_. cache_head q1)) q1 = Some q2"
    "same_heap q1 q2" "nexts q2 = (nexts q1)(p := cache_head q1)" "prevs q2 = prevs q1"
    "wakes q2 = wakes q1" "ends q2 = ends q1"
    by (rule store_next)
  have "cache_head q1 = cache_head q" using q1(6) by (simp add: ends_def)
  then show ?thesis using q1 q2 by (intro that [of q2]) (simp_all add: same_heap_def)
qed

text \<open>All writes of \<open>remove\<close> but the last.\<close>

lemma remove_writes:
  assumes d: "dll (nexts q) (prevs q) (q_head q) (q_tail q) (as @ p # bs)"
    and sub: "set as \<subseteq> dom (nodes q)" "set bs \<subseteq> dom (nodes q)" "p \<in> dom (nodes q)"
  obtains q' where "remove (Some p) q = Some (q'\<lparr>cache_head := Some p\<rparr>)" "same_heap q q'" "wakes q' = wakes q"
    "q_head q' = (if prevs q p = None then nexts q p else q_head q)"
    "q_tail q' = (if nexts q p = None then prevs q p else q_tail q)"
    "nexts q' = (set_last as (nexts q p) (nexts q))(p := cache_head q)"
    "prevs q' = (set_first bs (prevs q p) (prevs q))(p := None)"
proof -
  note ptrs = dll_node [OF d]
  have px: "p \<notin> set as" using dll_distinct [OF d] by simp
  obtain n where n: "nodes q p = Some n" "n_next n = nexts q p" "n_prev n = prevs q p"
    using sub(3) by (rule node_at)
  define q1 where "q1 = adjust_ends p n q"
  note q1 = adjust_ends_spec [OF d n(2,3), folded q1_def]
  have m1: "nexts q1 = nexts q" "prevs q1 = prevs q" "wakes q1 = wakes q"
    using q1(2) by (simp_all add: nexts_def prevs_def wakes_def fun_eq_iff)
  have "n_prev n = last_ptr None as" "set as \<subseteq> dom (nodes q1)" using n ptrs sub q1(2) by simp_all
  then obtain q2 where q2: "(case n_prev n of None \<Rightarrow> Some q1
      | Some a \<Rightarrow> wq_store a (n_next_update (\<lambda>_. n_next n)) q1) = Some q2"
      "same_heap q1 q2" "nexts q2 = set_last as (n_next n) (nexts q1)" "prevs q2 = prevs q1"
      "wakes q2 = wakes q1" "ends q2 = ends q1"
    by (rule redirect_next)
  have "p \<in> dom (nodes q2)" using sub(3) q1(3) q2(2) by (simp add: same_heap_def)
  then obtain m where "nodes q2 p = Some m" "n_next m = nexts q2 p" "n_prev m = prevs q2 p"
    by (rule node_at)
  then have m: "nodes q2 p = Some m" "n_next m = nexts q p" "n_prev m = prevs q p"
    using q2 m1 n px by (auto simp: set_last_def)
  have "n_next m = fst_ptr bs None" "set bs \<subseteq> dom (nodes q2)"
    using m ptrs sub q1(3) q2(2) by (simp_all add: same_heap_def)
  then obtain q3 where q3: "(case n_next m of None \<Rightarrow> Some q2
      | Some b \<Rightarrow> wq_store b (n_prev_update (\<lambda>_. n_prev m)) q2) = Some q3"
      "same_heap q2 q3" "prevs q3 = set_first bs (n_prev m) (prevs q2)" "nexts q3 = nexts q2"
      "wakes q3 = wakes q2" "ends q3 = ends q2"
    by (rule redirect_prev)
  have sh: "same_heap q q3" using q1(3) q2(2) q3(2) by (simp add: same_heap_def)
  then have "p \<in> dom (nodes q3)" using sub(3) by (simp add: same_heap_def)
  then obtain q5 where q5: "do { q \<leftarrow> wq_store p (n_prev_update (\<lambda>_. None)) q3;
        wq_store p (n_next_update (\<lambda>_. cache_head q)) q } = Some q5"
    "same_heap q3 q5" "nexts q5 = (nexts q3)(p := cache_head q3)" "prevs q5 = (prevs q3)(p := None)"
    "wakes q5 = wakes q3" "ends q5 = ends q3"
    by (rule recycle_node)
  have "remove (Some p) q = Some (q5\<lparr>cache_head := Some p\<rparr>)"
    using n(1) q2(1) m(1) q3(1) q5(1) unfolding q1_def
    by (simp add: remove_def del: bind_Some_iff flip: bind_assoc)
  moreover have "same_heap q q5" using same_heap_trans [OF sh q5(2)] .
  moreover have "cache_head q3 = cache_head q" using q1(1) q2(6) q3(6) by (simp add: ends_def)
  ultimately show ?thesis using q1(1) q2 q3 q5 m1 m n by (intro that [of q5]) (simp_all add: ends_def)
qed

lemma remove_spec:
  assumes inv: "wq_inv q (as @ p # bs) cs"
  shows "\<exists>q'. remove (Some p) q = Some q' \<and> wq_inv q' (as @ bs) (p # cs) \<and> wakes q' = wakes q"
proof -
  note i = inv [unfolded wq_inv_def]
  have d: "dll (nexts q) (prevs q) (q_head q) (q_tail q) (as @ p # bs)" using i by blast
  have px: "p \<notin> set as" "p \<notin> set bs" "p \<notin> set cs" and sub: "set as \<subseteq> dom (nodes q)"
    "set bs \<subseteq> dom (nodes q)" "p \<in> dom (nodes q)" using i by auto
  obtain q' where q': "remove (Some p) q = Some (q'\<lparr>cache_head := Some p\<rparr>)" "same_heap q q'"
    "wakes q' = wakes q"
    and e: "q_head q' = (if prevs q p = None then nexts q p else q_head q)"
      "q_tail q' = (if nexts q p = None then prevs q p else q_tail q)"
    and nx: "nexts q' = (set_last as (nexts q p) (nexts q))(p := cache_head q)"
    and pv: "prevs q' = (set_first bs (prevs q p) (prevs q))(p := None)"
    using d sub by (rule remove_writes)
  have "dll (nexts q') (prevs q') (q_head q') (q_tail q') (as @ bs)"
    using dll_unlink [OF d] px unfolding nx pv e by simp
  moreover have "chain (set_last as (nexts q p) (nexts q)) (cache_head q) cs"
    using i by (cases as rule: rev_cases) (auto simp: set_last_def)
  then have "chain (nexts q') (Some p) (p # cs)" using px nx by simp
  moreover have "\<forall>c \<in> set cs. prevs q' c = None"
    using i px pv by (cases bs) (auto simp: set_first_def)
  ultimately have "wq_inv (q'\<lparr>cache_head := Some p\<rparr>) (as @ bs) (p # cs)"
    using i px q'(2) pv by (auto simp: wq_inv_def same_heap_def)
  then show ?thesis using q'(1,3) by simp
qed

lemma head_of_list: "wq_inv q xs cs \<Longrightarrow> q_head q = fst_ptr xs None"
  by (simp add: wq_inv_def dll_def)

lemma dequeue_spec:
  assumes "wq_inv q (x # xs) cs"
  shows "\<exists>q'. dequeue q = Some q' \<and> wq_inv q' xs (x # cs) \<and> wakes q' = wakes q"
  using remove_spec [of q "[]" x xs cs] head_of_list [OF assms] assms by (simp add: dequeue_def)

lemma wake_head_spec:
  assumes inv: "wq_inv q xs cs"
  shows "\<exists>q'. wake_head q = Some q' \<and> wq_inv q' xs cs \<and>
     wakes q' = (case xs of [] \<Rightarrow> wakes q | x # _ \<Rightarrow> (wakes q)(x := True))"
proof (cases xs)
  case Nil
  then show ?thesis using inv head_of_list [OF inv] by (simp add: wake_head_def)
next
  case (Cons x ys)
  then have "x \<in> dom (nodes q)" using inv by (simp add: wq_inv_def)
  then obtain q' where q': "wq_store x (wakeable_update (\<lambda>_. True)) q = Some q'" "same_heap q q'"
    "wakes q' = (wakes q)(x := True)" "nexts q' = nexts q" "prevs q' = prevs q" "ends q' = ends q"
    by (rule store_wakeable)
  then have "wq_inv q' xs cs" using inv by (simp add: wq_inv_def same_heap_def ends_def)
  with q' Cons head_of_list [OF inv] show ?thesis by (simp add: wake_head_def)
qed

lemma is_empty_spec: "wq_inv q xs cs \<Longrightarrow> is_empty q \<longleftrightarrow> xs = []"
  by (simp add: is_empty_def head_of_list)

lemma count_nodes_chain:
  "\<lbrakk> chain (nexts q) p xs; set xs \<subseteq> dom (nodes q) \<rbrakk> \<Longrightarrow>
     count_nodes q p ctr = Some (ctr + of_nat (length xs))"
proof (induction xs arbitrary: p ctr)
  case Nil
  then show ?case by (simp add: count_nodes.simps)
next
  case (Cons x xs)
  then obtain n where "nodes q x = Some n" "n_next n = nexts q x" by (auto intro: node_at)
  with Cons show ?case by (subst count_nodes.simps) (simp add: ac_simps)
qed

lemma num_waiting_nodes_spec:
  assumes "wq_inv q xs cs" shows "num_waiting_nodes q = Some (of_nat (length xs))"
proof -
  have "chain (nexts q) (q_head q) xs"
    using assms by (auto simp: wq_inv_def dll_def dest: dseg_chain)
  then show ?thesis
    using assms count_nodes_chain [of q "q_head q" xs 0]
    by (cases xs) (auto simp: num_waiting_nodes_def wq_inv_def)
qed

text \<open>Destruction: each chain is freed node by node, and nothing else is touched.\<close>

lemma delete_chain_spec:
  "\<lbrakk> chain (\<lambda>p. Option.bind (ns p) n_next) p xs; distinct xs; set xs \<subseteq> dom ns \<rbrakk> \<Longrightarrow>
     delete_chain p ns = Some (\<lambda>a. if a \<in> set xs then None else ns a)"
proof (induction xs arbitrary: p ns)
  case Nil
  then show ?case by (simp add: delete_chain.simps)
next
  case (Cons x xs)
  then obtain n where n: "ns x = Some n" by auto
  have "chain (\<lambda>p. Option.bind ((ns(x := None)) p) n_next) (n_next n) xs"
    using Cons.prems n by (subst chain_cong [of xs _ "\<lambda>p. Option.bind (ns p) n_next"]) auto
  then have "delete_chain (n_next n) (ns(x := None))
      = Some (\<lambda>a. if a \<in> set xs then None else (ns(x := None)) a)"
    using Cons.prems by (intro Cons.IH) auto
  with Cons.prems n show ?case by (subst delete_chain.simps) (auto simp: fun_eq_iff)
qed

lemma WaitQueue_destroy_spec:
  assumes inv: "wq_inv q xs cs"
  shows "\<exists>q'. WaitQueue_destroy q = Some q' \<and> nodes q' = Map.empty"
proof -
  note i = inv [unfolded wq_inv_def]
  have nx: "(\<lambda>p. Option.bind (nodes q p) n_next) = nexts q" by (simp add: nexts_def fun_eq_iff)
  define ns where "ns = (\<lambda>a. if a \<in> set xs then None else nodes q a)"
  have "chain (nexts q) (q_head q) xs" using i by (auto simp: dll_def dest: dseg_chain)
  then have 1: "delete_chain (q_head q) (nodes q) = Some ns"
    unfolding ns_def using i nx by (intro delete_chain_spec) auto
  have "chain (\<lambda>p. Option.bind (ns p) n_next) (cache_head q) cs"
    using i by (subst chain_cong [of cs _ "nexts q"]) (auto simp: ns_def nexts_def)
  moreover have "set cs \<subseteq> dom ns"
  proof
    fix c assume "c \<in> set cs"
    then have "c \<in> dom (nodes q)" "c \<notin> set xs" using i by auto
    then show "c \<in> dom ns" by (simp add: ns_def domIff)
  qed
  ultimately have 2: "delete_chain (cache_head q) ns = Some (\<lambda>a. if a \<in> set cs then None else ns a)"
    using i by (intro delete_chain_spec) auto
  have "(\<lambda>a. if a \<in> set cs then None else ns a) = Map.empty"
  proof
    fix a show "(if a \<in> set cs then None else ns a) = None"
      using i by (cases "a \<in> dom (nodes q)") (auto simp: ns_def domIff)
  qed
  with 1 2 show ?thesis by (simp add: WaitQueue_destroy_def)
qed

section \<open>The interface the semaphore uses\<close>

text \<open>At most the first node of the queue has been woken.\<close>

definition head_only :: "('p \<Rightarrow> bool) \<Rightarrow> 'p list \<Rightarrow> bool" where
  "head_only w xs \<longleftrightarrow> (\<forall>p \<in> set (tl xs). \<not> w p)"

locale node_queue =
  fixes enq :: "'q \<Rightarrow> ('p \<times> 'q) option"
    and rem :: "'p \<Rightarrow> 'q \<Rightarrow> 'q option"
    and deq :: "'q \<Rightarrow> 'q option"
    and wake :: "'q \<Rightarrow> 'q option"
    and is_list :: "'q \<Rightarrow> 'p list \<Rightarrow> bool"
    and woken :: "'q \<Rightarrow> 'p \<Rightarrow> bool"
  assumes list_distinct: "is_list q xs \<Longrightarrow> distinct xs"
    and enq_law: "is_list q xs \<Longrightarrow> \<exists>p q'. enq q = Some (p, q') \<and> p \<notin> set xs \<and>
        is_list q' (xs @ [p]) \<and> woken q' = (woken q)(p := False)"
    and rem_law: "\<lbrakk> is_list q xs; p \<in> set xs \<rbrakk> \<Longrightarrow>
        \<exists>q'. rem p q = Some q' \<and> is_list q' (remove1 p xs) \<and> woken q' = woken q"
    and deq_law: "is_list q (x # xs) \<Longrightarrow>
        \<exists>q'. deq q = Some q' \<and> is_list q' xs \<and> woken q' = woken q"
    and wake_law: "is_list q xs \<Longrightarrow> \<exists>q'. wake q = Some q' \<and> is_list q' xs \<and>
        woken q' = (case xs of [] \<Rightarrow> woken q | x # _ \<Rightarrow> (woken q)(x := True))"
begin

text \<open>Each operation keeps the wake-up discipline.\<close>

lemma enq_head_only:
  assumes "is_list q xs" "head_only (woken q) xs"
  obtains p q' where "enq q = Some (p, q')" "p \<notin> set xs" "is_list q' (xs @ [p])"
    "woken q' = (woken q)(p := False)" "head_only (woken q') (xs @ [p])"
proof -
  obtain p q' where e: "enq q = Some (p, q')" "p \<notin> set xs" "is_list q' (xs @ [p])"
    "woken q' = (woken q)(p := False)" using enq_law [OF assms(1)] by blast
  moreover have "head_only (woken q') (xs @ [p])"
    using assms(2) e(2,4) by (cases xs) (auto simp: head_only_def)
  ultimately show ?thesis by (rule that)
qed

lemma rem_head_only:
  assumes "is_list q xs" "head_only (woken q) xs" "p \<in> set xs"
  obtains q' where "rem p q = Some q'" "is_list q' (remove1 p xs)" "woken q' = woken q"
    "head_only (woken q') (remove1 p xs)"
proof -
  obtain q' where e: "rem p q = Some q'" "is_list q' (remove1 p xs)" "woken q' = woken q"
    using rem_law [OF assms(1,3)] by blast
  moreover have "head_only (woken q') (remove1 p xs)"
    using assms(2) e(3) set_remove1_subset [of p "tl xs"]
    by (cases xs) (auto simp: head_only_def dest: in_set_tlD)
  ultimately show ?thesis by (rule that)
qed

lemma deq_head_only:
  assumes "is_list q (x # xs)" "head_only (woken q) (x # xs)"
  obtains q' where "deq q = Some q'" "is_list q' xs" "woken q' = woken q"
    "\<forall>p \<in> set xs. \<not> woken q' p"
proof -
  obtain q' where e: "deq q = Some q'" "is_list q' xs" "woken q' = woken q"
    using deq_law [OF assms(1)] by blast
  moreover have "\<forall>p \<in> set xs. \<not> woken q' p"
    using assms(2) e(3) by (simp add: head_only_def)
  ultimately show ?thesis by (rule that)
qed

lemma wake_head_only:
  assumes "is_list q xs" "head_only (woken q) xs"
  obtains q' where "wake q = Some q'" "is_list q' xs" "head_only (woken q') xs"
    "woken q' = (case xs of [] \<Rightarrow> woken q | x # _ \<Rightarrow> (woken q)(x := True))"
proof -
  obtain q' where e: "wake q = Some q'" "is_list q' xs"
    "woken q' = (case xs of [] \<Rightarrow> woken q | x # _ \<Rightarrow> (woken q)(x := True))"
    using wake_law [OF assms(1)] by blast
  have "head_only (woken q') xs"
    using assms(2) list_distinct [OF assms(1)] e(3) by (cases xs) (auto simp: head_only_def)
  then show ?thesis by (rule that [OF e(1,2) _ e(3)])
qed

lemma no_woken_head_only: "\<forall>p \<in> set xs. \<not> woken q p \<Longrightarrow> head_only (woken q) xs"
  by (cases xs) (auto simp: head_only_def)

end

definition wq_list :: "wait_queue \<Rightarrow> ptr list \<Rightarrow> bool" where
  "wq_list q xs \<longleftrightarrow> (\<exists>cs. wq_inv q xs cs)"

lemma wq_list_remove:
  assumes "wq_list q xs" "p \<in> set xs"
  shows "\<exists>q'. remove (Some p) q = Some q' \<and> wq_list q' (remove1 p xs) \<and> wakes q' = wakes q"
proof -
  obtain cs as bs where i: "wq_inv q xs cs" "xs = as @ p # bs"
    using assms by (meson split_list wq_list_def)
  have "wq_inv q (as @ p # bs) cs" using i by simp
  then have "p \<notin> set as" by (simp add: wq_inv_def)
  then have "remove1 p xs = as @ bs" using i(2) by (simp add: remove1_append)
  moreover obtain q' where "remove (Some p) q = Some q'" "wq_inv q' (as @ bs) (p # cs)"
      "wakes q' = wakes q"
    using remove_spec [OF \<open>wq_inv q (as @ p # bs) cs\<close>] by blast
  ultimately show ?thesis unfolding wq_list_def by metis
qed

lemma wq_list_enqueue:
  assumes "wq_list q xs"
  shows "\<exists>p q'. enqueue q = Some (p, q') \<and> p \<notin> set xs \<and> wq_list q' (xs @ [p]) \<and>
    wakes q' = (wakes q)(p := False)"
proof -
  obtain cs where "wq_inv q xs cs" using assms by (auto simp: wq_list_def)
  from enqueue_spec [OF this] show ?thesis by (auto simp: wq_list_def)
qed

lemma wq_list_dequeue:
  assumes "wq_list q (x # xs)"
  shows "\<exists>q'. dequeue q = Some q' \<and> wq_list q' xs \<and> wakes q' = wakes q"
proof -
  obtain cs where "wq_inv q (x # xs) cs" using assms by (auto simp: wq_list_def)
  from dequeue_spec [OF this] show ?thesis by (auto simp: wq_list_def)
qed

lemma wq_list_wake_head:
  assumes "wq_list q xs"
  shows "\<exists>q'. wake_head q = Some q' \<and> wq_list q' xs \<and>
    wakes q' = (case xs of [] \<Rightarrow> wakes q | x # _ \<Rightarrow> (wakes q)(x := True))"
proof -
  obtain cs where "wq_inv q xs cs" using assms by (auto simp: wq_list_def)
  from wake_head_spec [OF this] show ?thesis by (auto simp: wq_list_def)
qed

lemma wq_list_distinct: "wq_list q xs \<Longrightarrow> distinct xs"
  by (auto simp: wq_list_def wq_inv_def)

interpretation wq: node_queue enqueue "\<lambda>p. remove (Some p)" dequeue wake_head wq_list wakes
  by unfold_locales (fact wq_list_distinct wq_list_enqueue wq_list_remove wq_list_dequeue
      wq_list_wake_head)+

lemma wq_list_WaitQueue: "wq_list WaitQueue []"
  using wq_inv_WaitQueue by (auto simp: wq_list_def)

lemma wq_list_head: "wq_list q xs \<Longrightarrow> q_head q = fst_ptr xs None"
  by (auto simp: wq_list_def head_of_list)

lemma wq_list_is_empty: "wq_list q xs \<Longrightarrow> is_empty q \<longleftrightarrow> xs = []"
  by (auto simp: wq_list_def is_empty_spec)

end
