(* ===== verification/Permit_Ledger.thy ===== *)
theory Permit_Ledger
  imports Prelude "HOL-Library.Multiset"
begin

text \<open>
  The history of a semaphore, shared by the models of \<open>QueuedSemaphore\<close> and
  \<open>SimpleSemaphore\<close>: who arrived, who was granted how many permits, who timed out, what
  \<open>try_acquire\<close> took and what was released; and what the history adds up to.
\<close>

datatype q_entry =
    Arrived tid u32
  | Granted tid u32
  | Timed_out tid u32
  | Taken u32
  | Returned u32

fun returned_by :: "q_entry \<Rightarrow> nat" where
  "returned_by (Returned r) = unat r"
| "returned_by _ = 0"

fun handed_by :: "q_entry \<Rightarrow> nat" where
  "handed_by (Granted t r) = unat r"
| "handed_by (Taken r) = unat r"
| "handed_by _ = 0"

fun expired_by :: "q_entry \<Rightarrow> u32 list" where
  "expired_by (Timed_out t r) = [r]"
| "expired_by _ = []"

fun arrived_by :: "q_entry \<Rightarrow> tid list" where
  "arrived_by (Arrived t r) = [t]"
| "arrived_by _ = []"

fun granted_by :: "q_entry \<Rightarrow> tid list" where
  "granted_by (Granted t r) = [t]"
| "granted_by _ = []"

definition returned :: "q_entry list \<Rightarrow> nat" where
  "returned l = (\<Sum>e \<leftarrow> l. returned_by e)"

definition handed :: "q_entry list \<Rightarrow> nat" where
  "handed l = (\<Sum>e \<leftarrow> l. handed_by e)"

definition expired :: "q_entry list \<Rightarrow> u32 multiset" where
  "expired l = mset (concat (map expired_by l))"

definition arrivals :: "q_entry list \<Rightarrow> tid list" where
  "arrivals l = concat (map arrived_by l)"

definition grants :: "q_entry list \<Rightarrow> tid list" where
  "grants l = concat (map granted_by l)"

lemma log_simps [simp]:
  "returned [] = 0" "returned (l @ l') = returned l + returned l'" "returned (e # l) = returned_by e + returned l"
  "handed [] = 0" "handed (l @ l') = handed l + handed l'" "handed (e # l) = handed_by e + handed l"
  "expired [] = {#}" "expired (l @ l') = expired l + expired l'" "expired (e # l) = mset (expired_by e) + expired l"
  "arrivals [] = []" "arrivals (l @ l') = arrivals l @ arrivals l'" "arrivals (e # l) = arrived_by e @ arrivals l"
  "grants [] = []" "grants (l @ l') = grants l @ grants l'" "grants (e # l) = granted_by e @ grants l"
  by (simp_all add: returned_def handed_def expired_def arrivals_def grants_def)

text \<open>
  The range of the counter: at every moment of the history the permits that are free, \<open>n\<close> plus what
  has been returned minus what has been handed out, are fewer than \<open>2 ^ 31\<close>, so that the
  \<open>atomic_int\<close> does not overflow.  How long the history is does not matter.
\<close>

definition fits :: "u32 \<Rightarrow> q_entry list \<Rightarrow> bool" where
  "fits n l \<longleftrightarrow> (\<forall>k \<le> length l. unat n + returned (take k l) < 2 ^ 31 + handed (take k l))"

lemma fits_now: "fits n l \<Longrightarrow> unat n + returned l < 2 ^ 31 + handed l"
  unfolding fits_def by (metis order_refl take_all_iff)

lemma fits_snoc [simp]:
  "fits n (l @ [e]) \<longleftrightarrow> fits n l \<and> unat n + returned (l @ [e]) < 2 ^ 31 + handed (l @ [e])"
proof -
  have "(\<forall>k \<le> Suc (length l). P k) \<longleftrightarrow> (\<forall>k \<le> length l. P k) \<and> P (Suc (length l))" for P
    by (auto simp: le_Suc_eq)
  then show ?thesis by (simp add: fits_def)
qed

lemma fits_Nil [simp]: "fits n [] \<longleftrightarrow> unat n < 2 ^ 31"
  by (simp add: fits_def)

lemma fits_append: "fits n (l @ l') \<Longrightarrow> fits n l"
  proof (induction l' rule: rev_induct)
  case (snoc e l')
  then have "fits n (l @ l')" using fits_snoc [of n "l @ l'" e] by simp
  then show ?case by (rule snoc.IH)
qed simp

text \<open>Only what is returned can exceed the range.\<close>

lemma fits_mono: "fits n l \<Longrightarrow> returned l' = 0 \<Longrightarrow> fits n (l @ l')"
proof (induction l' rule: rev_induct)
  case (snoc e l')
  then have "fits n (l @ l')" "returned_by e = 0" by simp_all
  with fits_now [OF this(1)] fits_snoc [of n "l @ l'" e] show ?case by simp
qed simp

lemma fits_total: "unat n + returned l < 2 ^ 31 \<Longrightarrow> fits n l"
  by (induction l rule: rev_induct) auto

end
