(* ===== verification/Queued_Semaphore.thy ===== *)
theory Queued_Semaphore
  imports Wait_Queue Permit_Ledger
begin

text \<open>
  \<open>QueuedSemaphore\<close> of \<^verbatim>\<open>concurrency/semaphore.h\<close>.  \<open>permits\<close> is the
  \<open>atomic_int\<close>, kept as a 32-bit word and read with \<open>sint\<close> where the code compares it as
  \<open>int\<close>; \<open>request_record\<close> is the \<open>std::map<unsigned, size_t>\<close> as an association list
  sorted by key.  All code runs under \<open>main_lock\<close> except the waits, so a call is cut into the
  atomic sections between taking the lock, waiting on the node's condition variable, and returning.
  A schedule is a list of events; \<open>None\<close> means that the event is not enabled, while undefined
  behaviour and \<open>std::terminate\<close> are states of their own (\<open>q_status\<close>).
\<close>

section \<open>The request record\<close>

type_synonym record_map = "(u32 \<times> nat) list"

definition request_record_insert :: "u32 \<Rightarrow> record_map \<Rightarrow> record_map" where
  "request_record_insert request m =
     (case map_of m request of
        Some c \<Rightarrow> AList.update request (c + 1) m
      | None \<Rightarrow> insort_key fst (request, 1) m)"

definition request_record_remove :: "u32 \<Rightarrow> record_map \<Rightarrow> record_map" where
  "request_record_remove request m =
     (case map_of m request of
        Some c \<Rightarrow> if c = 1 then AList.delete request m else AList.update request (c - 1) m
      | None \<Rightarrow> m)"

definition request_record_min :: "record_map \<Rightarrow> u32" where
  "request_record_min m = (case m of (k, c) # _ \<Rightarrow> k | [] \<Rightarrow> 0)"

section \<open>State and atomic sections\<close>

record qsem =
  permits :: u32
  queue :: wait_queue
  request_record :: record_map

definition QueuedSemaphore :: "u32 \<Rightarrow> qsem" where
  "QueuedSemaphore initial_permits =
     \<lparr>permits = initial_permits, queue = WaitQueue, request_record = []\<rparr>"

text \<open>\<open>if (permits >= request_record_min()) queue.wake_head();\<close> compares as \<open>int\<close>.\<close>

definition wake_if_enough :: "qsem \<Rightarrow> qsem option" where
  "wake_if_enough s =
     (if sint (request_record_min (request_record s)) \<le> sint (permits s)
      then map_option (\<lambda>q. s\<lparr>queue := q\<rparr>) (wake_head (queue s)) else Some s)"

definition qs_release :: "u32 \<Rightarrow> qsem \<Rightarrow> qsem option" where
  "qs_release request s = wake_if_enough (s\<lparr>permits := permits s + request\<rparr>)"

text \<open>\<open>permits >= request\<close> converts \<open>permits\<close> to \<open>unsigned int\<close>.\<close>

definition qs_try_acquire :: "u32 \<Rightarrow> qsem \<Rightarrow> bool \<times> qsem" where
  "qs_try_acquire request s =
     (if request \<le> permits s then (True, s\<lparr>permits := permits s - request\<rparr>) else (False, s))"

definition available_permits :: "qsem \<Rightarrow> int" where
  "available_permits s = sint (permits s)"

text \<open>
  \<open>try_acquire0\<close> up to the first wait: \<open>Some (None, s)\<close> is the fast path that returns
  \<open>true\<close>, \<open>Some (Some p, s)\<close> is waiting on node \<open>p\<close>.
\<close>

definition qs_wait :: "qsem \<Rightarrow> (ptr option \<times> qsem) option" where
  "qs_wait s = map_option (\<lambda>(p, q). (Some p, s\<lparr>queue := q\<rparr>)) (enqueue (queue s))"

definition qs_enter :: "u32 \<Rightarrow> qsem \<Rightarrow> (ptr option \<times> qsem) option" where
  "qs_enter request s =
     (if sint request \<le> sint (permits s) \<and> is_empty (queue s)
      then Some (None, s\<lparr>permits := permits s - request\<rparr>)
      else qs_wait (s\<lparr>request_record := request_record_insert request (request_record s)\<rparr>))"

text \<open>The end of \<open>try_acquire0\<close>, once the permits are there.\<close>

definition qs_finish :: "u32 \<Rightarrow> qsem \<Rightarrow> qsem option" where
  "qs_finish request s =
     wake_if_enough (s\<lparr>request_record := request_record_remove request (request_record s),
                       permits := permits s - request\<rparr>)"

text \<open>After a wake-up: dequeue, then finish or wait again on a fresh node.\<close>

definition qs_resume :: "u32 \<Rightarrow> qsem \<Rightarrow> (ptr option \<times> qsem) option" where
  "qs_resume request s = do {
     q \<leftarrow> dequeue (queue s);
     s \<leftarrow> Some (s\<lparr>queue := q\<rparr>);
     (if sint request \<le> sint (permits s)
      then map_option (Pair None) (qs_finish request s)
      else qs_wait s) }"

text \<open>The timeout branch: the node leaves the queue, the request record is not touched.\<close>

definition qs_timeout :: "ptr \<Rightarrow> qsem \<Rightarrow> qsem option" where
  "qs_timeout p s = map_option (\<lambda>q. s\<lparr>queue := q\<rparr>) (remove (Some p) (queue s))"

section \<open>Threads\<close>

datatype qpc = Q_out | Q_wait ptr u32 bool

datatype q_status = Running | Faulted | Terminated

record qsys =
  sem :: qsem
  qpcs :: "tid \<Rightarrow> qpc"
  q_status :: q_status
  q_log :: "q_entry list"

datatype q_event =
    Q_acquire tid u32 bool
  | Q_resume tid
  | Q_timeout tid
  | Q_try_acquire u32
  | Q_release u32

definition qsys_init :: "u32 \<Rightarrow> qsys" where
  "qsys_init initial_permits =
     \<lparr>sem = QueuedSemaphore initial_permits, qpcs = (\<lambda>_. Q_out), q_status = Running, q_log = []\<rparr>"

text \<open>
  What the thread does with the outcome of \<open>qs_enter\<close> or \<open>qs_resume\<close>: it returns, after the
  check that terminates the process when \<open>permits\<close> has become negative, or it waits.  The fast
  path has no such check.
\<close>

definition settle :: "tid \<Rightarrow> u32 \<Rightarrow> bool \<Rightarrow> bool \<Rightarrow> (ptr option \<times> qsem) option \<Rightarrow> qsys \<Rightarrow> qsys" where
  "settle t request timed checked r s =
     (case r of
        None \<Rightarrow> s\<lparr>q_status := Faulted\<rparr>
      | Some (Some p, s') \<Rightarrow> s\<lparr>sem := s', qpcs := (qpcs s)(t := Q_wait p request timed)\<rparr>
      | Some (None, s') \<Rightarrow>
          s\<lparr>sem := s', qpcs := (qpcs s)(t := Q_out), q_log := q_log s @ [Granted t request],
            q_status := (if checked \<and> sint (permits s') < 0 then Terminated else Running)\<rparr>)"

fun qsem_step :: "q_event \<Rightarrow> qsys \<Rightarrow> qsys option" where
  "qsem_step (Q_acquire t request timed) s =
     (if q_status s = Running \<and> qpcs s t = Q_out
      then Some (settle t request timed False (qs_enter request (sem s))
             (s\<lparr>q_log := q_log s @ [Arrived t request]\<rparr>))
      else None)"
| "qsem_step (Q_resume t) s =
     (case qpcs s t of
        Q_wait p request timed \<Rightarrow>
          if q_status s = Running \<and> wakes (queue (sem s)) p
          then Some (settle t request timed True (qs_resume request (sem s)) s) else None
      | Q_out \<Rightarrow> None)"
| "qsem_step (Q_timeout t) s =
     (case qpcs s t of
        Q_wait p request timed \<Rightarrow>
          if q_status s = Running \<and> timed \<and> \<not> wakes (queue (sem s)) p
          then Some (case qs_timeout p (sem s) of
               None \<Rightarrow> s\<lparr>q_status := Faulted\<rparr>
             | Some s' \<Rightarrow> s\<lparr>sem := s', qpcs := (qpcs s)(t := Q_out),
                  q_log := q_log s @ [Timed_out t request]\<rparr>)
          else None
      | Q_out \<Rightarrow> None)"
| "qsem_step (Q_try_acquire request) s =
     (if q_status s = Running
      then (let (ok, s') = qs_try_acquire request (sem s)
            in Some (s\<lparr>sem := s', q_log := q_log s @ (if ok then [Taken request] else [])\<rparr>))
      else None)"
| "qsem_step (Q_release request) s =
     (if q_status s = Running
      then Some (case qs_release request (sem s) of
               None \<Rightarrow> s\<lparr>q_status := Faulted\<rparr>
             | Some s' \<Rightarrow> s\<lparr>sem := s', q_log := q_log s @ [Returned request]\<rparr>)
      else None)"

section \<open>The request record as a multiset\<close>

definition record_inv :: "record_map \<Rightarrow> bool" where
  "record_inv m \<longleftrightarrow> sorted (map fst m) \<and> distinct (map fst m) \<and> (\<forall>c \<in> snd ` set m. 0 < c)"

definition record_count :: "record_map \<Rightarrow> u32 \<Rightarrow> nat" where
  "record_count m r = (case map_of m r of None \<Rightarrow> 0 | Some c \<Rightarrow> c)"

lemma map_fst_insort_key: "map fst (insort_key fst x m) = insort (fst x) (map fst m)"
  by (induction m) auto

lemma map_of_insort_key:
  "k \<notin> fst ` set m \<Longrightarrow> map_of (insort_key fst (k, v) m) = (map_of m)(k \<mapsto> v)"
  by (induction m) auto

lemma set_update_subset: "set (AList.update k v m) \<subseteq> insert (k, v) (set m)"
  by (induction m) auto

lemma record_insert_inv: "record_inv m \<Longrightarrow> record_inv (request_record_insert r m)"
proof (cases "map_of m r")
  case None
  assume m: "record_inv m"
  have "request_record_insert r m = insort_key fst (r, 1) m"
    using None by (simp add: request_record_insert_def)
  moreover have "r \<notin> set (map fst m)" using None by (simp add: map_of_eq_None_iff)
  ultimately show ?thesis using m
    by (auto simp: record_inv_def map_fst_insort_key sorted_insort distinct_insort set_insort_key)
next
  case (Some c)
  assume m: "record_inv m"
  have "r \<in> set (map fst m)" using map_of_SomeD [OF Some] by force
  then have "map fst (AList.update r (c + 1) m) = map fst m" by (simp add: update_keys)
  moreover have "\<forall>d \<in> snd ` set (AList.update r (c + 1) m). 0 < d"
    using m set_update_subset [of r "c + 1" m] by (fastforce simp: record_inv_def)
  ultimately show ?thesis
    using m Some by (simp add: record_inv_def request_record_insert_def)
qed

lemma record_insert_count:
  "record_count (request_record_insert r m) = (record_count m)(r := Suc (record_count m r))"
proof (cases "map_of m r")
  case None
  have "request_record_insert r m = insort_key fst (r, 1) m"
    using None by (simp add: request_record_insert_def)
  moreover have "r \<notin> fst ` set m" using None by (simp add: map_of_eq_None_iff)
  ultimately show ?thesis
    using None by (simp add: record_count_def map_of_insort_key fun_eq_iff)
qed (simp add: record_count_def request_record_insert_def fun_eq_iff)

lemma sorted_map_fst_delete:
  "sorted (map fst m) \<Longrightarrow> sorted (map fst (AList.delete k m))"
  by (simp add: delete_keys removeAll_filter_not_eq sorted_filter [of "\<lambda>x. x", simplified])

lemma record_remove_inv: "record_inv m \<Longrightarrow> record_inv (request_record_remove r m)"
proof (cases "map_of m r")
  case None
  assume "record_inv m"
  with None show ?thesis by (simp add: request_record_remove_def)
next
  case (Some c)
  assume m: "record_inv m"
  have r: "r \<in> set (map fst m)" and c: "0 < c"
    using map_of_SomeD [OF Some] m by (force simp: record_inv_def)+
  show ?thesis
  proof (cases "c = 1")
    case True
    have "set (AList.delete r m) \<subseteq> set m" by (auto simp: AList.delete_eq)
    then show ?thesis
      using m Some True
      by (auto simp: record_inv_def request_record_remove_def sorted_map_fst_delete distinct_delete)
  next
    case False
    have "map fst (AList.update r (c - 1) m) = map fst m" using r by (simp add: update_keys)
    moreover have "\<forall>d \<in> snd ` set (AList.update r (c - 1) m). 0 < d"
      using m c False set_update_subset [of r "c - 1" m] by (fastforce simp: record_inv_def)
    ultimately show ?thesis
      using m Some False by (simp add: record_inv_def request_record_remove_def)
  qed
qed

lemma record_remove_count:
  "record_count (request_record_remove r m) = (record_count m)(r := record_count m r - 1)"
  by (cases "map_of m r") (auto simp: record_count_def request_record_remove_def fun_eq_iff)

lemma record_keys:
  "record_inv m \<Longrightarrow> k \<in> fst ` set m \<longleftrightarrow> 0 < record_count m k"
  by (force simp: record_inv_def record_count_def map_of_eq_None_iff split: option.splits
      dest: map_of_SomeD)

lemma record_min_spec:
  assumes "record_inv m" "record_count m = count M"
  shows "request_record_min m = (if M = {#} then 0 else Min (set_mset M))"
proof -
  have k: "fst ` set m = set_mset M"
    using record_keys [OF assms(1)] assms(2) by (auto simp: set_eq_iff)
  show ?thesis
  proof (cases m)
    case Nil
    with k have "set_mset M = {}" by simp
    then have "M = {#}" by (simp only: set_mset_eq_empty_iff)
    with Nil show ?thesis by (simp add: request_record_min_def)
  next
    case (Cons x m')
    then have "Min (set_mset M) = fst x"
      using assms(1) k [symmetric] by (intro Min_eqI) (auto simp: record_inv_def)
    with Cons k show ?thesis by (auto simp: request_record_min_def split: prod.splits)
  qed
qed

section \<open>The abstract semaphore\<close>

text \<open>
  The specification the pointer code is compared with: a list of waiting calls in queue order, one
  flag for "the first of them has been woken", the permits, and the outstanding requests as a
  multiset.  It has no nodes, no cache and no undefined behaviour.
\<close>

record aqsem =
  aq_permits :: u32
  aq_waiting :: "(tid \<times> u32 \<times> bool) list"
  aq_woken :: bool
  aq_record :: "u32 multiset"
  aq_status :: q_status
  aq_log :: "q_entry list"

definition aqsem_init :: "u32 \<Rightarrow> aqsem" where
  "aqsem_init n = \<lparr>aq_permits = n, aq_waiting = [], aq_woken = False, aq_record = {#},
     aq_status = Running, aq_log = []\<rparr>"

definition aq_min :: "u32 multiset \<Rightarrow> u32" where
  "aq_min M = (if M = {#} then 0 else Min (set_mset M))"

definition enough :: "aqsem \<Rightarrow> bool" where
  "enough a \<longleftrightarrow> sint (aq_min (aq_record a)) \<le> sint (aq_permits a) \<and> aq_waiting a \<noteq> []"

definition aq_wake :: "aqsem \<Rightarrow> aqsem" where
  "aq_wake a = a\<lparr>aq_woken := aq_woken a \<or> enough a\<rparr>"

definition aq_grant :: "u32 \<Rightarrow> aqsem \<Rightarrow> aqsem" where
  "aq_grant r a = aq_wake (a\<lparr>aq_record := aq_record a - {#r#}, aq_permits := aq_permits a - r\<rparr>)"

fun aq_step :: "q_event \<Rightarrow> aqsem \<Rightarrow> aqsem option" where
  "aq_step (Q_acquire t r timed) a =
     (if aq_status a = Running \<and> map_of (aq_waiting a) t = None
      then Some (if sint r \<le> sint (aq_permits a) \<and> aq_waiting a = []
        then a\<lparr>aq_permits := aq_permits a - r, aq_log := aq_log a @ [Arrived t r, Granted t r]\<rparr>
        else a\<lparr>aq_record := add_mset r (aq_record a), aq_waiting := aq_waiting a @ [(t, r, timed)],
               aq_log := aq_log a @ [Arrived t r]\<rparr>)
      else None)"
| "aq_step (Q_resume t) a =
     (case aq_waiting a of
        [] \<Rightarrow> None
      | (u, r, timed) # ws \<Rightarrow>
          if aq_status a = Running \<and> u = t \<and> aq_woken a
          then Some (if sint r \<le> sint (aq_permits a)
            then (let b = aq_grant r (a\<lparr>aq_waiting := ws, aq_woken := False\<rparr>)
                  in b\<lparr>aq_log := aq_log a @ [Granted t r],
                       aq_status := (if sint (aq_permits b) < 0 then Terminated else Running)\<rparr>)
            else a\<lparr>aq_waiting := ws @ [(t, r, timed)], aq_woken := False\<rparr>)
          else None)"
| "aq_step (Q_timeout t) a =
     (case map_of (aq_waiting a) t of
        None \<Rightarrow> None
      | Some (r, timed) \<Rightarrow>
          if aq_status a = Running \<and> timed \<and> \<not> (aq_woken a \<and> fst (hd (aq_waiting a)) = t)
          then Some (a\<lparr>aq_waiting := AList.delete t (aq_waiting a),
                       aq_log := aq_log a @ [Timed_out t r]\<rparr>)
          else None)"
| "aq_step (Q_try_acquire r) a =
     (if aq_status a = Running
      then Some (if r \<le> aq_permits a
        then a\<lparr>aq_permits := aq_permits a - r, aq_log := aq_log a @ [Taken r]\<rparr> else a)
      else None)"
| "aq_step (Q_release r) a =
     (if aq_status a = Running
      then Some ((aq_wake (a\<lparr>aq_permits := aq_permits a + r\<rparr>))\<lparr>aq_log := aq_log a @ [Returned r]\<rparr>)
      else None)"

section \<open>The code implements the abstract semaphore\<close>

text \<open>
  \<open>queue_match q ns w\<close>: the queue holds the nodes \<open>ns\<close>, none but the first has been woken,
  and the first has exactly when \<open>w\<close>.
\<close>

definition queue_match :: "wait_queue \<Rightarrow> ptr list \<Rightarrow> bool \<Rightarrow> bool" where
  "queue_match q ns w \<longleftrightarrow> wq_list q ns \<and> head_only (wakes q) ns \<and>
     (w \<longleftrightarrow> (case ns of [] \<Rightarrow> False | p # _ \<Rightarrow> wakes q p))"

definition record_match :: "record_map \<Rightarrow> u32 multiset \<Rightarrow> bool" where
  "record_match m M \<longleftrightarrow> record_inv m \<and> record_count m = count M"

text \<open>A waiting call with its node: \<open>(thread, node, request, timed)\<close>.\<close>

type_synonym waiter = "tid \<times> ptr \<times> u32 \<times> bool"

definition node_of :: "waiter \<Rightarrow> ptr" where
  "node_of w = fst (snd w)"

definition call_of :: "waiter \<Rightarrow> tid \<times> u32 \<times> bool" where
  "call_of w = (fst w, snd (snd w))"

definition pc_of :: "waiter list \<Rightarrow> tid \<Rightarrow> qpc" where
  "pc_of ws t = (case map_of ws t of None \<Rightarrow> Q_out | Some (p, r, b) \<Rightarrow> Q_wait p r b)"

definition q_match :: "waiter list \<Rightarrow> qsys \<Rightarrow> aqsem \<Rightarrow> bool" where
  "q_match ws s a \<longleftrightarrow>
     queue_match (queue (sem s)) (map node_of ws) (aq_woken a) \<and> distinct (map fst ws) \<and>
     aq_waiting a = map call_of ws \<and> qpcs s = pc_of ws \<and>
     permits (sem s) = aq_permits a \<and> record_match (request_record (sem s)) (aq_record a) \<and>
     q_status s = aq_status a \<and> q_log s = aq_log a"

definition q_rel :: "qsys \<Rightarrow> aqsem \<Rightarrow> bool" where
  "q_rel s a \<longleftrightarrow> (\<exists>ws. q_match ws s a)"

lemma waiter_sel [simp]: "node_of (t, p, c) = p" "call_of (t, p, c) = (t, c)"
  by (simp_all add: node_of_def call_of_def)

lemma map_of_calls: "map_of (map call_of ws) t = map_option snd (map_of ws t)"
  by (induction ws) (auto simp: call_of_def)

lemma pc_of_simps [simp]:
  "pc_of ws t = Q_out \<longleftrightarrow> map_of ws t = None"
  "pc_of ws t = Q_wait p r b \<longleftrightarrow> map_of ws t = Some (p, r, b)"
  by (auto simp: pc_of_def split: option.splits)

lemma pc_of_delete: "pc_of (AList.delete t ws) = (pc_of ws)(t := Q_out)"
  by (auto simp: pc_of_def fun_eq_iff)

lemma pc_of_snoc: "map_of ws t = None \<Longrightarrow> pc_of (ws @ [(t, p, r, b)]) = (pc_of ws)(t := Q_wait p r b)"
  by (auto simp: pc_of_def fun_eq_iff map_add_def split: option.splits)

lemma pc_of_tl:
  "distinct (map fst ((t, c) # ws)) \<Longrightarrow> pc_of ws = (pc_of ((t, c) # ws))(t := Q_out)"
  by (force simp: pc_of_def fun_eq_iff map_of_eq_None_iff split: option.splits)

subsection \<open>Queue and record steps\<close>

lemma queue_match_woken:
  assumes "queue_match q ns w" "p \<in> set ns"
  shows "wakes q p \<longleftrightarrow> w \<and> p = hd ns"
  using assms wq_list_distinct [of q ns]
  by (cases ns) (auto simp: queue_match_def head_only_def)

lemma queue_match_enqueue:
  assumes "queue_match q ns w"
  obtains p q' where "enqueue q = Some (p, q')" "p \<notin> set ns" "queue_match q' (ns @ [p]) w"
proof -
  obtain p q' where e: "enqueue q = Some (p, q')" "p \<notin> set ns" "wq_list q' (ns @ [p])"
    "wakes q' = (wakes q)(p := False)" "head_only (wakes q') (ns @ [p])"
    using assms wq.enq_head_only [of q ns] unfolding queue_match_def by blast
  have "queue_match q' (ns @ [p]) w"
    using assms e by (cases ns) (auto simp: queue_match_def)
  with e(1,2) show ?thesis by (rule that)
qed

lemma queue_match_dequeue:
  assumes "queue_match q (p # ns) w"
  obtains q' where "dequeue q = Some q'" "queue_match q' ns False"
proof -
  obtain q' where d: "dequeue q = Some q'" "wq_list q' ns" "\<forall>p \<in> set ns. \<not> wakes q' p"
    using assms wq.deq_head_only [of q p ns] unfolding queue_match_def by blast
  then have "queue_match q' ns False"
    by (cases ns) (auto simp: queue_match_def head_only_def)
  with d(1) show ?thesis by (rule that)
qed

lemma queue_match_remove:
  assumes "queue_match q ns w" "p \<in> set ns" "\<not> wakes q p"
  obtains q' where "remove (Some p) q = Some q'" "queue_match q' (remove1 p ns) w"
proof -
  obtain q' where r: "remove (Some p) q = Some q'" "wq_list q' (remove1 p ns)" "wakes q' = wakes q"
    "head_only (wakes q') (remove1 p ns)"
    using assms wq.rem_head_only [of q ns p] unfolding queue_match_def by blast
  have "queue_match q' (remove1 p ns) w"
  proof (cases ns)
    case Nil
    then show ?thesis using assms(2) by simp
  next
    case (Cons x ms)
    have ms: "\<forall>y \<in> set ms. \<not> wakes q y" and w: "w \<longleftrightarrow> wakes q x"
      using assms(1) Cons by (simp_all add: queue_match_def head_only_def)
    have "w \<longleftrightarrow> (case remove1 p ns of [] \<Rightarrow> False | y # _ \<Rightarrow> wakes q y)"
      using ms w assms(3) Cons by (cases "p = x") (simp_all split: list.split)
    then show ?thesis using r(2,4) unfolding queue_match_def r(3) by simp
  qed
  with r(1) show ?thesis by (rule that)
qed

lemma wake_if_enough_match:
  assumes "queue_match (queue s) ns w" "record_match (request_record s) M"
  obtains q' where "wake_if_enough s = Some (s\<lparr>queue := q'\<rparr>)"
    "queue_match q' ns (w \<or> sint (aq_min M) \<le> sint (permits s) \<and> ns \<noteq> [])"
proof -
  have min: "request_record_min (request_record s) = aq_min M"
    using assms(2) by (simp add: record_match_def record_min_spec aq_min_def)
  obtain q' where q': "wake_head (queue s) = Some q'" "wq_list q' ns" "head_only (wakes q') ns"
    "wakes q' = (case ns of [] \<Rightarrow> wakes (queue s) | x # _ \<Rightarrow> (wakes (queue s))(x := True))"
    using assms(1) wq.wake_head_only [of "queue s" ns] unfolding queue_match_def by blast
  show ?thesis
  proof (cases "sint (aq_min M) \<le> sint (permits s)")
    case True
    have "queue_match q' ns (w \<or> ns \<noteq> [])"
      using assms(1) q' by (cases ns) (auto simp: queue_match_def)
    with True show ?thesis using q'(1) min by (intro that [of q']) (auto simp: wake_if_enough_def)
  next
    case False
    with assms(1) min show ?thesis
      by (intro that [of "queue s"]) (auto simp: wake_if_enough_def)
  qed
qed

lemma record_match_insert:
  "record_match m M \<Longrightarrow> record_match (request_record_insert r m) (add_mset r M)"
  by (auto simp: record_match_def record_insert_inv record_insert_count fun_eq_iff)

lemma record_match_remove:
  "record_match m M \<Longrightarrow> record_match (request_record_remove r m) (M - {#r#})"
  by (auto simp: record_match_def record_remove_inv record_remove_count fun_eq_iff)

subsection \<open>Simulation of every event\<close>

lemma qs_wait_match:
  assumes "queue_match (queue s) ns w"
  obtains p q' where "qs_wait s = Some (Some p, s\<lparr>queue := q'\<rparr>)" "queue_match q' (ns @ [p]) w"
  using queue_match_enqueue [OF assms] that by (auto simp: qs_wait_def)

lemma q_match_queue:
  "q_match ws s a \<Longrightarrow> queue_match (queue (sem s)) (map node_of ws) (aq_woken a)"
  by (simp add: q_match_def)

lemma q_match_empty: "q_match ws s a \<Longrightarrow> is_empty (queue (sem s)) \<longleftrightarrow> ws = []"
  using wq_list_is_empty [of "queue (sem s)" "map node_of ws"]
  by (simp add: q_match_def queue_match_def)

lemma sim_acquire:
  assumes m: "q_match ws s a"
  shows "rel_option q_rel (qsem_step (Q_acquire t r timed) s) (aq_step (Q_acquire t r timed) a)"
proof (cases "q_status s = Running \<and> map_of ws t = None")
  case False
  with m show ?thesis by (auto simp: q_match_def map_of_calls)
next
  case en: True
  show ?thesis
  proof (cases "sint r \<le> sint (permits (sem s)) \<and> ws = []")
    case True
    with m en q_match_empty [OF m] show ?thesis
      by (auto simp: qs_enter_def settle_def q_rel_def q_match_def pc_of_def fun_eq_iff)
  next
    case False
    let ?s = "sem s\<lparr>request_record := request_record_insert r (request_record (sem s))\<rparr>"
    obtain p q' where w: "qs_wait ?s = Some (Some p, ?s\<lparr>queue := q'\<rparr>)"
      "queue_match q' (map node_of ws @ [p]) (aq_woken a)"
      using q_match_queue [OF m] by (auto intro: qs_wait_match [of ?s "map node_of ws"])
    let ?s' = "s\<lparr>sem := ?s\<lparr>queue := q'\<rparr>, qpcs := (qpcs s)(t := Q_wait p r timed),
      q_log := q_log s @ [Arrived t r]\<rparr>"
    let ?a' = "a\<lparr>aq_record := add_mset r (aq_record a), aq_waiting := aq_waiting a @ [(t, r, timed)],
      aq_log := aq_log a @ [Arrived t r]\<rparr>"
    have "qsem_step (Q_acquire t r timed) s = Some ?s'"
      using False m en q_match_empty [OF m] w(1)
      by (auto simp: q_match_def qs_enter_def settle_def)
    moreover have "aq_step (Q_acquire t r timed) a = Some ?a'"
      using False m en by (auto simp: q_match_def map_of_calls)
    moreover have "q_match (ws @ [(t, p, r, timed)]) ?s' ?a'"
      using m en w(2) by (auto simp: q_match_def record_match_insert pc_of_snoc map_of_eq_None_iff)
    ultimately show ?thesis by (auto simp: q_rel_def)
  qed
qed

lemma sim_try_acquire:
  assumes "q_match ws s a"
  shows "rel_option q_rel (qsem_step (Q_try_acquire r) s) (aq_step (Q_try_acquire r) a)"
  using assms by (auto simp: q_rel_def q_match_def qs_try_acquire_def)

lemma sim_release:
  assumes m: "q_match ws s a"
  shows "rel_option q_rel (qsem_step (Q_release r) s) (aq_step (Q_release r) a)"
proof (cases "q_status s = Running")
  case False
  with m show ?thesis by (simp add: q_match_def)
next
  case True
  let ?s = "sem s\<lparr>permits := permits (sem s) + r\<rparr>"
  let ?a = "aq_wake (a\<lparr>aq_permits := aq_permits a + r\<rparr>)"
  obtain q' where w: "wake_if_enough ?s = Some (?s\<lparr>queue := q'\<rparr>)"
    "queue_match q' (map node_of ws) (aq_woken ?a)"
    using m wake_if_enough_match [of ?s "map node_of ws" "aq_woken a" "aq_record a"]
    by (auto simp: q_match_def aq_wake_def enough_def)
  have "q_match ws (s\<lparr>sem := ?s\<lparr>queue := q'\<rparr>, q_log := q_log s @ [Returned r]\<rparr>)
      (?a\<lparr>aq_log := aq_log a @ [Returned r]\<rparr>)"
    using m w(2) by (simp add: q_match_def aq_wake_def)
  moreover have "qsem_step (Q_release r) s
      = Some (s\<lparr>sem := ?s\<lparr>queue := q'\<rparr>, q_log := q_log s @ [Returned r]\<rparr>)"
    using True w(1) by (simp add: qs_release_def)
  moreover have "aq_step (Q_release r) a = Some (?a\<lparr>aq_log := aq_log a @ [Returned r]\<rparr>)"
    using True m by (simp add: q_match_def aq_wake_def)
  ultimately show ?thesis by (auto simp: q_rel_def)
qed

lemma sim_timeout:
  assumes m: "q_match ws s a"
  shows "rel_option q_rel (qsem_step (Q_timeout t) s) (aq_step (Q_timeout t) a)"
proof (cases "map_of ws t")
  case None
  with m show ?thesis by (auto simp: q_match_def map_of_calls pc_of_def)
next
  case (Some c)
  then obtain p r timed where c: "map_of ws t = Some (p, r, timed)" by (cases c) auto
  have d: "distinct (map fst ws)" "distinct (map node_of ws)"
    using m wq_list_distinct by (auto simp: q_match_def queue_match_def)
  obtain as bs where ws: "ws = as @ (t, p, r, timed) # bs"
    using c by (meson map_of_SomeD split_list)
  have p: "p \<in> set (map node_of ws)" using ws by simp
  have wk: "wakes (queue (sem s)) p \<longleftrightarrow> aq_woken a \<and> fst (hd (aq_waiting a)) = t"
    using queue_match_woken [OF q_match_queue [OF m] p] m d ws
    by (cases as) (auto simp: q_match_def call_of_def node_of_def)
  have pc: "qpcs s t = Q_wait p r timed" "map_of (aq_waiting a) t = Some (r, timed)"
    "q_status s = aq_status a"
    using m c by (simp_all add: q_match_def map_of_calls)
  show ?thesis
  proof (cases "q_status s = Running \<and> timed \<and> \<not> wakes (queue (sem s)) p")
    case False
    with pc wk show ?thesis by auto
  next
    case True
    then obtain q' where q': "remove (Some p) (queue (sem s)) = Some q'"
      "queue_match q' (remove1 p (map node_of ws)) (aq_woken a)"
      using queue_match_remove [OF q_match_queue [OF m] p] by blast
    have "AList.delete t ws = as @ bs" using d(1) ws by (simp add: delete_split)
    moreover have "AList.delete t (map call_of ws) = map call_of (AList.delete t ws)"
      by (simp add: AList.delete_eq filter_map o_def call_of_def split_def)
    moreover have "remove1 p (map node_of ws) = map node_of (as @ bs)"
      using d(2) ws by (simp add: remove1_append)
    ultimately have "q_match (as @ bs) (s\<lparr>sem := (sem s)\<lparr>queue := q'\<rparr>, qpcs := (qpcs s)(t := Q_out),
        q_log := q_log s @ [Timed_out t r]\<rparr>)
        (a\<lparr>aq_waiting := AList.delete t (aq_waiting a), aq_log := aq_log a @ [Timed_out t r]\<rparr>)"
      using m q' d(1) ws pc_of_delete [of t ws] by (simp add: q_match_def)
    with True pc wk q' show ?thesis by (auto simp: qs_timeout_def q_rel_def)
  qed
qed

text \<open>The thread that can resume is the head of the queue, when it has been woken.\<close>

lemma resume_enabled:
  assumes m: "q_match ws s a"
  shows "(\<exists>p r timed. map_of ws t = Some (p, r, timed) \<and> wakes (queue (sem s)) p)
      \<longleftrightarrow> (\<exists>c vs. ws = (t, c) # vs \<and> aq_woken a)" (is "?L \<longleftrightarrow> ?R")
proof
  assume ?L
  then obtain p r timed where c: "map_of ws t = Some (p, r, timed)" "wakes (queue (sem s)) p" by blast
  have p: "p \<in> set (map node_of ws)" using map_of_SomeD [OF c(1)] by force
  with queue_match_woken [OF q_match_queue [OF m] p] c(2)
  have "aq_woken a" "p = hd (map node_of ws)" by simp_all
  moreover have "distinct (map node_of ws)"
    using m wq_list_distinct by (auto simp: q_match_def queue_match_def)
  ultimately show ?R
    using map_of_SomeD [OF c(1)] by (cases ws) (auto simp: node_of_def image_iff)
next
  assume ?R
  then obtain c vs where "ws = (t, c) # vs" "aq_woken a" by blast
  then show ?L using queue_match_woken [OF q_match_queue [OF m], of "fst c"] by (cases c) auto
qed

lemma resume_view:
  assumes m: "q_match ((t, p, r, timed) # vs) s a" and w: "aq_woken a"
  obtains q' where "dequeue (queue (sem s)) = Some q'" "queue_match q' (map node_of vs) False"
    "qpcs s t = Q_wait p r timed" "wakes (queue (sem s)) p" "map_of vs t = None"
    "qpcs s = pc_of ((t, p, r, timed) # vs)" "pc_of vs = (pc_of ((t, p, r, timed) # vs))(t := Q_out)"
    "permits (sem s) = aq_permits a"
proof -
  from q_match_queue [OF m] w have "queue_match (queue (sem s)) (p # map node_of vs) True" by simp
  then obtain q' where q': "dequeue (queue (sem s)) = Some q'" "queue_match q' (map node_of vs) False"
    by (rule queue_match_dequeue)
  moreover have "qpcs s t = Q_wait p r timed" "wakes (queue (sem s)) p" "map_of vs t = None"
    "qpcs s = pc_of ((t, p, r, timed) # vs)" "pc_of vs = (pc_of ((t, p, r, timed) # vs))(t := Q_out)"
    "permits (sem s) = aq_permits a"
    using m w pc_of_tl [of t "(p, r, timed)" vs] queue_match_woken [OF q_match_queue [OF m], of p]
    by (auto simp: q_match_def map_of_eq_None_iff)
  ultimately show ?thesis using that by blast
qed

lemma sim_resume_wait:
  assumes m: "q_match ((t, p, r, timed) # vs) s a" and w: "aq_woken a" "q_status s = Running"
    and few: "\<not> sint r \<le> sint (aq_permits a)"
  shows "rel_option q_rel (qsem_step (Q_resume t) s) (aq_step (Q_resume t) a)"
proof -
  obtain q' where q': "dequeue (queue (sem s)) = Some q'" "queue_match q' (map node_of vs) False"
    and pc: "qpcs s t = Q_wait p r timed" "wakes (queue (sem s)) p" "map_of vs t = None"
    "qpcs s = pc_of ((t, p, r, timed) # vs)" "pc_of vs = (pc_of ((t, p, r, timed) # vs))(t := Q_out)"
    "permits (sem s) = aq_permits a" by (rule resume_view [OF m w(1)])
  let ?s = "(sem s)\<lparr>queue := q'\<rparr>"
  obtain p' q'' where w': "qs_wait ?s = Some (Some p', ?s\<lparr>queue := q''\<rparr>)"
    "queue_match q'' (map node_of vs @ [p']) False"
    using qs_wait_match [of ?s "map node_of vs" False] q'(2) by auto
  have "q_match (vs @ [(t, p', r, timed)])
      (s\<lparr>sem := ?s\<lparr>queue := q''\<rparr>, qpcs := (qpcs s)(t := Q_wait p' r timed)\<rparr>)
      (a\<lparr>aq_waiting := map call_of vs @ [(t, r, timed)], aq_woken := False\<rparr>)"
    using m w w'(2) pc pc_of_snoc [of vs t p' r timed] by (auto simp: q_match_def)
  moreover have "qsem_step (Q_resume t) s
      = Some (s\<lparr>sem := ?s\<lparr>queue := q''\<rparr>, qpcs := (qpcs s)(t := Q_wait p' r timed)\<rparr>)"
    using few w pc(1,2,6) q'(1) w'(1) by (simp add: qs_resume_def settle_def)
  moreover have "aq_step (Q_resume t) a
      = Some (a\<lparr>aq_waiting := map call_of vs @ [(t, r, timed)], aq_woken := False\<rparr>)"
    using few m w by (simp add: q_match_def)
  ultimately show ?thesis by (auto simp: q_rel_def)
qed

lemma sim_resume_grant:
  assumes m: "q_match ((t, p, r, timed) # vs) s a" and w: "aq_woken a" "q_status s = Running"
    and enough: "sint r \<le> sint (aq_permits a)"
  shows "rel_option q_rel (qsem_step (Q_resume t) s) (aq_step (Q_resume t) a)"
proof -
  obtain q' where q': "dequeue (queue (sem s)) = Some q'" "queue_match q' (map node_of vs) False"
    and pc: "qpcs s t = Q_wait p r timed" "wakes (queue (sem s)) p" "map_of vs t = None"
    "qpcs s = pc_of ((t, p, r, timed) # vs)" "pc_of vs = (pc_of ((t, p, r, timed) # vs))(t := Q_out)"
    "permits (sem s) = aq_permits a" by (rule resume_view [OF m w(1)])
  let ?s = "(sem s)\<lparr>queue := q', request_record := request_record_remove r (request_record (sem s)),
    permits := permits (sem s) - r\<rparr>"
  let ?a = "aq_grant r (a\<lparr>aq_waiting := map call_of vs, aq_woken := False\<rparr>)"
  have rm: "record_match (request_record ?s) (aq_record a - {#r#})"
    using m by (simp add: q_match_def record_match_remove)
  obtain q'' where w': "wake_if_enough ?s = Some (?s\<lparr>queue := q''\<rparr>)"
    "queue_match q'' (map node_of vs) (aq_woken ?a)"
    using wake_if_enough_match [of ?s "map node_of vs" False "aq_record a - {#r#}"] q'(2) rm pc(6)
    by (auto simp: aq_grant_def aq_wake_def enough_def)
  let ?st = "if sint (permits ?s) < 0 then Terminated else Running"
  have "q_match vs
      (s\<lparr>sem := ?s\<lparr>queue := q''\<rparr>, qpcs := (qpcs s)(t := Q_out),
        q_log := q_log s @ [Granted t r], q_status := ?st\<rparr>)
      (?a\<lparr>aq_log := aq_log a @ [Granted t r], aq_status := ?st\<rparr>)"
    using m w w'(2) pc rm by (auto simp: q_match_def aq_grant_def aq_wake_def)
  moreover have "qsem_step (Q_resume t) s = Some (s\<lparr>sem := ?s\<lparr>queue := q''\<rparr>,
      qpcs := (qpcs s)(t := Q_out), q_log := q_log s @ [Granted t r], q_status := ?st\<rparr>)"
    using enough w pc(1,2,6) q'(1) w'(1) by (simp add: qs_resume_def qs_finish_def settle_def)
  moreover have "aq_step (Q_resume t) a
      = Some (?a\<lparr>aq_log := aq_log a @ [Granted t r], aq_status := ?st\<rparr>)"
    using enough m w pc(6) by (simp add: q_match_def Let_def aq_grant_def aq_wake_def)
  ultimately show ?thesis by (auto simp: q_rel_def)
qed

lemma sim_resume:
  assumes m: "q_match ws s a"
  shows "rel_option q_rel (qsem_step (Q_resume t) s) (aq_step (Q_resume t) a)"
proof (cases "(\<exists>c vs. ws = (t, c) # vs \<and> aq_woken a) \<and> q_status s = Running")
  case False
  have "qsem_step (Q_resume t) s = None"
  proof (cases "map_of ws t")
    case None
    with m show ?thesis by (simp add: q_match_def pc_of_def)
  next
    case (Some c)
    with resume_enabled [OF m, of t] False m show ?thesis
      by (cases c) (auto simp: q_match_def pc_of_def simp del: split_paired_Ex)
  qed
  moreover have "aq_step (Q_resume t) a = None"
    using False m by (cases ws) (auto simp: q_match_def call_of_def split: prod.splits)
  ultimately show ?thesis by simp
next
  case True
  then obtain p r timed vs where ws: "ws = (t, p, r, timed) # vs" "aq_woken a" "q_status s = Running"
    by (metis prod_cases3)
  with sim_resume_wait sim_resume_grant m show ?thesis
    by (cases "sint r \<le> sint (aq_permits a)") blast+
qed

lemma qsem_bisim: "q_rel s a \<Longrightarrow> rel_option q_rel (qsem_step e s) (aq_step e a)"
  by (cases e) (auto simp only: q_rel_def intro: sim_acquire sim_resume sim_timeout
      sim_try_acquire sim_release)

interpretation qsim: bisim_system qsem_step aq_step q_rel
  by unfold_locales (rule qsem_bisim)

lemma q_rel_init: "q_rel (qsys_init n) (aqsem_init n)"
  unfolding q_rel_def
  by (rule exI [of _ "[]"])
    (simp add: q_match_def qsys_init_def aqsem_init_def QueuedSemaphore_def queue_match_def
      wq_list_WaitQueue head_only_def pc_of_def fun_eq_iff record_match_def record_inv_def
      record_count_def)

text \<open>What a caller can observe, in the code's state and in the abstract one.\<close>

definition qsem_view :: "qsys \<Rightarrow> int \<times> u32 option \<times> q_status \<times> q_entry list" where
  "qsem_view s = (available_permits (sem s), num_waiting_nodes (queue (sem s)), q_status s, q_log s)"

definition aqsem_view :: "aqsem \<Rightarrow> int \<times> u32 option \<times> q_status \<times> q_entry list" where
  "aqsem_view a = (sint (aq_permits a), Some (of_nat (length (aq_waiting a))), aq_status a, aq_log a)"

lemma q_rel_view: "q_rel s a \<Longrightarrow> qsem_view s = aqsem_view a"
  by (auto simp: q_rel_def q_match_def queue_match_def wq_list_def num_waiting_nodes_spec
      qsem_view_def aqsem_view_def available_permits_def)

lemma q_rel_woken_head:
  assumes "q_rel s a" "qpcs s t = Q_wait p r timed" "wakes (queue (sem s)) p"
  shows "q_head (queue (sem s)) = Some p"
proof -
  obtain ws where m: "q_match ws s a" using assms(1) by (auto simp: q_rel_def)
  have "(t, p, r, timed) \<in> set ws" using m assms(2) by (auto simp: q_match_def dest: map_of_SomeD)
  then have p: "p \<in> set (map node_of ws)" by force
  have "wq_list (queue (sem s)) (map node_of ws)" using m by (simp add: q_match_def queue_match_def)
  from wq_list_head [OF this] queue_match_woken [OF q_match_queue [OF m] p] p assms(3)
  show ?thesis by (cases ws) auto
qed

section \<open>Accounting on the abstract semaphore\<close>

definition requests_of :: "(tid \<times> u32 \<times> bool) list \<Rightarrow> u32 multiset" where
  "requests_of ws = mset (map (fst \<circ> snd) ws)"

lemma requests_of_simps [simp]:
  "requests_of [] = {#}" "requests_of (ws @ vs) = requests_of ws + requests_of vs"
  "requests_of ((t, r, b) # ws) = add_mset r (requests_of ws)"
  by (simp_all add: requests_of_def)

lemma requests_of_empty [simp]: "requests_of ws = {#} \<longleftrightarrow> ws = []"
  by (simp add: requests_of_def)

lemma aq_wake_sel [simp]:
  "aq_permits (aq_wake a) = aq_permits a" "aq_waiting (aq_wake a) = aq_waiting a"
  "aq_record (aq_wake a) = aq_record a" "aq_status (aq_wake a) = aq_status a"
  "aq_log (aq_wake a) = aq_log a" "aq_woken (aq_wake a) \<longleftrightarrow> aq_woken a \<or> enough a"
  by (simp_all add: aq_wake_def)

lemma aq_grant_sel [simp]:
  "aq_permits (aq_grant r a) = aq_permits a - r" "aq_waiting (aq_grant r a) = aq_waiting a"
  "aq_record (aq_grant r a) = aq_record a - {#r#}" "aq_status (aq_grant r a) = aq_status a"
  "aq_log (aq_grant r a) = aq_log a"
  by (simp_all add: aq_grant_def)

text \<open>
  The books of the semaphore: the permits are the initial ones plus what came back minus what was
  handed out, and the request record holds the waiting requests and, because the timeout branch
  does not remove its entry, every request that ever timed out.
\<close>

definition aq_books :: "u32 \<Rightarrow> aqsem \<Rightarrow> bool" where
  "aq_books n a \<longleftrightarrow>
     aq_permits a = n + of_nat (returned (aq_log a)) - of_nat (handed (aq_log a)) \<and>
     aq_record a = requests_of (aq_waiting a) + expired (aq_log a) \<and>
     distinct (map fst (aq_waiting a)) \<and> aq_status a \<noteq> Faulted \<and>
     (aq_woken a \<longrightarrow> aq_waiting a \<noteq> [])"

lemma requests_of_delete:
  assumes "distinct (map fst ws)" "map_of ws t = Some (r, b)"
  shows "requests_of ws = add_mset r (requests_of (AList.delete t ws))"
proof -
  obtain xs ys where "ws = xs @ (t, r, b) # ys" using assms(2) by (meson map_of_SomeD split_list)
  with assms(1) show ?thesis by (simp add: delete_split)
qed

lemma delete_keeps_hd:
  "\<lbrakk> ws \<noteq> []; fst (hd ws) \<noteq> t \<rbrakk> \<Longrightarrow> AList.delete t ws \<noteq> []"
  by (cases ws) (auto simp: AList.delete_eq)

lemma aq_books_init: "aq_books n (aqsem_init n)"
  by (simp add: aq_books_def aqsem_init_def)

lemma aq_books_step: "\<lbrakk> aq_books n a; aq_step e a = Some b \<rbrakk> \<Longrightarrow> aq_books n b"
proof (cases e)
  case (Q_acquire t r timed)
  assume "aq_books n a" "aq_step e a = Some b"
  with Q_acquire show ?thesis
    by (auto simp: aq_books_def map_of_eq_None_iff split: if_splits)
next
  case (Q_resume t)
  assume "aq_books n a" "aq_step e a = Some b"
  with Q_resume show ?thesis
    by (auto simp: aq_books_def aq_grant_def enough_def Let_def split: if_splits list.splits)
next
  case (Q_timeout t)
  assume "aq_books n a" "aq_step e a = Some b"
  with Q_timeout requests_of_delete [of "aq_waiting a" t] delete_keeps_hd [of "aq_waiting a" t]
  show ?thesis
    by (auto simp: aq_books_def distinct_delete split: if_splits option.splits)
qed (auto simp: aq_books_def enough_def split: if_splits)

interpretation aqb: inv_system aq_step "aq_books n" for n
  by unfold_locales (rule aq_books_step)

section \<open>Within the range of \<open>int\<close>\<close>

text \<open>
  \<open>in_range n a\<close>: the free permits have never exceeded the range of \<open>int\<close>.  The laws below hold as
  long as that is so, for schedules whose requests are non-negative as \<open>int\<close>.
\<close>

definition in_range :: "u32 \<Rightarrow> aqsem \<Rightarrow> bool" where
  "in_range n a \<longleftrightarrow> fits n (aq_log a)"

fun amount :: "q_event \<Rightarrow> u32" where
  "amount (Q_acquire t r timed) = r"
| "amount (Q_try_acquire r) = r"
| "amount (Q_release r) = r"
| "amount _ = 0"

definition small :: "q_event \<Rightarrow> bool" where
  "small e \<longleftrightarrow> unat (amount e) < 2 ^ 31"

lemma aq_log_grows: "aq_step e a = Some b \<Longrightarrow> \<exists>l. aq_log b = aq_log a @ l"
  by (cases e) (auto simp: Let_def split: if_splits list.splits option.splits)

lemma in_range_step: "\<lbrakk> aq_step e a = Some b; in_range n b \<rbrakk> \<Longrightarrow> in_range n a"
  using aq_log_grows [of e a b] fits_append by (auto simp: in_range_def)

definition aq_sound :: "u32 \<Rightarrow> aqsem \<Rightarrow> bool" where
  "aq_sound n a \<longleftrightarrow> (in_range n a \<longrightarrow> aq_status a = Running \<and>
     unat (aq_permits a) + handed (aq_log a) = unat n + returned (aq_log a) \<and>
     (\<forall>(t, r, b) \<in> set (aq_waiting a). unat r < 2 ^ 31))"

lemma sound_permits:
  "\<lbrakk> aq_sound n a; in_range n a \<rbrakk> \<Longrightarrow> unat (aq_permits a) < 2 ^ 31"
  using fits_now [of n "aq_log a"] by (simp add: aq_sound_def in_range_def)

lemma aq_sound_init: "aq_sound n (aqsem_init n)"
  by (simp add: aq_sound_def aqsem_init_def)

text \<open>The head of the queue is granted its request, or waits on.\<close>

lemma resume_sound:
  assumes a: "aq_status a = Running" "unat (aq_permits a) < 2 ^ 31" "\<forall>(t, r, b) \<in> set (aq_waiting a). unat r < 2 ^ 31"
    and acc: "unat (aq_permits a) + handed (aq_log a) = unat n + returned (aq_log a)"
    and step: "aq_step (Q_resume t) a = Some b"
  shows "aq_status b = Running \<and> unat (aq_permits b) + handed (aq_log b) = unat n + returned (aq_log b) \<and>
    (\<forall>(t, r, b) \<in> set (aq_waiting b). unat r < 2 ^ 31)"
proof -
  obtain r timed ws where w: "aq_waiting a = (t, r, timed) # ws"
    using step by (auto split: list.splits if_splits)
  then have r: "unat r < 2 ^ 31" using a(3) by simp
  show ?thesis
  proof (cases "sint r \<le> sint (aq_permits a)")
    case True
    then have le: "r \<le> aq_permits a" using sint_le_small [OF a(2) r] by simp
    have "unat (aq_permits a - r) < 2 ^ 31" using take_small [OF le] a(2) by linarith
    then have "\<not> sint (aq_permits a - r) < 0" by (simp add: sint_small)
    with True step w a acc take_small [OF le] show ?thesis
      by (auto simp: Let_def split: if_splits)
  next
    case False
    with step w a acc show ?thesis by (auto split: if_splits)
  qed
qed

lemma aq_sound_step:
  assumes inv: "aq_sound n a" and small: "small e" and step: "aq_step e a = Some b"
  shows "aq_sound n b"
proof -
  have "aq_status b = Running \<and>
     unat (aq_permits b) + handed (aq_log b) = unat n + returned (aq_log b) \<and>
     (\<forall>(t, r, b) \<in> set (aq_waiting b). unat r < 2 ^ 31)" if rb: "in_range n b"
  proof -
    have ra: "in_range n a" using in_range_step [OF step rb] .
    note ia = inv [unfolded aq_sound_def, rule_format, OF ra]
    note pa = sound_permits [OF inv ra]
    show ?thesis
    proof (cases e)
      case (Q_acquire t r timed)
      then show ?thesis
        using ia pa step small take_small [of r "aq_permits a"] sint_le_small [OF pa, of r]
        by (auto simp: small_def split: if_splits)
    next
      case (Q_resume t)
      then show ?thesis using resume_sound [of a n t b] ia pa step by simp
    next
      case (Q_timeout t)
      then show ?thesis
        using ia step by (fastforce simp: AList.delete_eq split: if_splits option.splits)
    next
      case (Q_try_acquire r)
      then show ?thesis
        using ia step take_small [of r "aq_permits a"] by (auto split: if_splits)
    next
      case (Q_release r)
      then have b: "b = aq_wake (a\<lparr>aq_permits := aq_permits a + r\<rparr>)\<lparr>aq_log := aq_log a @ [Returned r]\<rparr>"
        using step by (auto split: if_splits)
      have "unat (aq_permits a) + unat r < 2 ^ 31"
        using rb ia b by (simp add: in_range_def)
      from give_small [OF this] show ?thesis using ia b by simp
    qed
  qed
  then show ?thesis by (simp add: aq_sound_def)
qed

interpretation aqs: guarded_system aq_step small "aq_sound n" for n
  by unfold_locales (rule aq_sound_step)

section \<open>Requests up to a size\<close>

text \<open>Blocking and timed requests are for at most \<open>m\<close> permits, as \<open>int\<close>.\<close>

fun asks_up_to :: "u32 \<Rightarrow> q_event \<Rightarrow> bool" where
  "asks_up_to m (Q_acquire t r timed) \<longleftrightarrow> sint r \<le> sint m"
| "asks_up_to m _ \<longleftrightarrow> True"

definition capped :: "u32 \<Rightarrow> q_event \<Rightarrow> bool" where
  "capped m e \<longleftrightarrow> small e \<and> asks_up_to m e"

text \<open>Nobody sleeps at the head of the queue while there are enough permits for any of the requests.\<close>

definition awake :: "u32 \<Rightarrow> aqsem \<Rightarrow> bool" where
  "awake m a \<longleftrightarrow> (\<forall>r \<in># requests_of (aq_waiting a). sint r \<le> sint m) \<and>
     (aq_waiting a \<noteq> [] \<and> sint m \<le> sint (aq_permits a) \<longrightarrow> aq_woken a)"

definition aq_capped :: "u32 \<Rightarrow> u32 \<Rightarrow> aqsem \<Rightarrow> bool" where
  "aq_capped n m a \<longleftrightarrow> aq_books n a \<and> aq_sound n a \<and> (in_range n a \<longrightarrow> awake m a)"

lemma sound_requests:
  "\<lbrakk> aq_sound n a; in_range n a; r \<in># requests_of (aq_waiting a) \<rbrakk> \<Longrightarrow> unat r < 2 ^ 31"
  by (auto simp: aq_sound_def requests_of_def)

text \<open>
  The minimum the code compares with is at most what the head asks for, whatever has leaked into the
  record: enough for the largest request is enough to wake the head.
\<close>

lemma head_enough:
  assumes "aq_waiting a \<noteq> []" "requests_of (aq_waiting a) \<subseteq># aq_record a"
    and "\<forall>r \<in># requests_of (aq_waiting a). sint r \<le> sint m \<and> unat r < 2 ^ 31"
    and "sint m \<le> sint (aq_permits a)"
  shows "enough a"
proof -
  obtain r where r: "r \<in># requests_of (aq_waiting a)"
    using assms(1) by (metis multiset_nonemptyE requests_of_empty)
  then have "r \<in># aq_record a" using assms(2) by (rule mset_subset_eqD [rotated])
  then have le: "aq_min (aq_record a) \<le> r" by (auto simp: aq_min_def)
  have "unat r < 2 ^ 31" "sint r \<le> sint m" using assms(3) r by auto
  moreover have "unat (aq_min (aq_record a)) < 2 ^ 31"
    using le \<open>unat r < 2 ^ 31\<close> by (simp add: word_le_nat_alt)
  ultimately have "sint (aq_min (aq_record a)) \<le> sint m"
    using le sint_le_small [of r "aq_min (aq_record a)"] by simp
  with assms(1,4) show ?thesis by (simp add: enough_def)
qed

lemma awake_wake:
  assumes "\<forall>r \<in># requests_of (aq_waiting a). sint r \<le> sint m \<and> unat r < 2 ^ 31"
    and "requests_of (aq_waiting a) \<subseteq># aq_record a"
  shows "awake m (aq_wake a)"
  using assms head_enough [of a m] by (auto simp: awake_def)

lemma awake_resume:
  assumes books: "aq_books n a" and small: "\<forall>r \<in># requests_of (aq_waiting a). unat r < 2 ^ 31"
    and aw: "awake m a" and step: "aq_step (Q_resume t) a = Some b"
  shows "awake m b"
proof -
  obtain r timed ws where w: "aq_waiting a = (t, r, timed) # ws"
    using step by (auto split: list.splits if_splits)
  then have r: "sint r \<le> sint m" using aw by (simp add: awake_def)
  have rec: "aq_record a - {#r#} = requests_of ws + expired (aq_log a)"
    using books w by (simp add: aq_books_def)
  show ?thesis
  proof (cases "sint r \<le> sint (aq_permits a)")
    case True
    have "awake m (aq_grant r (a\<lparr>aq_waiting := ws, aq_woken := False\<rparr>))"
      unfolding aq_grant_def using aw small rec w by (intro awake_wake) (auto simp: awake_def)
    with True step w show ?thesis by (auto simp: awake_def Let_def split: if_splits)
  next
    case False
    with r step w aw show ?thesis by (auto simp: awake_def split: if_splits)
  qed
qed

text \<open>Taking permits does not make them enough.\<close>

lemma take_less:
  assumes "unat c < 2 ^ 31" "k \<le> c" shows "sint (c - k) \<le> sint (c :: u32)"
proof -
  have le: "unat (c - k) \<le> unat c" using take_small [OF assms(2)] by linarith
  show ?thesis
    using le sint_small [OF assms(1)] sint_small [OF le_less_trans [OF le assms(1)]] by (simp only: of_nat_le_iff)
qed

lemma awake_step:
  assumes books: "aq_books n a" and sound: "aq_sound n a" and aw: "awake m a"
    and r: "in_range n a" and e: "capped m e" and step: "aq_step e a = Some b"
  shows "awake m b"
proof (cases e)
  case (Q_acquire t r' timed)
  then show ?thesis using aw e step by (auto simp: awake_def capped_def split: if_splits)
next
  case (Q_release k)
  then have b: "b = aq_wake (a\<lparr>aq_permits := aq_permits a + k\<rparr>)\<lparr>aq_log := aq_log a @ [Returned k]\<rparr>"
    using step by (auto split: if_splits)
  have "awake m (aq_wake (a\<lparr>aq_permits := aq_permits a + k\<rparr>))"
    using aw books sound_requests [OF sound r] by (intro awake_wake) (auto simp: awake_def aq_books_def)
  then show ?thesis using b by (simp add: awake_def)
next
  case (Q_timeout t)
  then obtain q timed where q: "map_of (aq_waiting a) t = Some (q, timed)"
    "b = a\<lparr>aq_waiting := AList.delete t (aq_waiting a), aq_log := aq_log a @ [Timed_out t q]\<rparr>"
    using step by (auto split: option.splits if_splits)
  then have "aq_waiting a \<noteq> []" by auto
  moreover have "requests_of (aq_waiting a) = add_mset q (requests_of (aq_waiting b))"
    using requests_of_delete [OF _ q(1)] books q(2) by (simp add: aq_books_def)
  ultimately show ?thesis using q(2) aw by (simp add: awake_def)
next
  case (Q_try_acquire k)
  then show ?thesis using aw step take_less [OF sound_permits [OF sound r], of k]
    by (auto simp: awake_def split: if_splits)
next
  case (Q_resume t)
  with step show ?thesis using awake_resume [OF books _ aw] sound_requests [OF sound r] by blast
qed

lemma aq_capped_step:
  assumes inv: "aq_capped n m a" and e: "capped m e" and step: "aq_step e a = Some b"
  shows "aq_capped n m b"
proof -
  have "small e" using e by (simp add: capped_def)
  have "awake m b" if "in_range n b"
    using inv in_range_step [OF step that] e step
    by (intro awake_step [of n a m e b]) (auto simp: aq_capped_def)
  then show ?thesis
    using inv step \<open>small e\<close> unfolding aq_capped_def
    by (blast intro: aq_books_step aq_sound_step)
qed

interpretation aqc: guarded_system aq_step "capped m" "aq_capped n m" for n m
  by unfold_locales (rule aq_capped_step)

lemma aq_capped_init: "aq_capped n m (aqsem_init n)"
  using aq_books_init aq_sound_init by (simp add: aq_capped_def awake_def aqsem_init_def)

section \<open>Requests of one size\<close>

fun asks :: "u32 \<Rightarrow> q_event \<Rightarrow> bool" where
  "asks r (Q_acquire t r' timed) \<longleftrightarrow> r' = r"
| "asks r _ \<longleftrightarrow> True"

definition one_size :: "u32 \<Rightarrow> aqsem \<Rightarrow> bool" where
  "one_size r a \<longleftrightarrow> (\<forall>x \<in># aq_record a. x = r)"

definition aq_uniform :: "u32 \<Rightarrow> u32 \<Rightarrow> aqsem \<Rightarrow> bool" where
  "aq_uniform n r a \<longleftrightarrow> aq_books n a \<and> aq_sound n a \<and> one_size r a"

lemma one_size_step: "\<lbrakk> one_size r a; asks r e; aq_step e a = Some b \<rbrakk> \<Longrightarrow> one_size r b"
  by (cases e) (auto simp: one_size_def Let_def split: if_splits list.splits option.splits dest!: in_diffD)

lemma aq_min_uniform:
  "\<lbrakk> \<forall>x \<in># M. x = r; M \<noteq> {#} \<rbrakk> \<Longrightarrow> aq_min M = r"
  by (auto simp: aq_min_def intro!: Min_eqI)

lemma books_record_nonempty:
  "\<lbrakk> aq_books n a; aq_waiting a \<noteq> [] \<rbrakk> \<Longrightarrow> aq_record a \<noteq> {#}"
  by (cases "aq_waiting a") (auto simp: aq_books_def)

text \<open>Without timeouts and \<open>try_acquire\<close> the queue is first come, first served.\<close>

fun blocking :: "q_event \<Rightarrow> bool" where
  "blocking (Q_acquire t r timed) \<longleftrightarrow> \<not> timed"
| "blocking (Q_try_acquire r) \<longleftrightarrow> False"
| "blocking _ \<longleftrightarrow> True"

definition plain :: "u32 \<Rightarrow> q_event \<Rightarrow> bool" where
  "plain r e \<longleftrightarrow> small e \<and> asks r e \<and> blocking e"

definition in_order :: "u32 \<Rightarrow> aqsem \<Rightarrow> bool" where
  "in_order r a \<longleftrightarrow> arrivals (aq_log a) = grants (aq_log a) @ map fst (aq_waiting a) \<and>
     (aq_woken a \<longrightarrow> sint r \<le> sint (aq_permits a)) \<and>
     (\<forall>(t, r', timed) \<in> set (aq_waiting a). r' = r \<and> \<not> timed)"

definition aq_fifo :: "u32 \<Rightarrow> u32 \<Rightarrow> aqsem \<Rightarrow> bool" where
  "aq_fifo n r a \<longleftrightarrow> aq_uniform n r a \<and> (in_range n a \<longrightarrow> in_order r a)"

lemma order_release:
  assumes u: "aq_uniform n r a" and o: "in_order r a" and rb: "in_range n b"
    and step: "aq_step (Q_release k) a = Some b"
  shows "in_order r b"
proof -
  have ra: "in_range n a" using in_range_step [OF step rb] .
  have b: "b = aq_wake (a\<lparr>aq_permits := aq_permits a + k\<rparr>)\<lparr>aq_log := aq_log a @ [Returned k]\<rparr>"
    using step by (auto split: if_splits)
  have s: "aq_sound n a" and one: "one_size r a" and bk: "aq_books n a"
    using u by (simp_all add: aq_uniform_def)
  have k: "unat (aq_permits a) + unat k < 2 ^ 31"
    using rb b s ra by (simp add: in_range_def aq_sound_def)
  have "unat (aq_permits a) < 2 ^ 31" "unat (aq_permits a + k) < 2 ^ 31"
    using k by (simp_all add: give_small)
  then have "sint (aq_permits a) \<le> sint (aq_permits a + k)"
    by (simp only: sint_small give_small [OF k] of_nat_le_iff le_add1)
  moreover have "enough (a\<lparr>aq_permits := aq_permits a + k\<rparr>) \<Longrightarrow> sint r \<le> sint (aq_permits a + k)"
    using aq_min_uniform [of "aq_record a" r] books_record_nonempty [OF bk] one
    by (auto simp: enough_def one_size_def)
  ultimately show ?thesis using o b by (auto simp: in_order_def)
qed

lemma order_resume:
  assumes u: "aq_uniform n r a" and o: "in_order r a" and rb: "in_range n b"
    and step: "aq_step (Q_resume t) a = Some b"
  shows "in_order r b"
proof -
  obtain r' timed ws where w: "aq_waiting a = (t, r', timed) # ws" "aq_woken a"
    using step by (auto split: list.splits if_splits)
  then have r': "r' = r" "sint r \<le> sint (aq_permits a)" using o by (auto simp: in_order_def)
  have one: "one_size r a" and rec: "aq_record a = add_mset r (requests_of ws + expired (aq_log a))"
    using u w r' by (simp_all add: aq_uniform_def aq_books_def)
  let ?b = "aq_grant r (a\<lparr>aq_waiting := ws, aq_woken := False\<rparr>)"
  have "aq_woken ?b \<Longrightarrow> sint r \<le> sint (aq_permits ?b)"
    using one rec aq_min_uniform [of "requests_of ws + expired (aq_log a)" r]
    by (cases ws) (auto simp: aq_grant_def enough_def one_size_def)
  then show ?thesis using o w r' step
    by (auto simp: in_order_def Let_def split: if_splits)
qed

lemma in_order_step:
  assumes u: "aq_uniform n r a" and o: "in_order r a" and rb: "in_range n b"
    and e: "plain r e" and step: "aq_step e a = Some b"
  shows "in_order r b"
proof (cases e)
  case (Q_acquire t r' timed)
  moreover have "aq_woken a \<Longrightarrow> aq_waiting a \<noteq> []"
    using u by (simp add: aq_uniform_def aq_books_def)
  ultimately show ?thesis using o e step
    by (auto simp: in_order_def plain_def split: if_splits)
next
  case (Q_timeout t)
  then show ?thesis using o step
    by (auto simp: in_order_def split: if_splits option.splits dest!: map_of_SomeD)
next
  case (Q_try_acquire k)
  then show ?thesis using e by (simp add: plain_def)
next
  case (Q_release k)
  with step show ?thesis using order_release [OF u o rb] by simp
next
  case (Q_resume t)
  with step show ?thesis using order_resume [OF u o rb] by simp
qed

lemma aq_fifo_step:
  assumes inv: "aq_fifo n r a" and e: "plain r e" and step: "aq_step e a = Some b"
  shows "aq_fifo n r b"
proof -
  have u: "aq_uniform n r a" using inv by (simp add: aq_fifo_def)
  have "in_order r b" if rb: "in_range n b"
  proof (rule in_order_step [OF u _ rb e step])
    show "in_order r a" using inv in_range_step [OF step rb] by (simp add: aq_fifo_def)
  qed
  moreover have "aq_uniform n r b"
    using u e step unfolding aq_uniform_def plain_def
    by (blast intro: aq_books_step aq_sound_step one_size_step)
  ultimately show ?thesis by (simp add: aq_fifo_def)
qed

interpretation aqf: guarded_system aq_step "plain r" "aq_fifo n r" for n r
  by unfold_locales (rule aq_fifo_step)

lemma aq_fifo_init: "aq_fifo n r (aqsem_init n)"
  using aq_books_init aq_sound_init
  by (simp add: aq_fifo_def aq_uniform_def one_size_def in_order_def aqsem_init_def)

end
