(* ===== verification/Simple_Semaphore.thy ===== *)
theory Simple_Semaphore
  imports Permit_Ledger Event_System
begin

text \<open>
  \<open>SimpleSemaphore\<close> of \<^verbatim>\<open>concurrency/semaphore.h\<close>: one counter (\<open>atomic_int count\<close>,
  a 32-bit word read with \<open>sint\<close>), one mutex, one condition variable.  A section under \<open>mtx\<close>
  is one atomic event; \<open>release\<close> is two, the addition under the mutex and the \<open>notify_all\<close>
  after it.  A thread in \<open>cv.wait\<close> is \<open>S_blocked\<close> until it is notified or wakes spuriously
  (\<open>S_wakeup\<close>); it is then \<open>S_awake\<close> and tests the loop condition when it gets the mutex again
  (\<open>S_retest\<close>), or returns \<open>false\<close> if \<open>wait_until\<close> reported a timeout.
\<close>

section \<open>State and sections\<close>

datatype spc = S_out | S_blocked u32 bool | S_awake u32 bool | S_notifying

record ssys =
  s_count :: u32
  spcs :: "tid \<Rightarrow> spc"
  s_log :: "q_entry list"

definition SimpleSemaphore :: "u32 \<Rightarrow> ssys" where
  "SimpleSemaphore initial_permits = \<lparr>s_count = initial_permits, spcs = (\<lambda>_. S_out), s_log = []\<rparr>"

text \<open>One test of the loop of \<open>acquire\<close> and \<open>try_acquire0\<close>, with the mutex held.\<close>

definition ss_attempt :: "tid \<Rightarrow> u32 \<Rightarrow> bool \<Rightarrow> ssys \<Rightarrow> ssys" where
  "ss_attempt t request timed s =
     (if sint (s_count s) < sint request
      then s\<lparr>spcs := (spcs s)(t := S_blocked request timed)\<rparr>
      else s\<lparr>s_count := s_count s - request, spcs := (spcs s)(t := S_out),
             s_log := s_log s @ [Granted t request]\<rparr>)"

definition ss_try_acquire :: "u32 \<Rightarrow> ssys \<Rightarrow> bool \<times> ssys" where
  "ss_try_acquire request s =
     (if sint request \<le> sint (s_count s)
      then (True, s\<lparr>s_count := s_count s - request, s_log := s_log s @ [Taken request]\<rparr>) else (False, s))"

definition ss_add :: "u32 \<Rightarrow> ssys \<Rightarrow> ssys" where
  "ss_add request s = s\<lparr>s_count := s_count s + request, s_log := s_log s @ [Returned request]\<rparr>"

definition notified :: "spc \<Rightarrow> spc" where
  "notified c = (case c of S_blocked r timed \<Rightarrow> S_awake r timed | _ \<Rightarrow> c)"

definition ss_available_permits :: "ssys \<Rightarrow> int" where
  "ss_available_permits s = sint (s_count s)"

datatype s_event =
    S_acquire tid u32 bool
  | S_acquire_until tid u32
  | S_wakeup tid
  | S_retest tid
  | S_timeout tid
  | S_try_acquire tid u32
  | S_release tid u32
  | S_notify_all tid

text \<open>
  \<open>try_acquire_until(request, t)\<close> calls \<open>try_acquire0(true, t)\<close>: the \<open>true\<close> becomes
  the number of permits.
\<close>

fun ssem_step :: "s_event \<Rightarrow> ssys \<Rightarrow> ssys option" where
  "ssem_step (S_acquire t request timed) s =
     (if spcs s t = S_out
      then Some (ss_attempt t request timed (s\<lparr>s_log := s_log s @ [Arrived t request]\<rparr>)) else None)"
| "ssem_step (S_acquire_until t request) s =
     (if spcs s t = S_out
      then Some (ss_attempt t 1 True (s\<lparr>s_log := s_log s @ [Arrived t request]\<rparr>)) else None)"
| "ssem_step (S_wakeup t) s =
     (case spcs s t of
        S_blocked r timed \<Rightarrow> Some (s\<lparr>spcs := (spcs s)(t := S_awake r timed)\<rparr>) | _ \<Rightarrow> None)"
| "ssem_step (S_retest t) s =
     (case spcs s t of S_awake r timed \<Rightarrow> Some (ss_attempt t r timed s) | _ \<Rightarrow> None)"
| "ssem_step (S_timeout t) s =
     (case spcs s t of
        S_awake r timed \<Rightarrow>
          if timed then Some (s\<lparr>spcs := (spcs s)(t := S_out), s_log := s_log s @ [Timed_out t r]\<rparr>)
          else None
      | _ \<Rightarrow> None)"
| "ssem_step (S_try_acquire t request) s =
     (if spcs s t = S_out then Some (snd (ss_try_acquire request s)) else None)"
| "ssem_step (S_release t request) s =
     (if spcs s t = S_out
      then Some (ss_add request (s\<lparr>spcs := (spcs s)(t := S_notifying)\<rparr>)) else None)"
| "ssem_step (S_notify_all t) s =
     (if spcs s t = S_notifying
      then Some (s\<lparr>spcs := (\<lambda>u. notified (if u = t then S_out else spcs s u))\<rparr>) else None)"

section \<open>Invariants\<close>

definition ss_books :: "u32 \<Rightarrow> ssys \<Rightarrow> bool" where
  "ss_books n s \<longleftrightarrow> s_count s = n + of_nat (returned (s_log s)) - of_nat (handed (s_log s))"

lemma ss_books_step: "\<lbrakk> ss_books n s; ssem_step e s = Some s' \<rbrakk> \<Longrightarrow> ss_books n s'"
  by (cases e) (auto simp: ss_books_def ss_attempt_def ss_try_acquire_def ss_add_def
      split: if_splits spc.splits)

interpretation ssb: inv_system ssem_step "ss_books n" for n
  by unfold_locales (rule ss_books_step)

fun s_amount :: "s_event \<Rightarrow> u32" where
  "s_amount (S_acquire t r timed) = r"
| "s_amount (S_try_acquire t r) = r"
| "s_amount _ = 0"

definition s_small :: "s_event \<Rightarrow> bool" where
  "s_small e \<longleftrightarrow> unat (s_amount e) < 2 ^ 31"

definition wants :: "spc \<Rightarrow> u32" where
  "wants c = (case c of S_blocked r b \<Rightarrow> r | S_awake r b \<Rightarrow> r | _ \<Rightarrow> 0)"

text \<open>Exact books in the range of \<open>int\<close>, and only small requests are waiting.\<close>

definition ss_exact :: "u32 \<Rightarrow> ssys \<Rightarrow> bool" where
  "ss_exact n s \<longleftrightarrow> unat (s_count s) + handed (s_log s) = unat n + returned (s_log s) \<and>
     (\<forall>t. unat (wants (spcs s t)) < 2 ^ 31)"

text \<open>A blocked thread that could proceed will be notified.\<close>

definition ss_alert :: "ssys \<Rightarrow> bool" where
  "ss_alert s \<longleftrightarrow> (\<forall>t r b. spcs s t = S_blocked r b \<and> sint r \<le> sint (s_count s) \<longrightarrow>
     (\<exists>u. spcs s u = S_notifying))"

definition s_fits :: "u32 \<Rightarrow> ssys \<Rightarrow> bool" where
  "s_fits n s \<longleftrightarrow> fits n (s_log s)"

definition ss_inv :: "u32 \<Rightarrow> ssys \<Rightarrow> bool" where
  "ss_inv n s \<longleftrightarrow> (s_fits n s \<longrightarrow> ss_exact n s \<and> ss_alert s)"

lemma s_log_grows: "ssem_step e s = Some s' \<Longrightarrow> \<exists>l. s_log s' = s_log s @ l"
  by (cases e) (auto simp: ss_attempt_def ss_try_acquire_def ss_add_def split: if_splits spc.splits)

lemma s_fits_step: "\<lbrakk> ssem_step e s = Some s'; s_fits n s' \<rbrakk> \<Longrightarrow> s_fits n s"
  using s_log_grows [of e s s'] fits_append by (auto simp: s_fits_def)

lemma exact_small: "\<lbrakk> ss_exact n s; s_fits n s \<rbrakk> \<Longrightarrow> unat (s_count s) < 2 ^ 31"
  using fits_now [of n "s_log s"] by (simp add: ss_exact_def s_fits_def)

lemma wants_simps [simp]:
  "wants S_out = 0" "wants (S_blocked r b) = r" "wants (S_awake r b) = r" "wants S_notifying = 0"
  "wants (notified c) = wants c"
  by (simp_all add: wants_def notified_def split: spc.split)

lemma not_fewer:
  assumes "unat (c :: u32) < 2 ^ 31" "unat r < 2 ^ 31" "\<not> sint c < sint r"
  shows "r \<le> c" "unat (c - r) + unat r = unat c" "sint (c - r) \<le> sint c"
proof -
  show le: "r \<le> c" using assms sint_le_small [of c r] by simp
  show sum: "unat (c - r) + unat r = unat c" by (rule take_small [OF le])
  then have lt: "unat (c - r) < 2 ^ 31" using assms(1) by linarith
  show "sint (c - r) \<le> sint c"
    unfolding sint_small [OF assms(1)] sint_small [OF lt] using sum by linarith
qed

lemma ss_alert_less:
  "\<lbrakk> ss_alert s; sint c \<le> sint (s_count s) \<rbrakk> \<Longrightarrow>
     ss_alert (s\<lparr>s_count := c\<rparr>)"
  by (force simp: ss_alert_def)

lemma ss_alert_pc:
  "\<lbrakk> ss_alert s; spcs s t \<noteq> S_notifying; \<forall>r b. c = S_blocked r b \<longrightarrow> sint (s_count s) < sint r \<rbrakk> \<Longrightarrow>
     ss_alert (s\<lparr>spcs := (spcs s)(t := c)\<rparr>)"
  unfolding ss_alert_def by (auto split: if_splits) (metis linorder_not_le)+

lemma ss_alert_grant:
  assumes "ss_alert s" "sint c \<le> sint (s_count s)" "spcs s t \<noteq> S_notifying"
  shows "ss_alert (s\<lparr>s_count := c, spcs := (spcs s)(t := S_out), s_log := l\<rparr>)"
proof -
  have "ss_alert ((s\<lparr>spcs := (spcs s)(t := S_out)\<rparr>)\<lparr>s_count := c\<rparr>)"
    using assms by (intro ss_alert_less ss_alert_pc) auto
  then show ?thesis by (simp add: ss_alert_def)
qed

lemma attempt_inv:
  assumes "ss_exact n s" "ss_alert s" "unat (s_count s) < 2 ^ 31" "unat r < 2 ^ 31"
    "spcs s t \<noteq> S_notifying"
  shows "ss_exact n (ss_attempt t r timed s) \<and> ss_alert (ss_attempt t r timed s)"
proof (cases "sint (s_count s) < sint r")
  case True
  then show ?thesis
    using assms ss_alert_pc [of s t "S_blocked r timed"] by (simp add: ss_attempt_def ss_exact_def)
next
  case False
  note f = not_fewer [OF assms(3,4) False]
  have "ss_alert (s\<lparr>s_count := s_count s - r, spcs := (spcs s)(t := S_out),
      s_log := s_log s @ [Granted t r]\<rparr>)"
    using assms f(3) by (intro ss_alert_grant)
  with False f(2) assms(1) show ?thesis by (simp add: ss_attempt_def ss_exact_def)
qed

lemma alert_log [simp]: "ss_alert (s\<lparr>s_log := l\<rparr>) = ss_alert s"
  by (simp add: ss_alert_def)

lemma exact_arrive: "ss_exact n s \<Longrightarrow> ss_exact n (s\<lparr>s_log := s_log s @ [Arrived t r]\<rparr>)"
  by (simp add: ss_exact_def)

lemma exact_pc:
  "\<lbrakk> ss_exact n s; unat (wants c) < 2 ^ 31 \<rbrakk> \<Longrightarrow> ss_exact n (s\<lparr>spcs := (spcs s)(t := c)\<rparr>)"
  by (simp add: ss_exact_def)

lemma try_acquire_inv:
  assumes ex: "ss_exact n s" and al: "ss_alert s" and fs: "s_fits n s" and r: "unat r < 2 ^ 31"
  shows "ss_exact n (snd (ss_try_acquire r s)) \<and> ss_alert (snd (ss_try_acquire r s))"
proof (cases "sint r \<le> sint (s_count s)")
  case True
  note f = not_fewer [OF exact_small [OF ex fs], of r]
  with r True have "unat (s_count s - r) + unat r = unat (s_count s)" "sint (s_count s - r) \<le> sint (s_count s)"
    by simp_all
  with True ex al show ?thesis by (simp add: ss_try_acquire_def ss_exact_def ss_alert_less)
qed (use ex al in \<open>simp add: ss_try_acquire_def\<close>)

lemma release_inv:
  assumes ex: "ss_exact n s" and s': "s' = ss_add r (s\<lparr>spcs := (spcs s)(t := S_notifying)\<rparr>)"
    and fs': "s_fits n s'"
  shows "ss_exact n s' \<and> ss_alert s'"
proof -
  have "unat (s_count s) + unat r < 2 ^ 31"
    using fs' s' ex by (simp add: s_fits_def ss_exact_def ss_add_def)
  from give_small [OF this] have "ss_exact n s'" using s' ex by (simp add: ss_exact_def ss_add_def)
  moreover have "ss_alert s'" using s' by (auto simp: ss_alert_def ss_add_def)
  ultimately show ?thesis ..
qed

text \<open>The events of one thread that waits.\<close>

lemma arrive_inv:
  assumes "ss_exact n s" "ss_alert s" "s_fits n s" "unat r < 2 ^ 31" "spcs s t = S_out"
  shows "ss_exact n (ss_attempt t r timed (s\<lparr>s_log := s_log s @ [Arrived t q]\<rparr>)) \<and>
    ss_alert (ss_attempt t r timed (s\<lparr>s_log := s_log s @ [Arrived t q]\<rparr>))"
  using attempt_inv [OF exact_arrive [OF assms(1), of t q], of r t timed] assms
    exact_small [OF assms(1,3)] by simp

lemma wakeup_inv:
  assumes "ss_exact n s" "ss_alert s" "spcs s t = S_blocked r b"
  shows "ss_exact n (s\<lparr>spcs := (spcs s)(t := S_awake r b)\<rparr>) \<and> ss_alert (s\<lparr>spcs := (spcs s)(t := S_awake r b)\<rparr>)"
proof -
  have "unat r < 2 ^ 31" using assms by (metis ss_exact_def wants_simps(2))
  with assms show ?thesis by (simp add: exact_pc ss_alert_pc)
qed

lemma ss_step_exact_alert:
  assumes ex: "ss_exact n s" and al: "ss_alert s" and fs: "s_fits n s" and fs': "s_fits n s'"
    and e: "s_small e" and step: "ssem_step e s = Some s'"
  shows "ss_exact n s' \<and> ss_alert s'"
proof (cases e)
  case (S_acquire t r timed)
  then have "s' = ss_attempt t r timed (s\<lparr>s_log := s_log s @ [Arrived t r]\<rparr>)" "spcs s t = S_out"
    using step by (auto split: if_splits)
  with e S_acquire arrive_inv [OF ex al fs] show ?thesis by (simp add: s_small_def)
next
  case (S_acquire_until t r)
  then have "s' = ss_attempt t 1 True (s\<lparr>s_log := s_log s @ [Arrived t r]\<rparr>)" "spcs s t = S_out"
    using step by (auto split: if_splits)
  with arrive_inv [OF ex al fs] show ?thesis by simp
next
  case (S_wakeup t)
  then obtain r b where "spcs s t = S_blocked r b" "s' = s\<lparr>spcs := (spcs s)(t := S_awake r b)\<rparr>"
    using step by (auto split: spc.splits)
  with wakeup_inv [OF ex al] show ?thesis by simp
next
  case (S_retest t)
  then obtain r b where t: "spcs s t = S_awake r b" "s' = ss_attempt t r b s"
    using step by (auto split: spc.splits)
  then have "unat r < 2 ^ 31" using ex by (metis ss_exact_def wants_simps(3))
  with t ex al exact_small [OF ex fs] show ?thesis using attempt_inv [of n s r t b] by simp
next
  case (S_timeout t)
  then obtain r where "spcs s t = S_awake r True"
    "s' = (s\<lparr>spcs := (spcs s)(t := S_out)\<rparr>)\<lparr>s_log := s_log s @ [Timed_out t r]\<rparr>"
    using step by (auto split: spc.splits if_splits)
  with ex al ss_alert_pc [of s t S_out] show ?thesis by (simp add: ss_exact_def)
next
  case (S_try_acquire t r)
  then have "s' = snd (ss_try_acquire r s)" using step by (auto split: if_splits)
  with try_acquire_inv [OF ex al fs, of r] e S_try_acquire show ?thesis by (simp add: s_small_def)
next
  case (S_release t r)
  then have "s' = ss_add r (s\<lparr>spcs := (spcs s)(t := S_notifying)\<rparr>)" using step
    by (auto split: if_splits)
  then show ?thesis by (rule release_inv [OF ex _ fs'])
next
  case (S_notify_all t)
  then have s': "s' = s\<lparr>spcs := (\<lambda>u. notified (if u = t then S_out else spcs s u))\<rparr>"
    using step by (auto split: if_splits)
  have "ss_alert s'" using s' by (auto simp: ss_alert_def notified_def split: if_splits spc.splits)
  with s' ex show ?thesis by (simp add: ss_exact_def)
qed

lemma ss_inv_step:
  assumes inv: "ss_inv n s" and e: "s_small e" and step: "ssem_step e s = Some s'"
  shows "ss_inv n s'"
  unfolding ss_inv_def
proof
  assume f': "s_fits n s'"
  then have f: "s_fits n s" using s_fits_step [OF step] by blast
  with inv have "ss_exact n s" "ss_alert s" by (simp_all add: ss_inv_def)
  then show "ss_exact n s' \<and> ss_alert s'" by (rule ss_step_exact_alert [OF _ _ f f' e step])
qed

interpretation ssi: guarded_system ssem_step s_small "ss_inv n" for n
  by unfold_locales (rule ss_inv_step)

lemma ss_inv_init: "ss_inv n (SimpleSemaphore n)" "ss_books n (SimpleSemaphore n)"
  by (simp_all add: ss_inv_def ss_books_def SimpleSemaphore_def ss_exact_def ss_alert_def)

section \<open>Properties\<close>

text \<open>
  C20: \<open>SimpleSemaphore\<close> conserves permits: in every schedule the counter is the initial number
  plus everything released minus everything granted, and while this stays within \<open>int\<close> (and
  requests are non-negative as \<open>int\<close>) it never becomes negative.
\<close>

theorem ssem_conserves_permits:
  assumes "runs ssem_step es (SimpleSemaphore n) = Some s"
  shows "s_count s = n + of_nat (returned (s_log s)) - of_nat (handed (s_log s)) \<and>
    (list_all s_small es \<and> fits n (s_log s) \<longrightarrow>
      0 \<le> ss_available_permits s \<and>
      ss_available_permits s + int (handed (s_log s)) = int (unat n) + int (returned (s_log s)))"
proof -
  have "ss_books n s" using ssb.runs_inv [OF ss_inv_init(2) assms] .
  moreover have "0 \<le> ss_available_permits s \<and>
      ss_available_permits s + int (handed (s_log s)) = int (unat n) + int (returned (s_log s))"
    if "list_all s_small es" "s_fits n s"
  proof -
    have ex: "ss_exact n s"
      using ssi.runs_inv [OF ss_inv_init(1) that(1) assms] that(2) by (simp add: ss_inv_def)
    have "sint (s_count s) = int (unat (s_count s))" by (rule sint_small [OF exact_small [OF ex that(2)]])
    with ex show ?thesis unfolding ss_available_permits_def ss_exact_def
      by (metis of_nat_0_le_iff of_nat_add)
  qed
  ultimately show ?thesis by (simp add: ss_books_def s_fits_def)
qed

theorem ssem_conserves_permits_witness:
  "\<exists>s. runs ssem_step [S_acquire 0 2 False, S_release 1 3, S_notify_all 1, S_retest 0]
       (SimpleSemaphore 1) = Some s \<and> 0 \<le> ss_available_permits s"
proof -
  let ?es = "[S_acquire 0 2 False, S_release 1 3, S_notify_all 1, S_retest 0]"
  have "map_option (\<lambda>s. returned (s_log s)) (runs ssem_step ?es (SimpleSemaphore 1)) = Some 3"
    by code_simp
  then obtain s where s: "runs ssem_step ?es (SimpleSemaphore 1) = Some s" "fits 1 (s_log s)"
    by (elim map_option_SomeE) (simp add: fits_total)
  moreover have "list_all s_small ?es" by (simp add: s_small_def)
  ultimately show ?thesis using ssem_conserves_permits [OF s(1)] by blast
qed

text \<open>
  C21: \<open>SimpleSemaphore\<close> loses no wake-up although it notifies after unlocking: whenever a blocked
  thread asks for no more than the available permits, a releasing thread is about to notify, and
  after that notification the blocked thread acquires on its next step.
\<close>

theorem ssem_no_lost_wakeup:
  assumes "runs ssem_step es (SimpleSemaphore n) = Some s" "list_all s_small es"
    and "fits n (s_log s)"
    and "spcs s t = S_blocked r timed" "sint r \<le> ss_available_permits s"
  shows "\<exists>u s1 s2. ssem_step (S_notify_all u) s = Some s1 \<and> ssem_step (S_retest t) s1 = Some s2 \<and>
    s_log s2 = s_log s @ [Granted t r]"
proof -
  have "ss_alert s"
    using ssi.runs_inv [OF ss_inv_init(1) assms(2,1)] assms(3) by (simp add: ss_inv_def s_fits_def)
  then obtain u where u: "spcs s u = S_notifying"
    using assms(4,5) by (auto simp: ss_alert_def ss_available_permits_def)
  then have "u \<noteq> t" using assms(4) by auto
  with u assms(4,5) show ?thesis
    by (intro exI [of _ u]) (auto simp: notified_def ss_attempt_def ss_available_permits_def)
qed

theorem ssem_no_lost_wakeup_witness:
  "\<exists>s. runs ssem_step [S_acquire 0 2 False, S_release 1 3] (SimpleSemaphore 0) = Some s \<and>
     (\<exists>u s1 s2. ssem_step (S_notify_all u) s = Some s1 \<and> ssem_step (S_retest 0) s1 = Some s2 \<and>
       s_log s2 = s_log s @ [Granted 0 2])"
proof -
  let ?es = "[S_acquire 0 2 False, S_release 1 3]"
  have "map_option (\<lambda>s. (returned (s_log s), spcs s 0, ss_available_permits s))
      (runs ssem_step ?es (SimpleSemaphore 0)) = Some (3, S_blocked 2 False, 3)" by code_simp
  then obtain s where s: "runs ssem_step ?es (SimpleSemaphore 0) = Some s"
    "fits 0 (s_log s)" "spcs s 0 = S_blocked 2 False" "ss_available_permits s = 3"
    by (elim map_option_SomeE) (auto simp: fits_total)
  have "list_all s_small ?es" "sint (2 :: u32) \<le> ss_available_permits s"
    using s by (simp_all add: s_small_def)
  from ssem_no_lost_wakeup [OF s(1) this(1) s(2,3) this(2)] s(1) show ?thesis by blast
qed

text \<open>
  \<open>try_acquire_until(request, t)\<close> ignores \<open>request\<close>: with one permit available it
  reports success for any request and takes a single permit.
\<close>

lemma ssem_try_acquire_until_takes_one:
  assumes "spcs s t = S_out" "1 \<le> ss_available_permits s"
  shows "\<exists>s'. ssem_step (S_acquire_until t request) s = Some s' \<and> s_count s' = s_count s - 1 \<and>
    spcs s' t = S_out \<and> s_log s' = s_log s @ [Arrived t request, Granted t 1]"
  using assms by (auto simp: ss_attempt_def ss_available_permits_def)

lemma ssem_try_acquire_until_takes_one_instance:
  "\<exists>s'. ssem_step (S_acquire_until 0 5) (SimpleSemaphore 1) = Some s' \<and> s_count s' = s_count (SimpleSemaphore 1) - 1"
proof -
  have "spcs (SimpleSemaphore 1) 0 = S_out" "1 \<le> ss_available_permits (SimpleSemaphore 1)"
    by (simp_all add: SimpleSemaphore_def ss_available_permits_def)
  from ssem_try_acquire_until_takes_one [OF this, of 5] show ?thesis by blast
qed

end
