(* ===== verification/Semaphore_Guard.thy ===== *)
theory Semaphore_Guard
  imports Queued_Semaphore Simple_Semaphore
begin

text \<open>
  \<open>SemaphoreGuard\<close> and \<open>SemaphoreTimedLockableAdapter\<close> of
  \<^verbatim>\<open>concurrency/semaphore.h\<close>.  Both are templates over \<open>SemType\<close>; the type parameter
  is the record \<open>sem_ops\<close> of the operations they call, instantiated with the two semaphores of
  the library.  An operation is run by one thread; \<open>None\<close> means that it does not return at once
  (\<open>acquire\<close> blocks) or does not exist.
\<close>

section \<open>The semaphore type and its users\<close>

record 's sem_ops =
  op_acquire :: "u32 \<Rightarrow> 's \<Rightarrow> 's option"
  op_release :: "u32 \<Rightarrow> 's \<Rightarrow> 's option"
  op_try_acquire :: "u32 \<Rightarrow> 's \<Rightarrow> (bool \<times> 's) option"
  op_try_acquire_for :: "u32 \<Rightarrow> 's \<Rightarrow> (bool \<times> 's) option"
  op_try_acquire_until :: "u32 \<Rightarrow> 's \<Rightarrow> (bool \<times> 's) option"

definition SemaphoreGuard :: "'s sem_ops \<Rightarrow> u32 \<Rightarrow> 's \<Rightarrow> 's option" where
  "SemaphoreGuard ops request s = op_acquire ops request s"

definition SemaphoreGuard_destroy :: "'s sem_ops \<Rightarrow> u32 \<Rightarrow> 's \<Rightarrow> 's option" where
  "SemaphoreGuard_destroy ops request s = op_release ops request s"

definition adapter_lock :: "'s sem_ops \<Rightarrow> u32 \<Rightarrow> 's \<Rightarrow> 's option" where
  "adapter_lock ops request s = op_acquire ops request s"

definition adapter_unlock :: "'s sem_ops \<Rightarrow> u32 \<Rightarrow> 's \<Rightarrow> 's option" where
  "adapter_unlock ops request s = op_release ops request s"

definition adapter_try_lock :: "'s sem_ops \<Rightarrow> u32 \<Rightarrow> 's \<Rightarrow> (bool \<times> 's) option" where
  "adapter_try_lock ops request s = op_try_acquire ops request s"

definition adapter_try_lock_for :: "'s sem_ops \<Rightarrow> u32 \<Rightarrow> 's \<Rightarrow> (bool \<times> 's) option" where
  "adapter_try_lock_for ops request s = op_try_acquire_for ops request s"

definition adapter_try_lock_until :: "'s sem_ops \<Rightarrow> u32 \<Rightarrow> 's \<Rightarrow> (bool \<times> 's) option" where
  "adapter_try_lock_until ops request s = op_try_acquire_until ops request s"

text \<open>
  The scopes a program opens: a block with a guard, a block with a \<open>unique_lock\<close> on an adapter
  (locked on entry, unlocked on exit; with \<open>try_lock\<close>, \<open>try_lock_for\<close> and \<open>try_lock_until\<close> the
  body runs and the unlock happens only on success), and sequences of them.
\<close>

datatype how = By_lock | By_try_lock | By_try_lock_for | By_try_lock_until

datatype scopes =
    Nothing
  | Guard u32 scopes
  | Locked how u32 scopes
  | Then scopes scopes

definition adapter_enter :: "'s sem_ops \<Rightarrow> how \<Rightarrow> u32 \<Rightarrow> 's \<Rightarrow> (bool \<times> 's) option" where
  "adapter_enter ops h r s = (case h of
     By_lock \<Rightarrow> map_option (Pair True) (adapter_lock ops r s)
   | By_try_lock \<Rightarrow> adapter_try_lock ops r s
   | By_try_lock_for \<Rightarrow> adapter_try_lock_for ops r s
   | By_try_lock_until \<Rightarrow> adapter_try_lock_until ops r s)"

fun run_scopes :: "'s sem_ops \<Rightarrow> scopes \<Rightarrow> 's \<Rightarrow> 's option" where
  "run_scopes ops Nothing s = Some s"
| "run_scopes ops (Guard r p) s = do {
     s \<leftarrow> SemaphoreGuard ops r s;
     s \<leftarrow> run_scopes ops p s;
     SemaphoreGuard_destroy ops r s }"
| "run_scopes ops (Locked h r p) s = do {
     (locked, s) \<leftarrow> adapter_enter ops h r s;
     (if locked then do { s \<leftarrow> run_scopes ops p s; adapter_unlock ops r s } else Some s) }"
| "run_scopes ops (Then p q) s = do { s \<leftarrow> run_scopes ops p s; run_scopes ops q s }"

text \<open>
  \<open>try_lock_until\<close> takes one permit whatever was requested; the scopes below use it for single
  permits only.
\<close>

fun until_single :: "scopes \<Rightarrow> bool" where
  "until_single Nothing \<longleftrightarrow> True"
| "until_single (Guard r p) \<longleftrightarrow> until_single p"
| "until_single (Locked h r p) \<longleftrightarrow> (h = By_try_lock_until \<longrightarrow> r = 1) \<and> until_single p"
| "until_single (Then p q) \<longleftrightarrow> until_single p \<and> until_single q"

section \<open>The contract of a semaphore\<close>

locale sem_type =
  fixes ops :: "'s sem_ops"
    and free :: "'s \<Rightarrow> u32"
    and ok :: "'s \<Rightarrow> bool"
  assumes acquire_law: "\<lbrakk> ok s; op_acquire ops r s = Some s' \<rbrakk> \<Longrightarrow> ok s' \<and> free s' = free s - r"
    and acquire_returns: "\<lbrakk> ok s; sint r \<le> sint (free s) \<rbrakk> \<Longrightarrow> op_acquire ops r s \<noteq> None"
    and release_law: "ok s \<Longrightarrow> \<exists>s'. op_release ops r s = Some s' \<and> ok s' \<and> free s' = free s + r"
    and try_law: "\<lbrakk> ok s; op_try_acquire ops r s = Some (b, s') \<rbrakk> \<Longrightarrow>
        ok s' \<and> free s' = (if b then free s - r else free s)"
    and try_for_law: "\<lbrakk> ok s; op_try_acquire_for ops r s = Some (b, s') \<rbrakk> \<Longrightarrow>
        ok s' \<and> free s' = (if b then free s - r else free s)"
    and try_until_law: "\<lbrakk> ok s; op_try_acquire_until ops r s = Some (b, s') \<rbrakk> \<Longrightarrow>
        ok s' \<and> free s' = (if b then free s - 1 else free s)"
begin

lemma enter_law:
  assumes "ok s" "adapter_enter ops h r s = Some (b, s')" "h = By_try_lock_until \<longrightarrow> r = 1"
  shows "ok s' \<and> free s' = (if b then free s - r else free s)"
proof (cases h)
  case By_lock
  then show ?thesis using assms acquire_law [OF assms(1), of r s']
    by (simp add: adapter_enter_def adapter_lock_def split: option.splits)
next
  case By_try_lock
  then show ?thesis using assms try_law [OF assms(1), of r b s']
    by (simp add: adapter_enter_def adapter_try_lock_def)
next
  case By_try_lock_for
  then show ?thesis using assms try_for_law [OF assms(1), of r b s']
    by (simp add: adapter_enter_def adapter_try_lock_for_def)
next
  case By_try_lock_until
  then show ?thesis using assms try_until_law [OF assms(1), of r b s']
    by (simp add: adapter_enter_def adapter_try_lock_until_def)
qed

lemma release_is: "\<lbrakk> ok s; op_release ops r s = Some s' \<rbrakk> \<Longrightarrow> ok s' \<and> free s' = free s + r"
  using release_law [of s r] by auto

text \<open>Every scope gives back what it took, however they are nested.\<close>

lemma scopes_balanced:
  "\<lbrakk> ok s; run_scopes ops p s = Some s'; until_single p \<rbrakk> \<Longrightarrow> ok s' \<and> free s' = free s"
proof (induction p arbitrary: s s')
  case (Guard r p)
  then obtain s1 s2 where s: "op_acquire ops r s = Some s1" "run_scopes ops p s1 = Some s2"
    "op_release ops r s2 = Some s'"
    by (simp add: SemaphoreGuard_def SemaphoreGuard_destroy_def) blast
  have "ok s2" "free s2 = free s - r"
    using acquire_law [OF Guard.prems(1) s(1)] Guard.IH [OF _ s(2)] Guard.prems(3) by simp_all
  with release_is [of s2 r s'] s(3) show ?case by simp
next
  case (Locked h r p)
  obtain b s1 where e: "adapter_enter ops h r s = Some (b, s1)"
    using Locked.prems(2) by (cases "adapter_enter ops h r s") auto
  have "h = By_try_lock_until \<longrightarrow> r = 1" "until_single p" using Locked.prems(3) by simp_all
  note s1 = enter_law [OF Locked.prems(1) e this(1)]
  show ?case
  proof (cases b)
    case False
    then have "s' = s1" using e Locked.prems(2) by simp
    with False s1 show ?thesis by simp
  next
    case True
    then obtain s2 where "run_scopes ops p s1 = Some s2" "op_release ops r s2 = Some s'"
      using e Locked.prems(2) by (simp add: adapter_unlock_def) blast
    with True s1 \<open>until_single p\<close> Locked.IH [of s1 s2] release_is [of s2 r s'] show ?thesis by simp
  qed
next
  case (Then p q)
  from Then.prems(2) obtain s1 where s: "run_scopes ops p s = Some s1" "run_scopes ops q s1 = Some s'"
    by (simp only: run_scopes.simps bind_Some_iff) blast
  from Then.IH(1) [OF Then.prems(1) s(1)] Then.IH(2) [OF _ s(2)] Then.prems(3) show ?case by simp
qed simp

text \<open>A guard whose permits are there does not block, and its body sees them gone.\<close>

lemma guard_takes:
  assumes "ok s" "sint r \<le> sint (free s)"
  obtains s' where "SemaphoreGuard ops r s = Some s'" "ok s'" "free s' = free s - r"
  using acquire_returns [OF assms] acquire_law [OF assms(1)] that
  by (auto simp: SemaphoreGuard_def)

end

section \<open>The two semaphores as instances\<close>

definition simple_ops :: "ssys sem_ops" where
  "simple_ops = \<lparr>
     op_acquire = (\<lambda>r s. let s' = ss_attempt 0 r False s in if spcs s' 0 = S_out then Some s' else None),
     op_release = (\<lambda>r s. Some (ss_add r s)),
     op_try_acquire = (\<lambda>r s. Some (ss_try_acquire r s)),
     op_try_acquire_for = (\<lambda>r s. let s' = ss_attempt 0 r True s
        in Some (if spcs s' 0 = S_out then (True, s') else (False, s))),
     op_try_acquire_until = (\<lambda>r s. let s' = ss_attempt 0 1 True s
        in Some (if spcs s' 0 = S_out then (True, s') else (False, s)))\<rparr>"

text \<open>
  \<open>QueuedSemaphore::try_acquire_until\<close> calls \<open>try_acquire0\<close> with two arguments and does not
  compile when it is used; it is absent here.  A timed request that cannot be served at once is
  entered into the record and the queue, and times out alone.
\<close>

definition queued_ops :: "qsem sem_ops" where
  "queued_ops = \<lparr>
     op_acquire = (\<lambda>r s. case qs_enter r s of Some (None, s') \<Rightarrow> Some s' | _ \<Rightarrow> None),
     op_release = qs_release,
     op_try_acquire = (\<lambda>r s. Some (qs_try_acquire r s)),
     op_try_acquire_for = (\<lambda>r s. case qs_enter r s of
          None \<Rightarrow> None
        | Some (None, s') \<Rightarrow> Some (True, s')
        | Some (Some p, s') \<Rightarrow> map_option (Pair False) (qs_timeout p s')),
     op_try_acquire_until = (\<lambda>r s. None)\<rparr>"

definition simple_ok :: "ssys \<Rightarrow> bool" where
  "simple_ok s \<longleftrightarrow> spcs s 0 = S_out"

definition queued_ok :: "qsem \<Rightarrow> bool" where
  "queued_ok s \<longleftrightarrow> wq_list (queue s) []"

interpretation simple_sem: sem_type simple_ops s_count simple_ok
  by unfold_locales
    (auto simp: simple_ops_def simple_ok_def ss_attempt_def ss_add_def ss_try_acquire_def Let_def
      split: if_splits)

lemma queued_wake:
  "wq_list (queue s) [] \<Longrightarrow> \<exists>s'. wake_if_enough s = Some s' \<and> wq_list (queue s') [] \<and> permits s' = permits s"
  using wq.wake_law [of "queue s" "[]"] by (auto simp: wake_if_enough_def)

lemma queued_release:
  "queued_ok s \<Longrightarrow> \<exists>s'. qs_release r s = Some s' \<and> queued_ok s' \<and> permits s' = permits s + r"
  using queued_wake [of "s\<lparr>permits := permits s + r\<rparr>"] by (simp add: qs_release_def queued_ok_def)

lemma queued_enter:
  assumes "queued_ok s" "qs_enter r s = Some (p, s')"
  shows "case p of None \<Rightarrow> queued_ok s' \<and> permits s' = permits s - r
    | Some n \<Rightarrow> wq_list (queue s') [n] \<and> permits s' = permits s"
  using assms wq.enq_law [of "queue s" "[]"]
  by (auto simp: qs_enter_def qs_wait_def queued_ok_def split: if_splits)

lemma queued_timeout:
  assumes "wq_list (queue s) [n]" "qs_timeout n s = Some s'"
  shows "queued_ok s' \<and> permits s' = permits s"
  using assms wq.rem_law [of "queue s" "[n]" n] by (auto simp: qs_timeout_def queued_ok_def)

interpretation queued_sem: sem_type queued_ops permits queued_ok
proof (unfold_locales, goal_cases)
  case (1 s r s')
  then show ?case using queued_enter [of s r None s']
    by (auto simp: queued_ops_def split: option.splits prod.splits)
next
  case (2 s r)
  then show ?case
    by (auto simp: queued_ops_def qs_enter_def queued_ok_def wq_list_is_empty)
next
  case (3 s r)
  then show ?case by (simp add: queued_ops_def queued_release)
next
  case (4 s r b s')
  then show ?case by (auto simp: queued_ops_def queued_ok_def qs_try_acquire_def split: if_splits)
next
  case (5 s r b s')
  then obtain p s1 where e: "qs_enter r s = Some (p, s1)"
    "case p of None \<Rightarrow> b \<and> s' = s1 | Some n \<Rightarrow> \<not> b \<and> qs_timeout n s1 = Some s'"
    by (auto simp: queued_ops_def split: option.splits)
  from queued_enter [OF 5(1) e(1)] e(2) queued_timeout [of s1 "the p" s'] show ?case
    by (cases p) auto
next
  case (6 s r b s')
  then show ?case by (simp add: queued_ops_def)
qed

section \<open>Properties\<close>

lemma simple_ok_init: "simple_ok (SimpleSemaphore n)"
  by (simp add: simple_ok_def SimpleSemaphore_def)

lemma queued_ok_init: "queued_ok (QueuedSemaphore n)"
  by (simp add: queued_ok_def QueuedSemaphore_def wq_list_WaitQueue)

text \<open>
  RAII balance.  Any nesting and sequence of guard scopes and of lock scopes over an adapter, on
  either semaphore, leaves the number of permits as it found it when it finishes, where
  \<open>try_lock_until\<close> is used for single permits only.
\<close>

lemma scopes_give_back_permits:
  assumes "until_single p"
  shows "(\<forall>s. run_scopes simple_ops p (SimpleSemaphore n) = Some s \<longrightarrow> s_count s = n) \<and>
   (\<forall>s. run_scopes queued_ops p (QueuedSemaphore n) = Some s \<longrightarrow> permits s = n)"
proof (intro conjI allI impI)
  fix s assume "run_scopes simple_ops p (SimpleSemaphore n) = Some s"
  from simple_sem.scopes_balanced [OF simple_ok_init this assms] show "s_count s = n"
    by (simp add: SimpleSemaphore_def)
next
  fix s assume "run_scopes queued_ops p (QueuedSemaphore n) = Some s"
  from queued_sem.scopes_balanced [OF queued_ok_init this assms] show "permits s = n"
    by (simp add: QueuedSemaphore_def)
qed

lemma scopes_give_back_permits_instance:
  "\<exists>s. run_scopes queued_ops (Guard 2 (Locked By_try_lock 1 Nothing)) (QueuedSemaphore 3) = Some s \<and>
     permits s = 3"
proof -
  have "run_scopes queued_ops (Guard 2 (Locked By_try_lock 1 Nothing)) (QueuedSemaphore 3) \<noteq> None"
    by code_simp
  then obtain s where
    "run_scopes queued_ops (Guard 2 (Locked By_try_lock 1 Nothing)) (QueuedSemaphore 3) = Some s"
    unfolding not_None_eq by blast
  moreover have "until_single (Guard 2 (Locked By_try_lock 1 Nothing))" by simp
  note scopes_give_back_permits [OF this, of 3]
  ultimately show ?thesis by blast
qed

text \<open>
  Over a \<open>SimpleSemaphore\<close> the adapter's \<open>try_lock_until\<close> breaks the balance: it succeeds
  as soon as one permit is there, takes that one, and the matching \<open>unlock\<close> gives back
  \<open>request\<close> permits.
\<close>

lemma adapter_try_lock_until_creates_permits:
  assumes "1 \<le> sint n"
  shows "\<exists>s s'. adapter_try_lock_until simple_ops request (SimpleSemaphore n) = Some (True, s) \<and>
    adapter_unlock simple_ops request s = Some s' \<and> s_count s' = n - 1 + request"
  using assms
  by (auto simp: adapter_try_lock_until_def adapter_unlock_def simple_ops_def ss_attempt_def
      SimpleSemaphore_def ss_add_def Let_def)

lemma adapter_try_lock_until_creates_permits_instance:
  "\<exists>s s'. adapter_try_lock_until simple_ops 3 (SimpleSemaphore 1) = Some (True, s) \<and>
    adapter_unlock simple_ops 3 s = Some s' \<and> s_count s' = 1 - 1 + 3"
proof -
  have "1 \<le> sint (1 :: u32)" by simp
  from adapter_try_lock_until_creates_permits [OF this] show ?thesis by blast
qed

end
