(* ===== verification/Queued_Properties.thy ===== *)
theory Queued_Properties
  imports Queued_Semaphore
begin

text \<open>
  The properties of \<open>QueuedSemaphore\<close>, stated over the code's state and transferred from the
  abstract semaphore along the bisimulation of \<^verbatim>\<open>Queued_Semaphore\<close>, and of its
  \<open>WaitQueue\<close> under an arbitrary client.
\<close>

section \<open>An arbitrary client of the wait queue\<close>

text \<open>
  The client remembers the nodes \<open>enqueue\<close> gave it and removes any of them by its position
  (a position outside the list is a call of \<open>remove(nullptr)\<close>).
\<close>

datatype wq_op = W_enqueue | W_remove nat | W_dequeue | W_wake_head

fun wq_client :: "wq_op list \<Rightarrow> wait_queue \<times> ptr list \<Rightarrow> (wait_queue \<times> ptr list) option" where
  "wq_client [] c = Some c"
| "wq_client (W_enqueue # ops) (q, xs) = do {
     (p, q) \<leftarrow> enqueue q;
     wq_client ops (q, xs @ [p]) }"
| "wq_client (W_remove i # ops) (q, xs) = do {
     q \<leftarrow> remove (if i < length xs then Some (xs ! i) else None) q;
     wq_client ops (q, take i xs @ drop (Suc i) xs) }"
| "wq_client (W_dequeue # ops) (q, xs) = do { q \<leftarrow> dequeue q; wq_client ops (q, tl xs) }"
| "wq_client (W_wake_head # ops) (q, xs) = do { q \<leftarrow> wake_head q; wq_client ops (q, xs) }"

lemma wq_client_list:
  "wq_list q xs \<Longrightarrow> \<exists>q' xs'. wq_client ops (q, xs) = Some (q', xs') \<and> wq_list q' xs'"
proof (induction ops arbitrary: q xs)
  case Nil
  then show ?case by simp
next
  case (Cons op ops)
  show ?case
  proof (cases op)
    case W_enqueue
    with wq.enq_law [OF Cons.prems] Cons.IH show ?thesis by fastforce
  next
    case W_wake_head
    with wq.wake_law [OF Cons.prems] Cons.IH show ?thesis by fastforce
  next
    case W_dequeue
    then show ?thesis
    proof (cases xs)
      case Nil
      then have "dequeue q = Some q"
        using wq_list_head [OF Cons.prems] by (simp add: dequeue_def remove_def)
      with Nil W_dequeue Cons show ?thesis by simp
    next
      case (Cons x ys)
      with wq.deq_law [of q x ys] W_dequeue Cons.prems Cons.IH show ?thesis by fastforce
    qed
  next
    case (W_remove i)
    show ?thesis
    proof (cases "i < length xs")
      case False
      then show ?thesis using W_remove Cons by (simp add: remove_def)
    next
      case True
      have "distinct xs" using Cons.prems by (rule wq.list_distinct)
      then have "remove1 (xs ! i) xs = take i xs @ drop (Suc i) xs"
        using True id_take_nth_drop [OF True]
        by (metis distinct_split_unique remove1_split in_set_conv_decomp not_distinct_conv_prefix
            distinct.simps(2) distinct_append list.set_intros(1) disjoint_iff_not_equal)
      with wq.rem_law [OF Cons.prems, of "xs ! i"] True W_remove Cons.IH show ?thesis by fastforce
    qed
  qed
qed

text \<open>
  C27: for every client, \<open>WaitQueue\<close> never dereferences a null or freed node, counts its
  waiting nodes correctly, loses no node (the allocated nodes are exactly \<open>cur_queue_capacity\<close>
  many) and its destructor frees each of them exactly once.
\<close>

theorem wait_queue_client_safe:
  "\<exists>q xs. wq_client ops (WaitQueue, []) = Some (q, xs) \<and>
     num_waiting_nodes q = Some (of_nat (length xs)) \<and> (is_empty q \<longleftrightarrow> xs = []) \<and>
     card (dom (nodes q)) = cur_queue_capacity q \<and>
     (\<exists>q'. WaitQueue_destroy q = Some q' \<and> nodes q' = Map.empty)"
proof -
  obtain q xs where c: "wq_client ops (WaitQueue, []) = Some (q, xs)" "wq_list q xs"
    using wq_client_list [OF wq_list_WaitQueue] by blast
  obtain cs where i: "wq_inv q xs cs" using c(2) by (auto simp: wq_list_def)
  have "card (dom (nodes q)) = cur_queue_capacity q"
    using i distinct_card [of "xs @ cs"] by (simp add: wq_inv_def)
  with c num_waiting_nodes_spec [OF i] is_empty_spec [OF i] WaitQueue_destroy_spec [OF i]
  show ?thesis by blast
qed

section \<open>Refinement and safety of the semaphore\<close>

lemma reachable_rel:
  assumes "runs qsem_step es (qsys_init n) = Some s"
  obtains a where "runs aq_step es (aqsem_init n) = Some a" "q_rel s a"
  using qsim.runs_forth [OF q_rel_init assms] by blast

lemma reachable_books:
  assumes "runs qsem_step es (qsys_init n) = Some s"
  obtains a where "runs aq_step es (aqsem_init n) = Some a" "q_rel s a" "aq_books n a"
  using reachable_rel [OF assms] aqb.runs_inv [OF aq_books_init] by metis

text \<open>
  C3: the semaphore with its pointer-linked queue, node cache and sorted record refines the abstract
  list-based semaphore: the same schedules run on both, and after each of them the permits, the
  number of waiting nodes, the status and the whole history of grants and timeouts agree.
\<close>

theorem qsem_refines_list_semaphore:
  "map_option qsem_view (runs qsem_step es (qsys_init n)) =
   map_option aqsem_view (runs aq_step es (aqsem_init n))"
  using qsim.runs_bisim [OF q_rel_init, of es n]
  by (cases "runs qsem_step es (qsys_init n)"; cases "runs aq_step es (aqsem_init n)")
    (auto dest: q_rel_view)

text \<open>
  C13: no schedule dereferences a bad node, and whenever a thread wakes up its own node is the head of
  the queue, so the \<open>dequeue()\<close> after the wait removes the node the thread waited on.
\<close>

theorem qsem_memory_safe:
  assumes "runs qsem_step es (qsys_init n) = Some s"
  shows "q_status s \<noteq> Faulted \<and>
    (\<forall>t p r timed. qpcs s t = Q_wait p r timed \<and> wakes (queue (sem s)) p \<longrightarrow>
       q_head (queue (sem s)) = Some p)"
proof -
  obtain a where a: "q_rel s a" "aq_books n a" using reachable_books [OF assms] by blast
  then have "q_status s \<noteq> Faulted" by (auto simp: q_rel_def q_match_def aq_books_def)
  with q_rel_woken_head [OF a(1)] show ?thesis by blast
qed

theorem qsem_memory_safe_witness:
  "\<exists>s. runs qsem_step [Q_acquire 0 1 False, Q_release 1] (qsys_init 0) = Some s \<and>
     q_status s \<noteq> Faulted"
proof -
  have "runs qsem_step [Q_acquire 0 1 False, Q_release 1] (qsys_init 0) \<noteq> None" by code_simp
  then obtain s where s: "runs qsem_step [Q_acquire 0 1 False, Q_release 1] (qsys_init 0) = Some s"
    by auto
  with qsem_memory_safe [OF s] show ?thesis by blast
qed

section \<open>Accounting\<close>

text \<open>The threads waiting with a given request.\<close>

definition waiting_for :: "u32 \<Rightarrow> qsys \<Rightarrow> tid set" where
  "waiting_for r s = {t. \<exists>p timed. qpcs s t = Q_wait p r timed}"

lemma count_requests_of:
  assumes "distinct (map fst ws)"
  shows "count (requests_of (map call_of ws)) r = card {t. \<exists>p b. map_of ws t = Some (p, r, b)}"
  using assms
proof (induction ws)
  case Nil
  then show ?case by simp
next
  case (Cons w ws)
  obtain t p q b where w: "w = (t, p, q, b)" by (cases w) auto
  let ?S = "{u. \<exists>p b. map_of ws u = Some (p, r, b)}"
  have t: "map_of ws t = None" using Cons.prems w by (auto simp: map_of_eq_None_iff)
  have fin: "finite ?S"
    by (rule finite_subset [OF _ finite_dom_map_of [of ws]]) auto
  have "{u. \<exists>p b. map_of (w # ws) u = Some (p, r, b)} = (if q = r then insert t ?S else ?S)"
    using w t by auto
  moreover have "t \<notin> ?S" using t by simp
  ultimately show ?case using Cons w fin by simp
qed

lemma q_rel_waiting:
  assumes "q_rel s a"
  shows "count (requests_of (aq_waiting a)) r = card (waiting_for r s)"
    and "set (map fst (aq_waiting a)) = {t. qpcs s t \<noteq> Q_out}"
proof -
  obtain ws where m: "q_match ws s a" using assms by (auto simp: q_rel_def)
  then show "count (requests_of (aq_waiting a)) r = card (waiting_for r s)"
    by (simp add: q_match_def waiting_for_def count_requests_of)
  have "(qpcs s t \<noteq> Q_out) = (t \<in> fst ` set ws)" for t
    using m by (auto simp: q_match_def map_of_eq_None_iff)
  then show "set (map fst (aq_waiting a)) = {t. qpcs s t \<noteq> Q_out}"
    using m by (auto simp: q_match_def call_of_def image_image)
qed

text \<open>
  C29: permits are conserved in 32-bit arithmetic, and the request record counts, for every size, the
  threads that wait for it and every request of that size that has ever timed out: a timeout leaks
  its entry.
\<close>

theorem qsem_accounting:
  assumes "runs qsem_step es (qsys_init n) = Some s"
  shows "permits (sem s) = n + of_nat (returned (q_log s)) - of_nat (handed (q_log s)) \<and>
    record_count (request_record (sem s)) r
      = card (waiting_for r s) + count (expired (q_log s)) r"
proof -
  obtain a where a: "q_rel s a" "aq_books n a" using reachable_books [OF assms] by blast
  then have "permits (sem s) = aq_permits a" "q_log s = aq_log a"
    "record_count (request_record (sem s)) = count (aq_record a)"
    by (auto simp: q_rel_def q_match_def record_match_def)
  with a(2) q_rel_waiting(1) [OF a(1), of r] show ?thesis by (simp add: aq_books_def)
qed

theorem qsem_accounting_witness:
  "\<exists>s. runs qsem_step [Q_acquire 0 3 True, Q_timeout 0] (qsys_init 1) = Some s \<and>
     record_count (request_record (sem s)) 3 = card (waiting_for 3 s) + count (expired (q_log s)) 3"
proof -
  have "runs qsem_step [Q_acquire 0 3 True, Q_timeout 0] (qsys_init 1) \<noteq> None" by code_simp
  then obtain s where s: "runs qsem_step [Q_acquire 0 3 True, Q_timeout 0] (qsys_init 1) = Some s"
    by auto
  with qsem_accounting [OF s] show ?thesis by blast
qed

lemma reachable_sound:
  assumes "runs qsem_step es (qsys_init n) = Some s" "list_all small es" "fits n (q_log s)"
  shows "q_status s = Running" "unat (permits (sem s)) < 2 ^ 31"
    "unat (permits (sem s)) + handed (q_log s) = unat n + returned (q_log s)"
proof -
  obtain a where a: "runs aq_step es (aqsem_init n) = Some a" "q_rel s a"
    using reachable_rel [OF assms(1)] by blast
  have eq: "permits (sem s) = aq_permits a" "q_log s = aq_log a" "q_status s = aq_status a"
    using a(2) by (auto simp: q_rel_def q_match_def)
  have snd: "aq_sound n a" using aqs.runs_inv [OF aq_sound_init assms(2) a(1)] .
  have rng: "in_range n a" using assms(3) eq by (simp add: in_range_def)
  show "q_status s = Running" "unat (permits (sem s)) < 2 ^ 31"
    "unat (permits (sem s)) + handed (q_log s) = unat n + returned (q_log s)"
    using snd rng sound_permits [OF snd rng] unfolding eq by (simp_all add: aq_sound_def)
qed

text \<open>
  C28: as long as the free permits have stayed within the range of \<open>int\<close> and requests are non-negative
  as \<open>int\<close>, the \<open>BOOM!\<close> check never terminates the process, permits never become negative, and
  available and handed-out permits add up exactly.
\<close>

theorem qsem_never_negative:
  assumes "runs qsem_step es (qsys_init n) = Some s" "list_all small es"
    and "fits n (q_log s)"
  shows "q_status s = Running \<and> 0 \<le> available_permits (sem s) \<and>
    available_permits (sem s) + int (handed (q_log s)) = int (unat n) + int (returned (q_log s))"
proof -
  note r = reachable_sound [OF assms]
  have "available_permits (sem s) = int (unat (permits (sem s)))"
    unfolding available_permits_def by (rule sint_small [OF r(2)])
  with r(1,3) show ?thesis by (metis of_nat_0_le_iff of_nat_add)
qed

theorem qsem_never_negative_witness:
  "\<exists>s. runs qsem_step [Q_acquire 0 2 False, Q_release 3, Q_resume 0] (qsys_init 0) = Some s \<and>
     q_status s = Running \<and> 0 \<le> available_permits (sem s)"
proof -
  let ?es = "[Q_acquire 0 2 False, Q_release 3, Q_resume 0]"
  have "map_option (\<lambda>s. returned (q_log s)) (runs qsem_step ?es (qsys_init 0)) = Some 3" by code_simp
  then obtain s where s: "runs qsem_step ?es (qsys_init 0) = Some s" "fits 0 (q_log s)"
    by (elim map_option_SomeE) (simp add: fits_total)
  have "list_all small ?es" by (simp add: small_def)
  from qsem_never_negative [OF s(1) this s(2)] s(1) show ?thesis by blast
qed

section \<open>Wake-ups and order\<close>

text \<open>A waiting thread that can be served has been woken, or one before it has.\<close>

lemma capped_waiter_granted:
  assumes "runs qsem_step es (qsys_init n) = Some s" "list_all (capped m) es"
    and "fits n (q_log s)"
    and "qpcs s t \<noteq> Q_out" "sint m \<le> available_permits (sem s)"
  shows "\<exists>u r s'. qsem_step (Q_resume u) s = Some s' \<and> q_log s' = q_log s @ [Granted u r]"
proof -
  obtain a where a: "runs aq_step es (aqsem_init n) = Some a" "q_rel s a"
    using reachable_rel [OF assms(1)] by blast
  have eq: "permits (sem s) = aq_permits a" "q_log s = aq_log a"
    using a(2) by (auto simp: q_rel_def q_match_def)
  have c: "aq_capped n m a" using aqc.runs_inv [OF aq_capped_init assms(2) a(1)] .
  have rng: "in_range n a" using assms(3) eq by (simp add: in_range_def)
  have run: "aq_status a = Running" and aw: "awake m a"
    using c rng by (simp_all add: aq_capped_def aq_sound_def)
  obtain v r timed ws where w: "aq_waiting a = (v, r, timed) # ws"
    using q_rel_waiting(2) [OF a(2)] assms(4) by (cases "aq_waiting a") auto
  have "sint r \<le> sint m" using aw w by (simp add: awake_def)
  then obtain b where b: "aq_step (Q_resume v) a = Some b" "aq_log b = aq_log a @ [Granted v r]"
    using w aw run assms(5) eq by (auto simp: awake_def available_permits_def Let_def)
  from qsim.bisim [OF a(2), of "Q_resume v"] b(1) obtain s'
    where "qsem_step (Q_resume v) s = Some s'" "q_rel s' b"
    by (cases "qsem_step (Q_resume v) s") auto
  with b(2) eq(2) show ?thesis by (auto simp: q_rel_def q_match_def)
qed

text \<open>
  C14: no wake-up is lost while there are permits for any of the requests.  Where blocking and timed
  requests, of any sizes, are for at most \<open>m\<close> permits, whenever some thread waits and \<open>m\<close> permits are
  available, a waiting thread has been woken and its next step is to acquire.  This covers any
  mixture of timed waits, timeouts, releases and \<open>try_acquire\<close> calls, although timeouts leak entries
  of the request record; with one request size, \<open>m\<close> is that size.
\<close>

theorem qsem_no_lost_wakeup:
  assumes "runs qsem_step es (qsys_init n) = Some s" "list_all (capped m) es"
    and "fits n (q_log s)"
    and "qpcs s t \<noteq> Q_out" "sint m \<le> available_permits (sem s)"
  shows "\<exists>u r s'. qsem_step (Q_resume u) s = Some s' \<and> q_log s' = q_log s @ [Granted u r]"
  using assms by (rule capped_waiter_granted)

text \<open>The sizes differ, and a request that timed out has left its entry behind.\<close>

theorem qsem_no_lost_wakeup_witness:
  "\<exists>s. runs qsem_step [Q_acquire 2 4 True, Q_timeout 2, Q_acquire 0 5 False, Q_acquire 1 2 True, Q_release 3, Q_resume 0,
       Q_release 1] (qsys_init 1) = Some s \<and>
     (\<exists>u r s'. qsem_step (Q_resume u) s = Some s' \<and> q_log s' = q_log s @ [Granted u r])"
proof -
  let ?es = "[Q_acquire 2 4 True, Q_timeout 2, Q_acquire 0 5 False, Q_acquire 1 2 True, Q_release 3, Q_resume 0,
       Q_release 1]"
  have "map_option (\<lambda>s. (returned (q_log s), qpcs s 0 = Q_out, 5 \<le> available_permits (sem s)))
      (runs qsem_step ?es (qsys_init 1)) = Some (4, False, True)" by code_simp
  then obtain s where s: "runs qsem_step ?es (qsys_init 1) = Some s" "fits 1 (q_log s)"
    "qpcs s 0 \<noteq> Q_out" "5 \<le> available_permits (sem s)" by (elim map_option_SomeE) (simp add: fits_total)
  have "list_all (capped 5) ?es" "sint (5 :: u32) \<le> available_permits (sem s)"
    using s(4) by (simp_all add: capped_def small_def)
  from qsem_no_lost_wakeup [OF s(1) this(1) s(2,3) this(2)] s(1) show ?thesis by blast
qed

text \<open>
  C16: with one request size and without timeouts and \<open>try_acquire\<close> the semaphore is fair: permits
  are granted in the order of arrival, the threads still waiting being exactly the rest.
\<close>

theorem qsem_fifo:
  assumes "runs qsem_step es (qsys_init n) = Some s" "list_all (plain r) es"
    and "fits n (q_log s)"
  shows "\<exists>rest. arrivals (q_log s) = grants (q_log s) @ rest \<and> set rest = {t. qpcs s t \<noteq> Q_out}"
proof -
  obtain a where a: "runs aq_step es (aqsem_init n) = Some a" "q_rel s a"
    using reachable_rel [OF assms(1)] by blast
  have eq: "q_log s = aq_log a" using a(2) by (auto simp: q_rel_def q_match_def)
  have "aq_fifo n r a" using aqf.runs_inv [OF aq_fifo_init assms(2) a(1)] .
  moreover have "in_range n a" using assms(3) eq by (simp add: in_range_def)
  ultimately have "arrivals (aq_log a) = grants (aq_log a) @ map fst (aq_waiting a)"
    by (simp add: aq_fifo_def in_order_def)
  with eq q_rel_waiting(2) [OF a(2)] show ?thesis by metis
qed

theorem qsem_fifo_witness:
  "\<exists>s rest. runs qsem_step [Q_acquire 3 1 False, Q_acquire 1 1 False, Q_release 1, Q_resume 3]
       (qsys_init 0) = Some s \<and> arrivals (q_log s) = grants (q_log s) @ rest"
proof -
  let ?es = "[Q_acquire 3 1 False, Q_acquire 1 1 False, Q_release 1, Q_resume 3]"
  have "map_option (\<lambda>s. returned (q_log s)) (runs qsem_step ?es (qsys_init 0)) = Some 1" by code_simp
  then obtain s where s: "runs qsem_step ?es (qsys_init 0) = Some s" "fits 0 (q_log s)"
    by (elim map_option_SomeE) (simp add: fits_total)
  have "list_all (plain 1) ?es" by (simp add: plain_def small_def)
  from qsem_fifo [OF s(1) this s(2)] s(1) show ?thesis by blast
qed

text \<open>
  With requests of different sizes a wake-up is lost where there are permits for some of them only, and
  the arrival order with it.  Thread 0 waits for 5 permits and thread 1, behind it, for 2; three
  permits are released.  Thread 0 is woken, finds too little and queues again at the tail; from then on
  thread 1 is at the head, two permits would do, three are available, and no thread has been woken.
\<close>

lemma qsem_mixed_sizes_lose_wakeup:
  "map_option (\<lambda>s. (available_permits (sem s), qpcs s 1 = Q_wait (the (q_head (queue (sem s)))) 2 False,
       qsem_step (Q_resume 0) s = None, qsem_step (Q_resume 1) s = None))
     (runs qsem_step [Q_acquire 0 5 False, Q_acquire 1 2 False, Q_release 3, Q_resume 0] (qsys_init 0))
   = Some (3, True, True, True)"
  by code_simp

text \<open>
  \<open>try_acquire\<close> compares as unsigned: with negative permits every request that is
  non-negative as \<open>int\<close> is granted although \<open>acquire\<close> would wait.
\<close>

lemma qsem_try_acquire_negative:
  assumes "available_permits s < 0" "unat request < 2 ^ 31"
  shows "fst (qs_try_acquire request s) \<and>
    (\<forall>r. qs_enter request s = Some r \<longrightarrow> fst r \<noteq> None)"
proof -
  have "\<not> unat (permits s) < 2 ^ 31"
    using assms(1) sint_small [of "permits s"] by (auto simp: available_permits_def)
  then have "request \<le> permits s"
    using assms(2) unfolding word_le_nat_alt by linarith
  moreover have "\<not> sint request \<le> sint (permits s)"
    unfolding sint_small [OF assms(2)] using assms(1) unfolding available_permits_def by linarith
  ultimately show ?thesis
    by (auto simp: qs_try_acquire_def qs_enter_def qs_wait_def)
qed

lemma qsem_try_acquire_negative_instance:
  "fst (qs_try_acquire 1000 (QueuedSemaphore (- 1)))"
proof -
  have "available_permits (QueuedSemaphore (- 1)) < 0" "unat (1000 :: u32) < 2 ^ 31"
    by (simp_all add: available_permits_def QueuedSemaphore_def)
  from qsem_try_acquire_negative [OF this] show ?thesis by blast
qed

end
