(* ===== verification/Guarded_Sections.thy ===== *)
theory Guarded_Sections
  imports Semaphore_Guard Queued_Properties
begin

text \<open>
  Any number of threads that use one semaphore only through \<open>SemaphoreGuard\<close> and
  \<open>SemaphoreTimedLockableAdapter\<close> (\<^verbatim>\<open>concurrency/semaphore.h\<close>), so that every permit that is
  released has been acquired by a scope that ends.  The threads run over the event systems of the two
  semaphores, which the record \<open>sem_threads\<close> presents to them; what a client may rely on is the locale
  \<open>sem_sections\<close>, interpreted on both.
\<close>

section \<open>A semaphore as its threads see it\<close>

text \<open>
  \<open>ev_inner e = Some t\<close>: the event belongs to a call thread \<open>t\<close> is blocked in; \<open>ev_gets\<close> is the number of
  permits a call has acquired when it returns (with \<open>true\<close>) in this step, \<open>ev_waits\<close> the number a
  blocked call will acquire.  \<open>ev_try_acquire_until\<close> is \<open>None\<close> where it does not compile.
\<close>

record ('e, 's) sem_threads =
  ev_step :: "'e \<Rightarrow> 's \<Rightarrow> 's option"
  ev_acquire :: "tid \<Rightarrow> u32 \<Rightarrow> 'e"
  ev_try_acquire :: "tid \<Rightarrow> u32 \<Rightarrow> 'e"
  ev_try_acquire_for :: "tid \<Rightarrow> u32 \<Rightarrow> 'e"
  ev_try_acquire_until :: "tid \<Rightarrow> u32 \<Rightarrow> 'e option"
  ev_release :: "tid \<Rightarrow> u32 \<Rightarrow> 'e"
  ev_inner :: "'e \<Rightarrow> tid option"
  ev_idle :: "'s \<Rightarrow> tid \<Rightarrow> bool"
  ev_gets :: "'e \<Rightarrow> 's \<Rightarrow> 's \<Rightarrow> u32 option"
  ev_waits :: "'s \<Rightarrow> tid \<Rightarrow> u32 option"

text \<open>The calls that open a scope: the constructor of the guard and the adapter's ways to lock.\<close>

datatype entry = By_guard | By_adapter how

fun enter_event :: "('e, 's) sem_threads \<Rightarrow> entry \<Rightarrow> tid \<Rightarrow> u32 \<Rightarrow> 'e option" where
  "enter_event M By_guard t request = Some (ev_acquire M t request)"
| "enter_event M (By_adapter By_lock) t request = Some (ev_acquire M t request)"
| "enter_event M (By_adapter By_try_lock) t request = Some (ev_try_acquire M t request)"
| "enter_event M (By_adapter By_try_lock_for) t request = Some (ev_try_acquire_for M t request)"
| "enter_event M (By_adapter By_try_lock_until) t request = ev_try_acquire_until M t request"

text \<open>Leaving a scope: the destructor of the guard, or \<open>unlock\<close>.\<close>

definition leave_event :: "('e, 's) sem_threads \<Rightarrow> tid \<Rightarrow> u32 \<Rightarrow> 'e" where
  "leave_event M t request = ev_release M t request"

datatype 'e section_event = Enter entry tid u32 | Leave tid | Inner 'e

text \<open>
  The scopes a thread is in, innermost first, with the permits each of them will release, and the request
  of the scope a thread entered or tried to enter last.
\<close>

type_synonym scopes_held = "tid \<Rightarrow> u32 list"
type_synonym requests = "tid \<Rightarrow> u32"
type_synonym 's sections = "'s \<times> scopes_held \<times> requests"

text \<open>A scope begins when the call that opens it returns; its end will release what it requested.\<close>

definition after_call :: "('e, 's) sem_threads \<Rightarrow> tid \<Rightarrow> 'e \<Rightarrow> 's sections \<Rightarrow> 's sections option" where
  "after_call M t e = (\<lambda>(s, h, w). map_option (\<lambda>s'. (s', case ev_gets M e s s' of
       None \<Rightarrow> h | Some r \<Rightarrow> h(t := w t # h t), w)) (ev_step M e s))"

fun section_step :: "('e, 's) sem_threads \<Rightarrow> 'e section_event \<Rightarrow> 's sections \<Rightarrow> 's sections option" where
  "section_step M (Enter k t r) (s, h, w) =
     (case enter_event M k t r of
        None \<Rightarrow> None
      | Some e \<Rightarrow> if ev_idle M s t then after_call M t e (s, h, w(t := r)) else None)"
| "section_step M (Inner e) (s, h, w) =
     (case ev_inner M e of None \<Rightarrow> None | Some t \<Rightarrow> after_call M t e (s, h, w))"
| "section_step M (Leave t) (s, h, w) =
     (case h t of
        [] \<Rightarrow> None
      | r # rs \<Rightarrow> if ev_idle M s t
          then map_option (\<lambda>s'. (s', h(t := rs), w)) (ev_step M (leave_event M t r) s) else None)"

definition outside :: "'s \<Rightarrow> 's sections" where
  "outside s = (s, \<lambda>_. [], \<lambda>_. 0)"

text \<open>
  Requests in the range of \<open>int\<close>, and \<open>try_lock_until\<close> for single permits only: it takes one
  permit whatever the request is.
\<close>

fun section_small :: "'e section_event \<Rightarrow> bool" where
  "section_small (Enter k t r) \<longleftrightarrow> unat r < 2 ^ 31 \<and> (k = By_adapter By_try_lock_until \<longrightarrow> r = 1)"
| "section_small _ \<longleftrightarrow> True"

definition takes :: "entry \<Rightarrow> u32 \<Rightarrow> u32" where
  "takes k r = (if k = By_adapter By_try_lock_until then 1 else r)"

lemma takes_small: "section_small (Enter k t r) \<Longrightarrow> takes k r = r"
  by (simp add: takes_def)

text \<open>The event of the semaphore behind a step of a thread.\<close>

fun event_of :: "('e, 's) sem_threads \<Rightarrow> 'e section_event \<Rightarrow> scopes_held \<Rightarrow> 'e" where
  "event_of M (Enter k t r) h = the (enter_event M k t r)"
| "event_of M (Leave t) h = leave_event M t (hd (h t))"
| "event_of M (Inner e) h = e"

section \<open>The permits in use\<close>

definition held_by :: "scopes_held \<Rightarrow> tid \<Rightarrow> nat" where
  "held_by h t = (\<Sum>r \<leftarrow> h t. unat r)"

definition in_use :: "scopes_held \<Rightarrow> nat" where
  "in_use h = (\<Sum>t | h t \<noteq> []. held_by h t)"

lemma in_use_over:
  assumes "finite T" "{t. h t \<noteq> []} \<subseteq> T" shows "in_use h = (\<Sum>t\<in>T. held_by h t)"
  unfolding in_use_def using assms by (intro sum.mono_neutral_left) (auto simp: held_by_def)

lemma in_use_update:
  assumes "finite {u. h u \<noteq> []}"
  shows "in_use (h(t := rs)) + held_by h t = in_use h + (\<Sum>r \<leftarrow> rs. unat r)"
    and "finite {u. (h(t := rs)) u \<noteq> []}"
proof -
  let ?T = "insert t {u. h u \<noteq> []}"
  have T: "finite ?T" using assms by simp
  have "in_use (h(t := rs)) = (\<Sum>u\<in>?T. held_by (h(t := rs)) u)" by (rule in_use_over [OF T]) auto
  moreover have "in_use h = (\<Sum>u\<in>?T. held_by h u)" by (rule in_use_over [OF T]) auto
  ultimately show "in_use (h(t := rs)) + held_by h t = in_use h + (\<Sum>r \<leftarrow> rs. unat r)"
    using sum_change_one [OF T, of t "held_by (h(t := rs))" "held_by h"] by (simp add: held_by_def)
  show "finite {u. (h(t := rs)) u \<noteq> []}" by (rule finite_subset [OF _ T]) auto
qed

lemma in_use_push: "finite {u. h u \<noteq> []} \<Longrightarrow> in_use (h(t := r # h t)) = in_use h + unat r"
  using in_use_update(1) [of h t "r # h t"] by (simp add: held_by_def)

lemma in_use_pop: "\<lbrakk> finite {u. h u \<noteq> []}; h t = r # rs \<rbrakk> \<Longrightarrow> in_use (h(t := rs)) + unat r = in_use h"
  using in_use_update(1) [of h t rs] by (simp add: held_by_def)

lemma in_use_none [simp]: "in_use (\<lambda>_. []) = 0"
  by (simp add: in_use_def)

lemma in_use_member:
  assumes "finite {u. h u \<noteq> []}" "T \<subseteq> {u. h u \<noteq> []}" shows "(\<Sum>t\<in>T. held_by h t) \<le> in_use h"
  unfolding in_use_def by (rule sum_mono2) (use assms in auto)

section \<open>What the threads rely on\<close>

text \<open>What one step of a call may do to the free permits and to the history.\<close>

definition call_effect :: "u32 \<Rightarrow> u32 \<Rightarrow> u32 option \<Rightarrow> q_entry list \<Rightarrow> bool" where
  "call_effect c c' got l \<longleftrightarrow> returned l = 0 \<and>
     (case got of None \<Rightarrow> c' = c \<and> handed l = 0
      | Some r \<Rightarrow> r \<le> c \<and> c' = c - r \<and> handed l = unat r)"

lemma call_effect_arrived: "call_effect c c' got (Arrived t r # l) = call_effect c c' got l"
  by (simp add: call_effect_def split: option.split)

locale sem_sections =
  fixes M :: "('e, 's) sem_threads"
    and free :: "'s \<Rightarrow> u32"
    and log :: "'s \<Rightarrow> q_entry list"
    and good :: "'s \<Rightarrow> bool"
  assumes call_law: "\<lbrakk> good s; unat (free s) < 2 ^ 31; ev_step M e s = Some s';
        ev_inner M e = Some t \<or> (\<exists>k r. enter_event M k t r = Some e \<and> unat r < 2 ^ 31) \<rbrakk> \<Longrightarrow>
      good s' \<and> (\<exists>l. log s' = log s @ l \<and> call_effect (free s) (free s') (ev_gets M e s s') l)"
    and waits_law: "\<lbrakk> ev_step M e s = Some s';
        ev_inner M e = Some t \<and> (\<forall>b. ev_waits M s t = Some b \<longrightarrow> b = a) \<or>
        ev_idle M s t \<and> (\<exists>k r. enter_event M k t r = Some e \<and> takes k r = a) \<rbrakk> \<Longrightarrow>
      (\<forall>b. ev_gets M e s s' = Some b \<longrightarrow> b = a) \<and>
      (\<forall>u b. ev_waits M s' u = Some b \<longrightarrow> (if u = t then b = a else ev_waits M s u = Some b))"
    and leave_waits: "\<lbrakk> ev_step M (leave_event M t r) s = Some s'; ev_waits M s' u = Some b \<rbrakk> \<Longrightarrow>
      ev_waits M s u = Some b"
    and leave_law: "\<lbrakk> good s; ev_step M (leave_event M t r) s = Some s' \<rbrakk> \<Longrightarrow>
      good s' \<and> free s' = free s + r \<and> log s' = log s @ [Returned r]"
begin

definition section_books :: "u32 \<Rightarrow> 's \<Rightarrow> scopes_held \<Rightarrow> bool" where
  "section_books n s h \<longleftrightarrow> good s \<and> finite {t. h t \<noteq> []} \<and> unat n < 2 ^ 31 \<and>
     unat (free s) + in_use h = unat n \<and> fits n (log s) \<and>
     unat (free s) + handed (log s) = unat n + returned (log s)"

definition section_inv :: "u32 \<Rightarrow> 's sections \<Rightarrow> bool" where
  "section_inv n = (\<lambda>(s, h, w). section_books n s h \<and> (\<forall>t r. ev_waits M s t = Some r \<longrightarrow> w t = r))"

lemma call_inv:
  assumes inv: "section_books n s h" "\<forall>u r. u \<noteq> t \<and> ev_waits M s u = Some r \<longrightarrow> w u = r"
    and step: "after_call M t e (s, h, w) = Some (s', h', w')"
    and e: "ev_inner M e = Some t \<and> (\<forall>b. ev_waits M s t = Some b \<longrightarrow> b = w t) \<or>
      ev_idle M s t \<and> (\<exists>k r. enter_event M k t r = Some e \<and> unat r < 2 ^ 31 \<and> takes k r = w t)"
  shows "section_inv n (s', h', w')"
proof -
  have small: "unat (free s) < 2 ^ 31" using inv by (auto simp: section_books_def)
  obtain st: "ev_step M e s = Some s'" and w': "w' = w"
    and h': "h' = (case ev_gets M e s s' of None \<Rightarrow> h | Some r \<Rightarrow> h(t := w t # h t))"
    using step by (auto simp: after_call_def)
  have gets: "\<forall>b. ev_gets M e s s' = Some b \<longrightarrow> b = w t"
    and waits: "\<forall>u b. ev_waits M s' u = Some b \<longrightarrow> (if u = t then b = w t else ev_waits M s u = Some b)"
    using waits_law [OF st, of t "w t"] e by blast+
  have "ev_inner M e = Some t \<or> (\<exists>k r. enter_event M k t r = Some e \<and> unat r < 2 ^ 31)" using e by blast
  from call_law [OF _ small st this] inv obtain l where l: "good s'" "log s' = log s @ l"
    "call_effect (free s) (free s') (ev_gets M e s s') l" by (auto simp: section_books_def)
  have fit: "fits n (log s')" unfolding l(2) using inv l(3)
    by (intro fits_mono) (auto simp: section_books_def call_effect_def)
  have "section_books n s' h'"
  proof (cases "ev_gets M e s s'")
    case None
    with inv l fit h' show ?thesis by (simp add: section_books_def call_effect_def)
  next
    case (Some r)
    with gets have r: "w t = r" by simp
    then have "r \<le> free s" "free s' = free s - r" "returned l = 0" "handed l = unat r"
      using l(3) Some by (simp_all add: call_effect_def)
    moreover from take_small [OF this(1)] this(2) have "unat (free s') + unat r = unat (free s)" by simp
    moreover have "in_use h' = in_use h + unat r" "finite {u. h' u \<noteq> []}"
      using inv in_use_push [of h t r] in_use_update(2) [of h t] h' Some r by (auto simp: section_books_def)
    ultimately show ?thesis using inv l(1,2) fit by (auto simp: section_books_def)
  qed
  with waits inv(2) w' show ?thesis by (fastforce simp: section_inv_def split: if_splits)
qed

lemma leave_inv:
  assumes inv: "section_inv n (s, h, w)" and h: "h t = r # rs"
    and step: "ev_step M (leave_event M t r) s = Some s'"
  shows "section_inv n (s', h(t := rs), w)"
proof -
  have inv': "section_books n s h" using inv by (simp add: section_inv_def)
  have l: "good s'" "free s' = free s + r" "log s' = log s @ [Returned r]"
    using leave_law [OF _ step] inv' by (auto simp: section_books_def)
  have fin: "finite {u. h u \<noteq> []}" using inv' by (simp add: section_books_def)
  note use = in_use_pop [of h t r rs, OF fin h]
  have "unat (free s) + unat r < 2 ^ 31" using inv' use by (simp add: section_books_def)
  from give_small [OF this] l inv' use in_use_update(2) [of h t rs, OF fin]
  have "section_books n s' (h(t := rs))" by (simp add: section_books_def)
  with inv leave_waits [OF step] show ?thesis by (auto simp: section_inv_def)
qed

lemma section_inv_step:
  assumes "section_inv n c" "section_small x" "section_step M x c = Some c'"
  shows "section_inv n c'"
proof -
  obtain s h w s' h' w' where c: "c = (s, h, w)" "c' = (s', h', w')" by (metis surj_pair)
  have inv: "section_books n s h" "\<forall>t r. ev_waits M s t = Some r \<longrightarrow> w t = r"
    using assms(1) c by (simp_all add: section_inv_def)
  show ?thesis
  proof (cases x)
    case (Enter k t r)
    with assms c obtain e where e: "enter_event M k t r = Some e" "after_call M t e (s, h, w(t := r)) = Some (s', h', w')"
      "ev_idle M s t"
      by (auto split: option.splits if_splits)
    have r: "unat r < 2 ^ 31" "takes k r = r" using assms(2) Enter takes_small [of k t r] by simp_all
    show ?thesis unfolding c by (rule call_inv [OF inv(1) _ e(2)]) (use inv(2) e(1,3) r in auto)
  next
    case (Inner e)
    with assms c obtain t where e: "ev_inner M e = Some t" "after_call M t e (s, h, w) = Some (s', h', w')"
      by (auto split: option.splits)
    show ?thesis unfolding c by (rule call_inv [OF inv(1) _ e(2)]) (use inv(2) e(1) in auto)
  next
    case (Leave t)
    with assms c show ?thesis using leave_inv [of n s h w t _ _ s']
      by (auto split: list.splits if_splits)
  qed
qed

end

sublocale sem_sections \<subseteq> sections: guarded_system "section_step M" section_small "section_inv n" for n
  by unfold_locales (rule section_inv_step)

context sem_sections
begin

lemma reachable_sections:
  assumes "runs (section_step M) xs (outside s0) = Some (s, h, w)" "list_all section_small xs"
    and "good s0" "free s0 = n" "log s0 = []" "unat n < 2 ^ 31" "\<forall>t. ev_waits M s0 t = None"
  shows "section_inv n (s, h, w)"
  by (rule sections.runs_inv [OF _ assms(2,1)])
    (use assms in \<open>simp add: section_inv_def section_books_def outside_def\<close>)

lemma section_event:
  "section_step M x (s, h, w) = Some (s', h', w') \<Longrightarrow> ev_step M (event_of M x h) s = Some s'"
  by (cases x) (auto simp: after_call_def split: if_splits option.splits list.splits)

lemma sections_project:
  assumes P: "\<And>x s h w. \<lbrakk> section_inv n (s, h, w); guard x; section_step M x (s, h, w) \<noteq> None \<rbrakk> \<Longrightarrow>
      P (event_of M x h)"
    and G: "\<And>x. guard x \<Longrightarrow> section_small x"
  shows "\<lbrakk> section_inv n (s, h, w); list_all guard xs; runs (section_step M) xs (s, h, w) = Some (s', h', w') \<rbrakk> \<Longrightarrow>
    \<exists>es. runs (ev_step M) es s = Some s' \<and> list_all P es"
proof (induction xs arbitrary: s h w)
  case Nil
  then show ?case by (intro exI [of _ "[]"]) simp
next
  case (Cons x xs)
  from Cons.prems(3) obtain u k v where u: "section_step M x (s, h, w) = Some (u, k, v)"
    "runs (section_step M) xs (u, k, v) = Some (s', h', w')" by auto
  have x: "guard x" "list_all guard xs" using Cons.prems(2) by simp_all
  have "section_inv n (u, k, v)" using section_inv_step [OF Cons.prems(1) G [OF x(1)] u(1)] .
  from Cons.IH [OF this x(2) u(2)] obtain es where "runs (ev_step M) es u = Some s'" "list_all P es" by blast
  moreover have "P (event_of M x h)" by (rule P [OF Cons.prems(1) x(1)]) (simp add: u(1))
  ultimately show ?case using section_event [OF u(1)] by (intro exI [of _ "event_of M x h # es"]) simp
qed

text \<open>A scope never holds more than there is in all.\<close>

lemma held_small:
  assumes "section_inv n (s, h, w)" "r \<in> set (h t)" shows "unat r < 2 ^ 31"
proof -
  have books: "section_books n s h" using assms(1) by (simp add: section_inv_def)
  then have "finite {u. h u \<noteq> []}" "{t} \<subseteq> {u. h u \<noteq> []}" using assms(2) by (auto simp: section_books_def)
  from in_use_member [OF this] have "held_by h t \<le> in_use h" by simp
  moreover have "unat r \<le> held_by h t"
    unfolding held_by_def using assms(2) by (intro member_le_sum_list) auto
  ultimately show ?thesis using books by (simp add: section_books_def)
qed

end

section \<open>The two semaphores\<close>

definition simple_threads :: "(s_event, ssys) sem_threads" where
  "simple_threads = \<lparr>ev_step = ssem_step,
     ev_acquire = (\<lambda>t r. S_acquire t r False), ev_try_acquire = S_try_acquire,
     ev_try_acquire_for = (\<lambda>t r. S_acquire t r True),
     ev_try_acquire_until = (\<lambda>t r. Some (S_acquire_until t r)), ev_release = S_release,
     ev_inner = (\<lambda>e. case e of S_wakeup t \<Rightarrow> Some t | S_retest t \<Rightarrow> Some t | S_timeout t \<Rightarrow> Some t
        | S_notify_all t \<Rightarrow> Some t | _ \<Rightarrow> None),
     ev_idle = (\<lambda>s t. spcs s t = S_out),
     ev_gets = (\<lambda>e s s'. case e of
          S_acquire t r timed \<Rightarrow> if spcs s' t = S_out then Some r else None
        | S_acquire_until t r \<Rightarrow> if spcs s' t = S_out then Some 1 else None
        | S_retest t \<Rightarrow> if spcs s' t = S_out then Some (wants (spcs s t)) else None
        | S_try_acquire t r \<Rightarrow> if fst (ss_try_acquire r s) then Some r else None
        | _ \<Rightarrow> None),
     ev_waits = (\<lambda>s t. case spcs s t of S_blocked r b \<Rightarrow> Some r | S_awake r b \<Rightarrow> Some r | _ \<Rightarrow> None)\<rparr>"

definition wanted :: "qpc \<Rightarrow> u32" where
  "wanted c = (case c of Q_wait p r timed \<Rightarrow> r | Q_out \<Rightarrow> 0)"

text \<open>\<open>QueuedSemaphore::try_acquire_until\<close> does not compile.\<close>

definition queued_threads :: "(q_event, qsys) sem_threads" where
  "queued_threads = \<lparr>ev_step = qsem_step,
     ev_acquire = (\<lambda>t r. Q_acquire t r False), ev_try_acquire = (\<lambda>t. Q_try_acquire),
     ev_try_acquire_for = (\<lambda>t r. Q_acquire t r True), ev_try_acquire_until = (\<lambda>t r. None),
     ev_release = (\<lambda>t. Q_release),
     ev_inner = (\<lambda>e. case e of Q_resume t \<Rightarrow> Some t | Q_timeout t \<Rightarrow> Some t | _ \<Rightarrow> None),
     ev_idle = (\<lambda>s t. qpcs s t = Q_out),
     ev_gets = (\<lambda>e s s'. case e of
          Q_acquire t r timed \<Rightarrow> if qpcs s' t = Q_out then Some r else None
        | Q_resume t \<Rightarrow> if qpcs s' t = Q_out then Some (wanted (qpcs s t)) else None
        | Q_try_acquire r \<Rightarrow> if fst (qs_try_acquire r (sem s)) then Some r else None
        | _ \<Rightarrow> None),
     ev_waits = (\<lambda>s t. case qpcs s t of Q_wait p r timed \<Rightarrow> Some r | Q_out \<Rightarrow> None)\<rparr>"

lemma simple_threads_sel [simp]:
  "ev_step simple_threads = ssem_step" "ev_inner simple_threads (S_wakeup t) = Some t"
  "ev_inner simple_threads (S_retest t) = Some t" "ev_inner simple_threads (S_timeout t) = Some t"
  "ev_inner simple_threads (S_notify_all t) = Some t" "ev_inner simple_threads (S_acquire t r b) = None"
  "ev_inner simple_threads (S_acquire_until t r) = None" "ev_inner simple_threads (S_try_acquire t r) = None"
  "ev_inner simple_threads (S_release t r) = None" "ev_idle simple_threads s t \<longleftrightarrow> spcs s t = S_out"
  "ev_gets simple_threads (S_acquire t r b) s s' = (if spcs s' t = S_out then Some r else None)"
  "ev_gets simple_threads (S_retest t) s s' = (if spcs s' t = S_out then Some (wants (spcs s t)) else None)"
  "ev_gets simple_threads (S_try_acquire t r) s s' = (if fst (ss_try_acquire r s) then Some r else None)"
  "ev_gets simple_threads (S_wakeup t) s s' = None" "ev_gets simple_threads (S_timeout t) s s' = None"
  "ev_gets simple_threads (S_acquire_until t r) s s' = (if spcs s' t = S_out then Some 1 else None)"
  "ev_waits simple_threads s t =
     (case spcs s t of S_blocked r b \<Rightarrow> Some r | S_awake r b \<Rightarrow> Some r | _ \<Rightarrow> None)"
  "ev_gets simple_threads (S_notify_all t) s s' = None" "leave_event simple_threads t r = S_release t r"
  by (simp_all add: simple_threads_def leave_event_def)

lemma simple_enter:
  "enter_event simple_threads k t r =
     Some (if k = By_adapter By_try_lock_until then S_acquire_until t r
       else if k = By_adapter By_try_lock then S_try_acquire t r
       else S_acquire t r (k = By_adapter By_try_lock_for))"
  by (cases "(simple_threads, k, t, r)" rule: enter_event.cases) (simp_all add: simple_threads_def)

lemma queued_threads_sel [simp]:
  "ev_step queued_threads = qsem_step" "ev_inner queued_threads (Q_resume t) = Some t"
  "ev_inner queued_threads (Q_timeout t) = Some t" "ev_inner queued_threads (Q_acquire t r b) = None"
  "ev_inner queued_threads (Q_try_acquire r) = None" "ev_inner queued_threads (Q_release r) = None"
  "ev_idle queued_threads c t \<longleftrightarrow> qpcs c t = Q_out" "leave_event queued_threads t r = Q_release r"
  "ev_gets queued_threads (Q_acquire t r b) c c' =
     (if qpcs c' t = Q_out then Some r else None)"
  "ev_gets queued_threads (Q_resume t) c c' = (if qpcs c' t = Q_out then Some (wanted (qpcs c t)) else None)"
  "ev_gets queued_threads (Q_try_acquire r) c c' = (if fst (qs_try_acquire r (sem c)) then Some r else None)"
  "ev_gets queued_threads (Q_timeout t) c c' = None"
  "ev_waits queued_threads c t = (case qpcs c t of Q_wait p r timed \<Rightarrow> Some r | Q_out \<Rightarrow> None)"
  by (simp_all add: queued_threads_def leave_event_def)

lemma queued_enter_event:
  "enter_event queued_threads k t r =
     (if k = By_adapter By_try_lock_until then None
      else Some (if k = By_adapter By_try_lock then Q_try_acquire r
        else Q_acquire t r (k = By_adapter By_try_lock_for)))"
  by (cases "(queued_threads, k, t, r)" rule: enter_event.cases) (simp_all add: queued_threads_def)

definition simple_good :: "ssys \<Rightarrow> bool" where
  "simple_good s \<longleftrightarrow> (\<forall>t. unat (wants (spcs s t)) < 2 ^ 31)"

lemma simple_attempt:
  assumes "simple_good s" "unat (s_count s) < 2 ^ 31" "unat r < 2 ^ 31"
  shows "simple_good (ss_attempt t r timed s) \<and> (\<exists>l. s_log (ss_attempt t r timed s) = s_log s @ l \<and>
    call_effect (s_count s) (s_count (ss_attempt t r timed s))
      (if spcs (ss_attempt t r timed s) t = S_out then Some r else None) l)"
  using assms sint_le_small [of "s_count s" r]
  by (auto simp: ss_attempt_def simple_good_def call_effect_def linorder_not_less)

lemma simple_call_law:
  assumes g: "simple_good s" "unat (s_count s) < 2 ^ 31" and step: "ssem_step e s = Some s'"
    and e: "ev_inner simple_threads e = Some t \<or>
      (\<exists>k r. enter_event simple_threads k t r = Some e \<and> unat r < 2 ^ 31)"
  shows "simple_good s' \<and> (\<exists>l. s_log s' = s_log s @ l \<and>
    call_effect (s_count s) (s_count s') (ev_gets simple_threads e s s') l)"
proof -
  have e': "ev_inner simple_threads e = Some t \<or>
      (\<exists>r b. unat r < 2 ^ 31 \<and> e \<in> {S_acquire t r b, S_acquire_until t r, S_try_acquire t r})"
    using e by (auto simp: simple_enter split: if_splits)
  show ?thesis
  proof (cases e)
    case (S_acquire u r timed)
    then have r: "unat r < 2 ^ 31" using e' by auto
    have "s' = ss_attempt u r timed (s\<lparr>s_log := s_log s @ [Arrived u r]\<rparr>)"
      using step S_acquire by (simp split: if_splits)
    with simple_attempt [of "s\<lparr>s_log := s_log s @ [Arrived u r]\<rparr>" r u timed] g r S_acquire
    show ?thesis by (auto simp: simple_good_def call_effect_def)
  next
    case (S_retest u)
    then obtain r b where u: "spcs s u = S_awake r b" "s' = ss_attempt u r b s"
      using step by (auto split: spc.splits)
    then have "unat r < 2 ^ 31" using g(1) by (metis simple_good_def wants_simps(3))
    with u simple_attempt [OF g, of r u b] S_retest show ?thesis by (auto split: if_splits)
  next
    case (S_try_acquire u r)
    then have "unat r < 2 ^ 31" using e' by auto
    with S_try_acquire step g sint_le_small [of "s_count s" r] show ?thesis
      by (auto simp: ss_try_acquire_def call_effect_def simple_good_def split: if_splits)
  next
    case (S_wakeup u)
    then obtain r b where u: "spcs s u = S_blocked r b" "s' = s\<lparr>spcs := (spcs s)(u := S_awake r b)\<rparr>"
      using step by (auto split: spc.splits)
    then have "unat r < 2 ^ 31" using g(1) by (metis simple_good_def wants_simps(2))
    with u g S_wakeup show ?thesis by (simp add: simple_good_def call_effect_def)
  next
    case (S_acquire_until u r)
    then have "s' = ss_attempt u 1 True (s\<lparr>s_log := s_log s @ [Arrived u r]\<rparr>)"
      using step by (simp split: if_splits)
    with simple_attempt [of "s\<lparr>s_log := s_log s @ [Arrived u r]\<rparr>" 1 u True] g S_acquire_until
    show ?thesis by (auto simp: simple_good_def call_effect_def)
  next
    case (S_release u r)
    with e' show ?thesis by auto
  qed (use step g in \<open>auto simp: simple_good_def call_effect_def split: spc.splits if_splits\<close>)
qed

lemma simple_waits_law:
  assumes step: "ssem_step e s = Some s'"
    and e: "ev_inner simple_threads e = Some t \<and> (\<forall>b. ev_waits simple_threads s t = Some b \<longrightarrow> b = a) \<or>
      ev_idle simple_threads s t \<and> (\<exists>k r. enter_event simple_threads k t r = Some e \<and> takes k r = a)"
  shows "(\<forall>b. ev_gets simple_threads e s s' = Some b \<longrightarrow> b = a) \<and>
    (\<forall>u b. ev_waits simple_threads s' u = Some b \<longrightarrow>
      (if u = t then b = a else ev_waits simple_threads s u = Some b))"
proof -
  consider (inner) "ev_inner simple_threads e = Some t" "\<forall>b. ev_waits simple_threads s t = Some b \<longrightarrow> b = a"
    | (acquire) b where "e = S_acquire t a b" | (trying) "e = S_try_acquire t a"
    | (timed) r where "e = S_acquire_until t r" "a = 1"
    using e by (auto simp: simple_enter takes_def split: if_splits)
  then show ?thesis
  proof cases
    case inner
    with step show ?thesis
      by (cases e) (auto simp: ss_attempt_def notified_def split: if_splits spc.splits)
  next
    case acquire
    with step show ?thesis by (auto simp: ss_attempt_def split: if_splits)
  next
    case trying
    with step show ?thesis by (auto simp: ss_try_acquire_def split: if_splits)
  next
    case timed
    with step show ?thesis by (auto simp: ss_attempt_def split: if_splits)
  qed
qed

interpretation ssec: sem_sections simple_threads s_count s_log simple_good
proof (unfold_locales, goal_cases)
  case (1 s e s' t)
  then show ?case by (intro simple_call_law) simp_all
next
  case (2 e s s' t a)
  then show ?case by (intro simple_waits_law) simp_all
next
  case (3 t r s s' u b)
  then show ?case by (auto simp: ss_add_def split: if_splits)
next
  case (4 s t r s')
  then show ?case
    by (auto simp: ss_add_def simple_good_def split: if_splits)
qed

lemma wake_permits: "wake_if_enough s = Some s' \<Longrightarrow> permits s' = permits s"
  by (auto simp: wake_if_enough_def split: if_splits)

lemma qs_wait_permits: "qs_wait s = Some (p, s') \<Longrightarrow> permits s' = permits s \<and> p \<noteq> None"
  by (auto simp: qs_wait_def)

definition queued_small :: "qsys \<Rightarrow> bool" where
  "queued_small s \<longleftrightarrow> (\<forall>t. unat (wanted (qpcs s t)) < 2 ^ 31)"

lemma wanted_simps [simp]: "wanted Q_out = 0" "wanted (Q_wait p r b) = r"
  by (simp_all add: wanted_def)

text \<open>The outcome of a call that has settled: it has its permits, or it waits for \<open>r\<close> of them.\<close>

lemma settle_law:
  assumes g: "queued_small s" and r: "unat r < 2 ^ 31"
    and out: "\<And>p u. res = Some (p, u) \<Longrightarrow>
      (case p of None \<Rightarrow> r \<le> permits (sem s) \<and> permits u = permits (sem s) - r | Some _ \<Rightarrow> permits u = permits (sem s))"
  shows "queued_small (settle t r timed b res s) \<and> (\<exists>l. q_log (settle t r timed b res s) = q_log s @ l \<and>
    call_effect (permits (sem s)) (permits (sem (settle t r timed b res s)))
      (case res of Some (None, _) \<Rightarrow> Some r | _ \<Rightarrow> None) l)"
proof (cases res)
  case None
  with g show ?thesis by (simp add: settle_def queued_small_def call_effect_def)
next
  case (Some x)
  obtain p u where x: "x = (p, u)" by (cases x)
  with Some out [of p u] g r show ?thesis
    by (cases p) (auto simp: settle_def queued_small_def call_effect_def)
qed

lemma enter_out:
  assumes "unat (permits s) < 2 ^ 31" "unat r < 2 ^ 31" "qs_enter r s = Some (p, u)"
  shows "case p of None \<Rightarrow> r \<le> permits s \<and> permits u = permits s - r | Some _ \<Rightarrow> permits u = permits s"
  using assms(3) sint_le_small [OF assms(1,2)] qs_wait_permits
  by (fastforce simp: qs_enter_def split: if_splits option.splits)

lemma resume_out:
  assumes "unat (permits s) < 2 ^ 31" "unat r < 2 ^ 31" "qs_resume r s = Some (p, u)"
  shows "case p of None \<Rightarrow> r \<le> permits s \<and> permits u = permits s - r | Some _ \<Rightarrow> permits u = permits s"
  using assms(3) sint_le_small [OF assms(1,2)] qs_wait_permits wake_permits
  by (fastforce simp: qs_resume_def qs_finish_def split: if_splits option.splits)

lemma queued_acquire_law:
  assumes g: "queued_small s" "unat (permits (sem s)) < 2 ^ 31" and r: "unat r < 2 ^ 31"
    and step: "qsem_step (Q_acquire t r timed) s = Some s'" and ok: "q_status s' \<noteq> Faulted"
  shows "queued_small s' \<and> (\<exists>l. q_log s' = q_log s @ l \<and> call_effect (permits (sem s)) (permits (sem s'))
    (ev_gets queued_threads (Q_acquire t r timed) s s') l)"
proof -
  let ?s = "s\<lparr>q_log := q_log s @ [Arrived t r]\<rparr>" and ?res = "qs_enter r (sem s)"
  have s': "s' = settle t r timed False ?res ?s" "qpcs s t = Q_out"
    using step by (simp_all split: if_splits)
  have "ev_gets queued_threads (Q_acquire t r timed) s s' = (case ?res of Some (None, _) \<Rightarrow> Some r | _ \<Rightarrow> None)"
    using s' ok by (auto simp: settle_def split: option.splits)
  moreover have "queued_small ?s" using g(1) by (simp add: queued_small_def)
  with r have "queued_small s' \<and> (\<exists>l. q_log s' = q_log ?s @ l \<and> call_effect (permits (sem ?s)) (permits (sem s'))
      (case ?res of Some (None, _) \<Rightarrow> Some r | _ \<Rightarrow> None) l)"
    unfolding s'(1) using enter_out [OF g(2) r] by (intro settle_law) (auto split: option.splits)
  then obtain l where "queued_small s'" "q_log s' = q_log s @ Arrived t r # l"
    "call_effect (permits (sem s)) (permits (sem s')) (case ?res of Some (None, _) \<Rightarrow> Some r | _ \<Rightarrow> None) l"
    by auto
  ultimately show ?thesis using call_effect_arrived [of _ _ _ t r l] by metis
qed

lemma queued_resume_law:
  assumes g: "queued_small s" "unat (permits (sem s)) < 2 ^ 31" and step: "qsem_step (Q_resume t) s = Some s'"
    and ok: "q_status s' \<noteq> Faulted"
  shows "queued_small s' \<and> (\<exists>l. q_log s' = q_log s @ l \<and> call_effect (permits (sem s)) (permits (sem s'))
    (ev_gets queued_threads (Q_resume t) s s') l)"
proof -
  obtain p r timed where u: "qpcs s t = Q_wait p r timed"
    and s': "s' = settle t r timed True (qs_resume r (sem s)) s"
    using step by (auto split: qpc.splits if_splits)
  have r: "unat r < 2 ^ 31" using g(1) u by (metis queued_small_def wanted_simps(2))
  have "ev_gets queued_threads (Q_resume t) s s' = (case qs_resume r (sem s) of Some (None, _) \<Rightarrow> Some r | _ \<Rightarrow> None)"
    using s' u ok by (auto simp: settle_def split: option.splits)
  moreover have "queued_small s' \<and> (\<exists>l. q_log s' = q_log s @ l \<and> call_effect (permits (sem s)) (permits (sem s'))
      (case qs_resume r (sem s) of Some (None, _) \<Rightarrow> Some r | _ \<Rightarrow> None) l)"
    unfolding s' using g(1) r resume_out [OF g(2) r] by (intro settle_law) auto
  ultimately show ?thesis by simp
qed

lemma queued_call_law:
  assumes g: "queued_small s" "unat (permits (sem s)) < 2 ^ 31" and step: "qsem_step e s = Some s'"
    and ok: "q_status s' \<noteq> Faulted" and e: "ev_inner queued_threads e = Some t \<or>
      (\<exists>k r. enter_event queued_threads k t r = Some e \<and> unat r < 2 ^ 31)"
  shows "queued_small s' \<and> (\<exists>l. q_log s' = q_log s @ l \<and>
    call_effect (permits (sem s)) (permits (sem s')) (ev_gets queued_threads e s s') l)"
proof -
  have e': "ev_inner queued_threads e = Some t \<or>
      (\<exists>r b. unat r < 2 ^ 31 \<and> e \<in> {Q_acquire t r b, Q_try_acquire r})"
    using e by (auto simp: queued_enter_event split: if_splits)
  show ?thesis
  proof (cases e)
    case (Q_acquire u r timed)
    then have "unat r < 2 ^ 31" using e' by auto
    with queued_acquire_law [OF g this] step ok Q_acquire show ?thesis by blast
  next
    case (Q_resume u)
    with queued_resume_law [OF g] step ok show ?thesis by blast
  next
    case (Q_timeout u)
    with step g show ?thesis
      by (auto simp: queued_small_def call_effect_def qs_timeout_def split: qpc.splits if_splits option.splits)
  next
    case (Q_try_acquire r)
    with step g show ?thesis
      by (auto simp: queued_small_def call_effect_def qs_try_acquire_def split: if_splits)
  next
    case (Q_release r)
    with e' show ?thesis by auto
  qed
qed

text \<open>The bisimulation with the list semaphore excludes undefined behaviour.\<close>

definition queued_good :: "qsys \<Rightarrow> bool" where
  "queued_good s \<longleftrightarrow> queued_small s \<and> (\<exists>a. q_rel s a \<and> aq_status a \<noteq> Faulted)"

lemma aq_not_faulted: "\<lbrakk> aq_step e a = Some b; aq_status a \<noteq> Faulted \<rbrakk> \<Longrightarrow> aq_status b \<noteq> Faulted"
  by (cases e) (auto simp: Let_def split: if_splits list.splits option.splits)

lemma queued_rel_step:
  assumes "queued_good s" "qsem_step e s = Some s'"
  shows "q_status s' \<noteq> Faulted \<and> (\<exists>a. q_rel s' a \<and> aq_status a \<noteq> Faulted)"
proof -
  obtain a where a: "q_rel s a" "aq_status a \<noteq> Faulted" using assms(1) by (auto simp: queued_good_def)
  from qsim.bisim [OF a(1), of e] assms(2) obtain b where b: "aq_step e a = Some b" "q_rel s' b"
    by (cases "aq_step e a") auto
  moreover have "aq_status b \<noteq> Faulted" by (rule aq_not_faulted [OF b(1) a(2)])
  moreover have "q_status s' = aq_status b" using b(2) by (auto simp: q_rel_def q_match_def)
  ultimately show ?thesis by auto
qed

lemma queued_waits_law:
  assumes step: "qsem_step e s = Some s'"
    and e: "ev_inner queued_threads e = Some t \<and> (\<forall>b. ev_waits queued_threads s t = Some b \<longrightarrow> b = a) \<or>
      ev_idle queued_threads s t \<and> (\<exists>k r. enter_event queued_threads k t r = Some e \<and> takes k r = a)"
  shows "(\<forall>b. ev_gets queued_threads e s s' = Some b \<longrightarrow> b = a) \<and>
    (\<forall>u b. ev_waits queued_threads s' u = Some b \<longrightarrow>
      (if u = t then b = a else ev_waits queued_threads s u = Some b))"
proof -
  consider (inner) "ev_inner queued_threads e = Some t" "\<forall>b. ev_waits queued_threads s t = Some b \<longrightarrow> b = a"
    | (acquire) b where "e = Q_acquire t a b" | (trying) "e = Q_try_acquire a" "qpcs s t = Q_out"
    using e by (auto simp: queued_enter_event takes_def split: if_splits)
  then show ?thesis
  proof cases
    case inner
    with step show ?thesis
      by (cases e) (auto simp: settle_def split: if_splits qpc.splits option.splits)
  next
    case acquire
    with step show ?thesis by (auto simp: settle_def split: if_splits option.splits)
  next
    case trying
    with step show ?thesis by (auto simp: qs_try_acquire_def split: if_splits)
  qed
qed

interpretation qsec: sem_sections queued_threads "\<lambda>s. permits (sem s)" q_log queued_good
proof (unfold_locales, goal_cases)
  case (1 s e s' t)
  from queued_rel_step [OF 1(1)] 1(3) have ok: "q_status s' \<noteq> Faulted" "\<exists>a. q_rel s' a \<and> aq_status a \<noteq> Faulted"
    by simp_all
  have "queued_small s' \<and> (\<exists>l. q_log s' = q_log s @ l \<and>
      call_effect (permits (sem s)) (permits (sem s')) (ev_gets queued_threads e s s') l)"
    by (rule queued_call_law [OF _ 1(2) _ ok(1) 1(4)]) (use 1 in \<open>simp_all add: queued_good_def\<close>)
  with ok(2) show ?case by (simp add: queued_good_def)
next
  case (2 e s s' t a)
  then show ?case by (intro queued_waits_law) simp_all
next
  case (3 t r s s' u b)
  then show ?case by (auto split: if_splits option.splits)
next
  case (4 s t r s')
  then have st: "qsem_step (Q_release r) s = Some s'" by simp
  note ok = queued_rel_step [OF 4(1) st]
  from st ok have "q_log s' = q_log s @ [Returned r] \<and> permits (sem s') = permits (sem s) + r \<and> qpcs s' = qpcs s"
    by (auto simp: qs_release_def split: if_splits option.splits dest!: wake_permits)
  with 4(1) ok show ?case by (simp add: queued_good_def queued_small_def)
qed

section \<open>Properties\<close>

lemma simple_reachable:
  assumes "runs (section_step simple_threads) xs (outside (SimpleSemaphore n)) = Some (s, h, w)"
    and "list_all section_small xs" "unat n < 2 ^ 31"
  shows "ssec.section_inv n (s, h, w)"
  by (rule ssec.reachable_sections [OF assms(1,2)])
    (use assms(3) in \<open>simp_all add: SimpleSemaphore_def simple_good_def\<close>)

lemma queued_start: "unat n < 2 ^ 31 \<Longrightarrow> qsec.section_inv n (outside (qsys_init n))"
  using q_rel_init [of n]
  by (force simp: qsec.section_inv_def qsec.section_books_def outside_def qsys_init_def QueuedSemaphore_def queued_good_def
      queued_small_def aqsem_init_def)

lemma queued_reachable:
  assumes "runs (section_step queued_threads) xs (outside (qsys_init n)) = Some (s, h, w)"
    and "list_all section_small xs" "unat n < 2 ^ 31"
  shows "qsec.section_inv n (s, h, w)"
  by (rule qsec.sections.runs_inv [OF queued_start [OF assms(3)] assms(2,1)])

text \<open>A schedule of sections is a schedule of small requests of the semaphore itself.\<close>

lemma queued_event_small:
  assumes "qsec.section_inv n (s, h, w)" "section_small x" "section_step queued_threads x (s, h, w) \<noteq> None"
  shows "small (event_of queued_threads x h)"
proof (cases x)
  case (Enter k t r)
  with assms(2,3) show ?thesis by (auto simp: small_def queued_enter_event split: if_splits)
next
  case (Leave t)
  then have "hd (h t) \<in> set (h t)" using assms(3) by (cases "h t") auto
  with qsec.held_small [OF assms(1)] Leave show ?thesis by (simp add: small_def)
next
  case (Inner e)
  then have "ev_inner queued_threads e \<noteq> None" using assms(3) by (auto split: option.splits)
  with Inner show ?thesis by (cases e) (simp_all add: small_def)
qed

lemma queued_project:
  assumes P: "\<And>x s h w. \<lbrakk> qsec.section_inv n (s, h, w); guard x; section_step queued_threads x (s, h, w) \<noteq> None \<rbrakk> \<Longrightarrow>
      P (event_of queued_threads x h)"
    and run: "runs (section_step queued_threads) xs (outside (qsys_init n)) = Some (s, h, w)"
    and xs: "list_all guard xs" and n: "unat n < 2 ^ 31" and G: "\<And>x. guard x \<Longrightarrow> section_small x"
  shows "\<exists>es. runs qsem_step es (qsys_init n) = Some s \<and> list_all P es"
proof -
  have "\<exists>es. runs (ev_step queued_threads) es (qsys_init n) = Some s \<and> list_all P es"
    by (rule qsec.sections_project [where n = n and guard = guard and P = P, OF P G]) (use queued_start [OF n] run xs in \<open>auto simp: outside_def\<close>)
  then show ?thesis by simp
qed

lemma queued_running:
  assumes run: "runs (section_step queued_threads) xs (outside (qsys_init n)) = Some (s, h, w)"
    and xs: "list_all section_small xs" and n: "unat n < 2 ^ 31"
  shows "q_status s = Running"
proof -
  obtain es where es: "runs qsem_step es (qsys_init n) = Some s" "list_all small es"
    using queued_project [where P = small, OF _ run xs n] queued_event_small by blast
  have "fits n (q_log s)" using queued_reachable [OF run xs n] by (simp add: qsec.section_inv_def qsec.section_books_def)
  with es show ?thesis by (rule reachable_sound)
qed

lemma in_use_one:
  assumes "finite {u. h u \<noteq> []}" "in_use h \<le> 1" "0 < held_by h t" "0 < held_by h u"
  shows "t = u"
proof (rule ccontr)
  assume "t \<noteq> u"
  have "(\<Sum>v\<in>{t, u}. held_by h v) \<le> in_use h"
    by (rule in_use_member [OF assms(1)]) (use assms(3,4) in \<open>auto simp: held_by_def\<close>)
  with \<open>t \<noteq> u\<close> assms(2-4) show False by simp
qed

text \<open>
  C12: permits are scarce.  Whatever the threads do with guards and adapters, nested as they like, with
  blocking, trying and timed entries of any sizes in the range of \<open>int\<close> and for as long as they like,
  as long as they use the adapter's \<open>try_lock_until\<close> for single permits only, the free permits and the
  permits the open scopes will release add up to the initial ones at every moment: the counter never
  overflows nor becomes negative, all permits are back when all scopes are closed,
  \<open>QueuedSemaphore\<close> never terminates the process, and with one permit the semaphore is a mutex.
  (\<open>try_lock_until\<close> takes one permit whatever the request, \<open>try_lock_until_unbalanced\<close>; over
  \<open>QueuedSemaphore\<close> it does not compile.)
\<close>

theorem guarded_sections_balanced:
  assumes "unat n < 2 ^ 31" "list_all section_small xs" "list_all section_small ys"
    and "runs (section_step simple_threads) xs (outside (SimpleSemaphore n)) = Some (s, h, w)"
    and "runs (section_step queued_threads) ys (outside (qsys_init n)) = Some (q, k, v)"
  shows "ss_available_permits s = int (unat n) - int (in_use h) \<and> in_use h \<le> unat n \<and>
    available_permits (sem q) = int (unat n) - int (in_use k) \<and> in_use k \<le> unat n \<and>
    q_status q = Running \<and>
    (n = 1 \<longrightarrow> (\<forall>t u. 0 < held_by h t \<and> 0 < held_by h u \<or> 0 < held_by k t \<and> 0 < held_by k u \<longrightarrow> t = u))"
proof -
  have s: "finite {t. h t \<noteq> []}" "unat (s_count s) + in_use h = unat n"
    using simple_reachable [OF assms(4,2,1)] by (simp_all add: ssec.section_inv_def ssec.section_books_def)
  have q: "finite {t. k t \<noteq> []}" "unat (permits (sem q)) + in_use k = unat n"
    using queued_reachable [OF assms(5,3,1)] by (simp_all add: qsec.section_inv_def qsec.section_books_def)
  have "sint (s_count s) = int (unat (s_count s))" "sint (permits (sem q)) = int (unat (permits (sem q)))"
    by (rule sint_small; use s q assms(1) in linarith)+
  then have "ss_available_permits s = int (unat n) - int (in_use h)" "in_use h \<le> unat n"
    "available_permits (sem q) = int (unat n) - int (in_use k)" "in_use k \<le> unat n"
    using s(2) q(2) unfolding ss_available_permits_def available_permits_def by linarith+
  moreover have "t = u" if "n = 1" "0 < held_by h t \<and> 0 < held_by h u \<or> 0 < held_by k t \<and> 0 < held_by k u" for t u
    using that in_use_one [OF s(1), of t u] in_use_one [OF q(1), of t u] s(2) q(2) by auto
  ultimately show ?thesis using queued_running [OF assms(5,3,1)] by blast
qed

text \<open>Thread 1 enters with the adapter while thread 0 is inside, and gets in when 0 has left.\<close>

theorem guarded_sections_balanced_witness:
  "\<exists>s h w q k v. runs (section_step simple_threads) [Enter By_guard 0 2, Enter (By_adapter By_lock) 1 2, Leave 0,
       Inner (S_notify_all 0), Inner (S_retest 1), Enter (By_adapter By_try_lock_until) 2 1]
       (outside (SimpleSemaphore 3)) = Some (s, h, w) \<and> in_use h = 3 \<and>
     runs (section_step queued_threads) [Enter By_guard 0 2, Enter (By_adapter By_lock) 1 2, Leave 0,
       Inner (Q_resume 1)] (outside (qsys_init 3)) = Some (q, k, v) \<and> in_use k = 2"
proof -
  let ?xs = "[Enter By_guard 0 2, Enter (By_adapter By_lock) 1 2, Leave 0, Inner (S_notify_all 0), Inner (S_retest 1),
    Enter (By_adapter By_try_lock_until) 2 1]"
  let ?ys = "[Enter By_guard 0 2, Enter (By_adapter By_lock) 1 2, Leave 0, Inner (Q_resume 1)]"
  have "map_option (\<lambda>(s, h, w). ss_available_permits s) (runs (section_step simple_threads) ?xs (outside (SimpleSemaphore 3)))
      = Some 0"
    "map_option (\<lambda>(s, h, w). available_permits (sem s)) (runs (section_step queued_threads) ?ys (outside (qsys_init 3)))
      = Some 1" by code_simp+
  then obtain s h w q k v where
    r: "runs (section_step simple_threads) ?xs (outside (SimpleSemaphore 3)) = Some (s, h, w)"
      "runs (section_step queued_threads) ?ys (outside (qsys_init 3)) = Some (q, k, v)"
    and a: "ss_available_permits s = 0" "available_permits (sem q) = 1"
    by (elim map_option_SomeE) (auto simp del: runs.simps)
  have n: "unat (3 :: u32) < 2 ^ 31" and xs: "list_all section_small ?xs" and ys: "list_all section_small ?ys"
    by simp_all
  from guarded_sections_balanced [OF n xs ys r] have "in_use h = 3 \<and> in_use k = 2" unfolding a by simp
  with r show ?thesis by blast
qed

text \<open>
  The side condition on \<open>try_lock_until\<close> is needed: a scope over one permit that asks for three gets
  in, and when it ends the semaphore has three.
\<close>

lemma try_lock_until_unbalanced:
  "map_option (\<lambda>(s, h, w). (ss_available_permits s, h 0))
     (runs (section_step simple_threads)
       [Enter (By_adapter By_try_lock_until) 0 3, Leave 0, Inner (S_notify_all 0)] (outside (SimpleSemaphore 1)))
   = Some (3, [])"
  by code_simp

end
