(* ===== verification/Guarded_Progress.thy ===== *)
theory Guarded_Progress
  imports Guarded_Sections
begin

text \<open>
  Progress of the threads of \<^verbatim>\<open>Guarded_Sections\<close>: where no scope asks for more permits than there are and
  no thread waits inside a scope, somebody can always go on, on either semaphore.
\<close>

section \<open>Scopes of bounded size\<close>

fun section_up_to :: "u32 \<Rightarrow> 'e section_event \<Rightarrow> bool" where
  "section_up_to m (Enter k t r) \<longleftrightarrow> r \<le> m \<and> unat m < 2 ^ 31 \<and> (k = By_adapter By_try_lock_until \<longrightarrow> r = 1)"
| "section_up_to m _ \<longleftrightarrow> True"

lemma up_to_small: "section_up_to m x \<Longrightarrow> section_small x"
  by (cases x) (auto simp: word_le_nat_alt)

lemma up_to_small_list: "list_all (section_up_to m) xs \<Longrightarrow> list_all section_small xs"
  using up_to_small by (auto simp: list_all_iff)

text \<open>No scope is open: all permits are free.\<close>

lemma all_free:
  "ssec.section_inv n (s, \<lambda>_. [], w) \<Longrightarrow> s_count s = n"
  "qsec.section_inv n (q, \<lambda>_. [], w) \<Longrightarrow> permits (sem q) = n"
  by (simp_all add: ssec.section_inv_def qsec.section_inv_def ssec.section_books_def qsec.section_books_def word_unat_eq_iff)

section \<open>\<open>SimpleSemaphore\<close>\<close>

text \<open>Requests for at most \<open>m\<close> permits, and the threads that wait for at most \<open>m\<close>.\<close>

fun s_asks_up_to :: "u32 \<Rightarrow> s_event \<Rightarrow> bool" where
  "s_asks_up_to m (S_acquire t r timed) \<longleftrightarrow> r \<le> m"
| "s_asks_up_to m (S_acquire_until t r) \<longleftrightarrow> 1 \<le> m"
| "s_asks_up_to m _ \<longleftrightarrow> True"

definition wants_up_to :: "u32 \<Rightarrow> ssys \<Rightarrow> bool" where
  "wants_up_to m s \<longleftrightarrow> (\<forall>t. wants (spcs s t) \<le> m)"

lemma wants_attempt:
  "\<lbrakk> \<forall>u. wants (spcs s u) \<le> m; r \<le> m \<rbrakk> \<Longrightarrow> wants (spcs (ss_attempt t r timed s) u) \<le> m"
  by (simp add: ss_attempt_def)

lemma wants_step:
  assumes w: "wants_up_to m s" and e: "s_asks_up_to m e" and step: "ssem_step e s = Some s'"
  shows "wants_up_to m s'"
proof (cases e)
  case (S_wakeup t)
  with w step show ?thesis by (auto simp: wants_up_to_def split: spc.splits) (metis wants_simps(2))
next
  case (S_retest t)
  with w step show ?thesis
    by (auto simp: wants_up_to_def split: spc.splits) (metis wants_attempt wants_simps(3))
next
  case (S_try_acquire t r)
  with w step show ?thesis by (auto simp: wants_up_to_def ss_try_acquire_def split: if_splits)
qed (use w e step in \<open>auto simp: wants_up_to_def wants_attempt ss_add_def split: if_splits spc.splits\<close>)

interpretation ssw: guarded_system ssem_step "s_asks_up_to m" "wants_up_to m" for m
  by unfold_locales (rule wants_step)

lemma simple_event:
  assumes "ssec.section_inv n (s, h, w)" "section_up_to m x" "section_step simple_threads x (s, h, w) \<noteq> None"
  shows "s_small (event_of simple_threads x h) \<and> s_asks_up_to m (event_of simple_threads x h)"
proof (cases x)
  case (Enter k t r)
  with assms(2) up_to_small [OF assms(2)] show ?thesis by (auto simp: s_small_def simple_enter)
next
  case (Inner e)
  then have "ev_inner simple_threads e \<noteq> None" using assms(3) by (auto split: option.splits)
  with Inner show ?thesis by (cases e) (simp_all add: s_small_def)
qed (simp add: s_small_def)

lemma simple_sections:
  assumes run: "runs (section_step simple_threads) xs (outside (SimpleSemaphore n)) = Some (s, h, w)"
    and xs: "list_all (section_up_to m) xs" and n: "unat n < 2 ^ 31"
  shows "ss_alert s" "wants_up_to m s"
proof -
  let ?P = "\<lambda>e. s_small e \<and> s_asks_up_to m e"
  note inv = simple_reachable [OF run up_to_small_list [OF xs] n]
  have start: "ssec.section_inv n (outside (SimpleSemaphore n))"
    using simple_reachable [of "[]" n] n by (simp add: outside_def)
  have "\<exists>es. runs (ev_step simple_threads) es (SimpleSemaphore n) = Some s \<and> list_all ?P es"
    by (rule ssec.sections_project [where n = n and guard = "section_up_to m" and P = ?P, OF simple_event up_to_small])
      (use start run xs in \<open>auto simp: outside_def\<close>)
  then obtain es where es: "runs ssem_step es (SimpleSemaphore n) = Some s" "list_all s_small es"
    "list_all (s_asks_up_to m) es" by (auto simp: list_all_iff)
  show "ss_alert s"
    using ssi.runs_inv [OF ss_inv_init(1) es(2,1)] inv
    by (simp add: ss_inv_def s_fits_def ssec.section_inv_def ssec.section_books_def)
  show "wants_up_to m s"
    by (rule ssw.runs_inv [OF _ es(3,1)]) (simp add: wants_up_to_def SimpleSemaphore_def)
qed

text \<open>
  With all permits free, a thread that tests its loop condition gets them; while one is blocked, a
  releasing thread is about to notify it.
\<close>

lemma simple_progress:
  assumes run: "runs (section_step simple_threads) xs (outside (SimpleSemaphore n)) = Some (s, \<lambda>_. [], w)"
    and xs: "list_all (section_up_to n) xs" and n: "unat n < 2 ^ 31" and t: "spcs s t \<noteq> S_out"
  shows "(\<exists>u c. section_step simple_threads (Inner (S_notify_all u)) (s, \<lambda>_. [], w) = Some c) \<or>
    (\<exists>s'. section_step simple_threads (Inner (S_retest t)) (s, \<lambda>_. [], w) = Some (s', (\<lambda>_. [])(t := [w t]), w))"
proof -
  have free: "s_count s = n" using simple_reachable [OF run up_to_small_list [OF xs] n] by (rule all_free)
  have enough: "sint (wants (spcs s t)) \<le> sint (s_count s)"
  proof -
    have "wants (spcs s t) \<le> n" using simple_sections(2) [OF run xs n] by (simp add: wants_up_to_def)
    moreover from this have "unat (wants (spcs s t)) < 2 ^ 31" using n by (simp add: word_le_nat_alt)
    ultimately show ?thesis using free sint_le_small [OF n, of "wants (spcs s t)"] by simp
  qed
  show ?thesis
  proof (cases "spcs s t")
    case (S_blocked r b)
    with simple_sections(1) [OF run xs n] enough obtain u where "spcs s u = S_notifying"
      by (auto simp: ss_alert_def)
    then show ?thesis by (intro disjI1 exI [of _ u]) (simp add: after_call_def)
  next
    case (S_awake r b)
    with enough show ?thesis by (intro disjI2) (simp add: after_call_def ss_attempt_def)
  next
    case S_notifying
    then show ?thesis by (intro disjI1 exI [of _ t]) (simp add: after_call_def)
  qed (use t in simp)
qed

section \<open>\<open>QueuedSemaphore\<close>\<close>

lemma queued_event_capped:
  assumes "qsec.section_inv n (s, h, w)" "section_up_to m x" "section_step queued_threads x (s, h, w) \<noteq> None"
  shows "capped m (event_of queued_threads x h)"
proof -
  have "small (event_of queued_threads x h)"
    using queued_event_small [OF assms(1) up_to_small [OF assms(2)] assms(3)] .
  moreover have "asks_up_to m (event_of queued_threads x h)"
  proof (cases x)
    case (Enter k t r)
    then have r: "r \<le> m" "unat m < 2 ^ 31" "unat r < 2 ^ 31" using assms(2) up_to_small [OF assms(2)] by simp_all
    then have "sint r \<le> sint m" using sint_le_small [of m r] by simp
    with Enter assms(3) show ?thesis by (auto simp: queued_enter_event split: if_splits)
  next
    case (Inner e)
    then have "ev_inner queued_threads e \<noteq> None" using assms(3) by (auto split: option.splits)
    with Inner show ?thesis by (cases e) simp_all
  qed simp
  ultimately show ?thesis by (simp add: capped_def)
qed

lemma granted_gets:
  assumes "qsem_step (Q_resume u) s = Some s'" "q_log s' = q_log s @ [Granted u r]"
  shows "section_step queued_threads (Inner (Q_resume u)) (s, h, w) = Some (s', h(u := w u # h u), w)"
proof -
  obtain p r' timed where w: "qpcs s u = Q_wait p r' timed" "s' = settle u r' timed True (qs_resume r' (sem s)) s"
    using assms(1) by (auto split: qpc.splits if_splits)
  with assms(2) have "qpcs s' u = Q_out" "r' = r"
    by (auto simp: settle_def split: option.splits)
  with assms(1) w(1) show ?thesis by (simp add: after_call_def)
qed

lemma queued_progress:
  assumes run: "runs (section_step queued_threads) xs (outside (qsys_init n)) = Some (s, \<lambda>_. [], w)"
    and xs: "list_all (section_up_to n) xs" and n: "unat n < 2 ^ 31" and t: "qpcs s t \<noteq> Q_out"
  shows "\<exists>u s'. section_step queued_threads (Inner (Q_resume u)) (s, \<lambda>_. [], w) = Some (s', (\<lambda>_. [])(u := [w u]), w)"
proof -
  have inv: "qsec.section_inv n (s, \<lambda>_. [], w)" by (rule queued_reachable [OF run up_to_small_list [OF xs] n])
  obtain es where es: "runs qsem_step es (qsys_init n) = Some s" "list_all (capped n) es"
    using queued_project [where P = "capped n", OF _ run xs n] queued_event_capped up_to_small by blast
  have "fits n (q_log s)" using inv by (simp add: qsec.section_inv_def qsec.section_books_def)
  from capped_waiter_granted [OF es this t] obtain u r s'
    where "qsem_step (Q_resume u) s = Some s'" "q_log s' = q_log s @ [Granted u r]"
    using all_free(2) [OF inv] by (auto simp: available_permits_def)
  from granted_gets [OF this, of "\<lambda>_. []" w] show ?thesis by auto
qed

section \<open>No deadlock\<close>

text \<open>
  C15: guards that are not nested in a waiting way do not deadlock.  When no scope asks for more permits
  than there are, \<open>try_lock_until\<close> is used for single permits only, and no thread waits (for the semaphore)
  inside a scope, which excludes the deadlock of two nested guards on one permit
  (\<open>nested_guards_deadlock\<close>), then, whatever the sizes and ways of entering, whenever a thread waits some
  thread makes progress.  One that is in a scope can leave it; if nobody is, then on
  \<open>QueuedSemaphore\<close> one of those that wait gets its permits with its next step, and on
  \<open>SimpleSemaphore\<close> a releasing thread is about to notify all of them or the waiting thread gets its
  permits with its next step.
\<close>

theorem guarded_sections_deadlock_free:
  assumes "unat n < 2 ^ 31" "list_all (section_up_to n) xs" "list_all (section_up_to n) ys"
    and "runs (section_step simple_threads) xs (outside (SimpleSemaphore n)) = Some (s, h, w)"
    and "runs (section_step queued_threads) ys (outside (qsys_init n)) = Some (q, k, v)"
    and "\<forall>u. h u \<noteq> [] \<longrightarrow> spcs s u = S_out \<or> spcs s u = S_notifying" "spcs s t \<noteq> S_out"
    and "\<forall>u. k u \<noteq> [] \<longrightarrow> qpcs q u = Q_out" "qpcs q t' \<noteq> Q_out"
  shows "((\<exists>u s'. h u \<noteq> [] \<and> section_step simple_threads (Leave u) (s, h, w) = Some (s', h(u := tl (h u)), w)) \<or>
      (\<exists>u c. section_step simple_threads (Inner (S_notify_all u)) (s, h, w) = Some c) \<or>
      (\<exists>s'. section_step simple_threads (Inner (S_retest t)) (s, h, w) = Some (s', h(t := [w t]), w))) \<and>
    ((\<exists>u s'. k u \<noteq> [] \<and> section_step queued_threads (Leave u) (q, k, v) = Some (s', k(u := tl (k u)), v)) \<or>
      (\<exists>u s'. section_step queued_threads (Inner (Q_resume u)) (q, k, v) = Some (s', k(u := [v u]), v)))"
    (is "?S \<and> ?Q")
proof
  show ?S
  proof (cases "\<exists>u. h u \<noteq> []")
    case True
    then obtain u r rs where u: "h u = r # rs" by (meson neq_Nil_conv)
    with assms(6) consider "spcs s u = S_out" | "spcs s u = S_notifying"
      by (metis list.distinct(1))
    then show ?thesis
    proof cases
      case 1
      with u show ?thesis by (intro disjI1 exI [of _ u]) simp
    next
      case 2
      then show ?thesis by (intro disjI2 disjI1 exI [of _ u]) (simp add: after_call_def)
    qed
  next
    case False
    then have h: "h = (\<lambda>_. [])" by auto
    show ?thesis using simple_progress [OF assms(4) [unfolded h] assms(2,1,7)] unfolding h by blast
  qed
  show ?Q
  proof (cases "\<exists>u. k u \<noteq> []")
    case True
    then obtain u r rs where u: "k u = r # rs" by (meson neq_Nil_conv)
    have "q_status q = Running" by (rule queued_running [OF assms(5) up_to_small_list [OF assms(3)] assms(1)])
    with assms(8) u show ?thesis by (intro disjI1 exI [of _ u]) (simp split: option.split)
  next
    case False
    then have k: "k = (\<lambda>_. [])" by auto
    show ?thesis using queued_progress [OF assms(5) [unfolded k] assms(3,1,9)] unfolding k by blast
  qed
qed

text \<open>Thread 1 waits for all 3 permits while thread 0 is inside with 2, then thread 0 leaves.\<close>

theorem guarded_sections_deadlock_free_witness:
  "\<exists>s h w q k v. runs (section_step simple_threads) [Enter By_guard 0 2, Enter By_guard 1 3, Leave 0]
       (outside (SimpleSemaphore 3)) = Some (s, h, w) \<and>
     runs (section_step queued_threads) [Enter By_guard 0 2, Enter By_guard 1 3, Leave 0]
       (outside (qsys_init 3)) = Some (q, k, v) \<and>
     (\<exists>u s'. section_step queued_threads (Inner (Q_resume u)) (q, k, v) = Some (s', k(u := [v u]), v))"
proof -
  let ?xs = "[Enter By_guard 0 2, Enter By_guard 1 3, Leave 0]"
  have "map_option (\<lambda>(s, h, w). (h 0, h 1, spcs s 1)) (runs (section_step simple_threads) ?xs (outside (SimpleSemaphore 3)))
      = Some ([], [], S_blocked 3 False)"
    "map_option (\<lambda>(s, h, w). (h 0, h 1, qpcs s 1 = Q_out)) (runs (section_step queued_threads) ?xs (outside (qsys_init 3)))
      = Some ([], [], False)" by code_simp+
  then obtain s h w q k v where r: "runs (section_step simple_threads) ?xs (outside (SimpleSemaphore 3)) = Some (s, h, w)"
      "runs (section_step queued_threads) ?xs (outside (qsys_init 3)) = Some (q, k, v)"
    and out: "h 0 = []" "h 1 = []" "spcs s 1 \<noteq> S_out" "k 0 = []" "k 1 = []" "qpcs q 1 \<noteq> Q_out"
    by (elim map_option_SomeE) (auto simp del: runs.simps)
  have n: "unat (3 :: u32) < 2 ^ 31"
    and xs: "list_all (section_up_to 3) ?xs" and ys: "list_all (section_up_to 3) ?xs" by simp_all
  have "h u = []" "k u = []" for u
  proof -
    have "h u = [] \<or> u \<in> {0, 1}" using r(1)
      by (auto simp: outside_def after_call_def split: if_splits option.splits list.splits)
    with out show "h u = []" by auto
    have "k u = [] \<or> u \<in> {0, 1}" using r(2)
      by (auto simp: outside_def after_call_def split: if_splits option.splits list.splits)
    with out show "k u = []" by auto
  qed
  then have e: "\<forall>u. h u \<noteq> [] \<longrightarrow> spcs s u = S_out \<or> spcs s u = S_notifying" "\<forall>u. k u \<noteq> [] \<longrightarrow> qpcs q u = Q_out" "\<forall>u. k u = []" by simp_all
  from guarded_sections_deadlock_free [OF n xs ys r e(1) out(3) e(2) out(6)] e(3)
  have "\<exists>u s'. section_step queued_threads (Inner (Q_resume u)) (q, k, v) = Some (s', k(u := [v u]), v)" by blast
  with r show ?thesis by blast
qed

text \<open>
  Two guards nested on the only permit: thread 0 waits inside its own scope, and no step of the system
  is left, on either semaphore, unless the wait is timed.
\<close>

lemma nested_guards_deadlock:
  "map_option (\<lambda>(s, h, w). (spcs s 0, h 0, section_step simple_threads (Leave 0) (s, h, w) = None,
       section_step simple_threads (Inner (S_retest 0)) (s, h, w) = None))
     (runs (section_step simple_threads) [Enter By_guard 0 1, Enter By_guard 0 1] (outside (SimpleSemaphore 1)))
   = Some (S_blocked 1 False, [1], True, True)"
  "map_option (\<lambda>(q, k, v). (k 0, section_step queued_threads (Leave 0) (q, k, v) = None,
       section_step queued_threads (Inner (Q_resume 0)) (q, k, v) = None))
     (runs (section_step queued_threads) [Enter By_guard 0 1, Enter By_guard 0 1] (outside (qsys_init 1)))
   = Some ([1], True, True)"
  by code_simp+

end
