(* ===== verification/Reader_Writer.thy ===== *)
theory Reader_Writer
  imports Event_System
begin

text \<open>
  What the two shared mutexes of \<^verbatim>\<open>concurrency/shared_mutex.h\<close> have in common: the
  combined state word (\<open>uint_fast32_t\<close>, 64 bits wide with glibc on x86-64, bit 31 for the writer
  and 31 bits for the number of readers) with its bit operations, and condition variables as the list
  of the threads blocked on them: \<open>notify_all\<close> empties it, \<open>notify_one\<close> removes any one
  member, and a thread that is no longer in it tests its predicate again.
\<close>

datatype side = Reader | Writer

section \<open>The state word\<close>

definition WRITER_MASK :: u64 where
  "WRITER_MASK = push_bit 31 1"

definition NUM_READER_MASK :: u64 where
  "NUM_READER_MASK = WRITER_MASK - 1"

text \<open>The word for "a writer has entered" and \<open>k\<close> readers.\<close>

definition enc :: "bool \<Rightarrow> nat \<Rightarrow> u64" where
  "enc w k = of_nat k + (if w then WRITER_MASK else 0)"

definition max_readers :: nat where
  "max_readers = 2 ^ 31 - 1"

lemma masks: "WRITER_MASK = 2 ^ 31" "NUM_READER_MASK = mask 31"
  by (simp_all add: WRITER_MASK_def NUM_READER_MASK_def mask_eq_exp_minus_1)

lemma of_nat_u64_eq:
  assumes "m < 2 ^ 64" "n < 2 ^ 64" shows "(of_nat m :: u64) = of_nat n \<longleftrightarrow> m = n"
  using assms by (simp add: word_of_nat_eq_iff take_bit_nat_eq_self)

lemma bit_readers:
  assumes "k \<le> max_readers" shows "bit (of_nat k :: u64) n \<longleftrightarrow> n < 31 \<and> bit k n"
proof -
  have "take_bit 31 k = k" using assms by (simp add: take_bit_nat_eq_self max_readers_def)
  then have "bit k n \<Longrightarrow> n < 31" by (metis bit_take_bit_iff)
  then show ?thesis by (auto simp: bit_of_nat_iff_bit bit_simps)
qed
lemma bit_WRITER: "bit WRITER_MASK n \<longleftrightarrow> n = 31"
  unfolding masks(1) by (simp only: bit_exp_iff) auto

lemma bit_enc:
  assumes "k \<le> max_readers" shows "bit (enc w k) n \<longleftrightarrow> n = 31 \<and> w \<or> n < 31 \<and> bit k n"
proof (cases w)
  case True
  have "bit ((of_nat k :: u64) + WRITER_MASK) n \<longleftrightarrow> bit (of_nat k :: u64) n \<or> bit WRITER_MASK n"
    by (rule bit_disjunctive_add_iff) (use assms in \<open>auto simp: bit_readers bit_WRITER\<close>)
  with True assms show ?thesis by (auto simp: enc_def bit_readers bit_WRITER)
qed (use assms in \<open>simp add: enc_def bit_readers\<close>)

lemma bit_NUM: "bit NUM_READER_MASK n \<longleftrightarrow> n < 31"
  unfolding masks(2) by (simp only: bit_mask_iff) auto

lemma enc_readers: "k \<le> max_readers \<Longrightarrow> enc w k AND NUM_READER_MASK = of_nat k"
  by (rule bit_word_eqI) (auto simp: bit_and_iff bit_enc bit_NUM bit_readers)

lemma enc_writer: "k \<le> max_readers \<Longrightarrow> enc w k AND WRITER_MASK = (if w then WRITER_MASK else 0)"
  by (rule bit_word_eqI) (auto simp: bit_and_iff bit_enc bit_WRITER)

lemma enc_enter: "k \<le> max_readers \<Longrightarrow> enc w k OR WRITER_MASK = enc True k"
  by (rule bit_word_eqI) (auto simp: bit_or_iff bit_enc bit_WRITER)

lemma enc_leave: "k \<le> max_readers \<Longrightarrow> enc w k AND NOT WRITER_MASK = enc False k"
  by (rule bit_word_eqI) (auto simp: bit_and_iff bit_not_iff bit_enc bit_WRITER)

lemma WRITER_nonzero: "WRITER_MASK \<noteq> 0"
  by (metis bit_0_eq bit_WRITER bot_apply bot_bool_def)

lemma of_nat_readers: 
  assumes "k \<le> max_readers"
  shows "(of_nat k :: u64) = 0 \<longleftrightarrow> k = 0" "(of_nat k :: u64) = NUM_READER_MASK \<longleftrightarrow> k = max_readers"
    "(of_nat k :: u64) = NUM_READER_MASK - 1 \<longleftrightarrow> k = max_readers - 1"
proof -
  have num: "NUM_READER_MASK = of_nat max_readers" "NUM_READER_MASK - 1 = of_nat (max_readers - 1)"
    by (simp_all add: NUM_READER_MASK_def WRITER_MASK_def max_readers_def)
  show "(of_nat k :: u64) = 0 \<longleftrightarrow> k = 0" "(of_nat k :: u64) = NUM_READER_MASK \<longleftrightarrow> k = max_readers"
    "(of_nat k :: u64) = NUM_READER_MASK - 1 \<longleftrightarrow> k = max_readers - 1"
    using assms of_nat_u64_eq [of k 0] of_nat_u64_eq [of k max_readers]
      of_nat_u64_eq [of k "max_readers - 1"] unfolding num by (simp_all add: max_readers_def)
qed

lemma enc_zero: "k \<le> max_readers \<Longrightarrow> enc w k = 0 \<longleftrightarrow> \<not> w \<and> k = 0"
  using enc_writer [of k w] WRITER_nonzero of_nat_readers(1) [of k]
  by (cases w) (auto simp: enc_def)

lemma enc_step: "enc w k + 1 = enc w (Suc k)" "enc w (Suc k) - 1 = enc w k"
  by (simp_all add: enc_def)

lemma enc_init: "0 = enc False 0" "WRITER_MASK = enc True 0"
  by (simp_all add: enc_def)

lemmas enc_simps = enc_readers enc_writer enc_enter enc_leave enc_zero enc_step of_nat_readers
  WRITER_nonzero

section \<open>Condition variables\<close>

definition notify_one :: "nat \<Rightarrow> tid list \<Rightarrow> tid list option" where
  "notify_one i q = (if q = [] then Some [] else if i < length q
     then Some (take i q @ drop (Suc i) q) else None)"

lemma notify_one_subset: "notify_one i q = Some q' \<Longrightarrow> set q' \<subseteq> set q"
  by (auto simp: notify_one_def split: if_splits dest: in_set_takeD in_set_dropD)

lemma notify_one_single: "notify_one i [t] = Some q' \<Longrightarrow> q' = []"
  by (auto simp: notify_one_def split: if_splits)

end
