(* ===== verification/Shared_Mutex.thy ===== *)
theory Shared_Mutex
  imports Reader_Writer
begin

text \<open>
  \<open>SharedTimedMutex\<close> of \<^verbatim>\<open>concurrency/shared_mutex.h\<close>.  A section under \<open>mtx\<close> is
  one event; a notification after \<open>lock.unlock()\<close> is an event of its own.  \<open>rgate\<close> and
  \<open>wgate\<close> are the threads blocked on the two condition variables; a thread at a gate that is in
  neither list has been notified, woken spuriously or has timed out, and tests its predicate when it
  gets the mutex.  A thread holds the lock at most once, as the standard requires of a shared mutex.
\<close>

section \<open>State and sections\<close>

datatype mpc =
    M_out
  | M_at_rgate side bool
  | M_at_wgate bool
  | M_writer
  | M_reader
  | M_notify_rgate_all
  | M_notify_rgate_one
  | M_notify_wgate_one

record stm =
  m_state :: u64
  rgate :: "tid list"
  wgate :: "tid list"
  mpcs :: "tid \<Rightarrow> mpc"

definition SharedTimedMutex :: stm where
  "SharedTimedMutex = \<lparr>m_state = 0, rgate = [], wgate = [], mpcs = (\<lambda>_. M_out)\<rparr>"

definition to_pc :: "tid \<Rightarrow> mpc \<Rightarrow> stm \<Rightarrow> stm" where
  "to_pc t c s = s\<lparr>mpcs := (mpcs s)(t := c)\<rparr>"

text \<open>The second loop of \<open>lock\<close> and the second wait of \<open>try_lock_until\<close>.\<close>

definition stm_wgate :: "bool \<Rightarrow> tid \<Rightarrow> stm \<Rightarrow> stm" where
  "stm_wgate timed t s =
     (if m_state s AND NUM_READER_MASK \<noteq> 0
      then to_pc t (M_at_wgate timed) (s\<lparr>wgate := t # wgate s\<rparr>)
      else to_pc t M_writer s)"

definition stm_lock :: "bool \<Rightarrow> tid \<Rightarrow> stm \<Rightarrow> stm" where
  "stm_lock timed t s =
     (if m_state s AND WRITER_MASK \<noteq> 0
      then to_pc t (M_at_rgate Writer timed) (s\<lparr>rgate := t # rgate s\<rparr>)
      else stm_wgate timed t (s\<lparr>m_state := m_state s OR WRITER_MASK\<rparr>))"

definition stm_unlock :: "tid \<Rightarrow> stm \<Rightarrow> stm" where
  "stm_unlock t s = to_pc t M_notify_rgate_all (s\<lparr>m_state := m_state s AND NOT WRITER_MASK\<rparr>)"

text \<open>\<open>got\<close>: whether \<open>std::try_to_lock\<close> obtained \<open>mtx\<close>.\<close>

definition stm_try_lock :: "bool \<Rightarrow> tid \<Rightarrow> stm \<Rightarrow> stm" where
  "stm_try_lock got t s =
     (if got \<and> m_state s = 0 then to_pc t M_writer (s\<lparr>m_state := WRITER_MASK\<rparr>) else s)"

definition reader_blocked :: "stm \<Rightarrow> bool" where
  "reader_blocked s \<longleftrightarrow> m_state s AND WRITER_MASK \<noteq> 0 \<or>
     m_state s AND NUM_READER_MASK = NUM_READER_MASK"

definition stm_lock_shared :: "bool \<Rightarrow> tid \<Rightarrow> stm \<Rightarrow> stm" where
  "stm_lock_shared timed t s =
     (if reader_blocked s
      then to_pc t (M_at_rgate Reader timed) (s\<lparr>rgate := t # rgate s\<rparr>)
      else to_pc t M_reader (s\<lparr>m_state := m_state s + 1\<rparr>))"

definition stm_unlock_shared :: "tid \<Rightarrow> stm \<Rightarrow> stm" where
  "stm_unlock_shared t s =
     (let s = s\<lparr>m_state := m_state s - 1\<rparr>;
          num_readers_left = m_state s AND NUM_READER_MASK
      in to_pc t (if m_state s AND WRITER_MASK \<noteq> 0 \<and> num_readers_left = 0 then M_notify_wgate_one
                  else if num_readers_left = NUM_READER_MASK - 1 then M_notify_rgate_one
                  else M_out) s)"

definition stm_try_lock_shared :: "bool \<Rightarrow> tid \<Rightarrow> stm \<Rightarrow> stm" where
  "stm_try_lock_shared got t s =
     (if got \<and> \<not> reader_blocked s then to_pc t M_reader (s\<lparr>m_state := m_state s + 1\<rparr>) else s)"

text \<open>A timed wait that ran out with its predicate still false.\<close>

definition stm_timeout :: "tid \<Rightarrow> stm \<Rightarrow> stm option" where
  "stm_timeout t s =
     (case mpcs s t of
        M_at_rgate Writer True \<Rightarrow>
          if m_state s AND WRITER_MASK \<noteq> 0 then Some (to_pc t M_out s) else None
      | M_at_rgate Reader True \<Rightarrow> if reader_blocked s then Some (to_pc t M_out s) else None
      | M_at_wgate True \<Rightarrow> if m_state s AND NUM_READER_MASK \<noteq> 0 then Some (stm_unlock t s) else None
      | _ \<Rightarrow> None)"

definition stm_retest :: "tid \<Rightarrow> stm \<Rightarrow> stm option" where
  "stm_retest t s =
     (case mpcs s t of
        M_at_rgate Writer timed \<Rightarrow> Some (stm_lock timed t s)
      | M_at_rgate Reader timed \<Rightarrow> Some (stm_lock_shared timed t s)
      | M_at_wgate timed \<Rightarrow> Some (stm_wgate timed t s)
      | _ \<Rightarrow> None)"

definition stm_notify :: "nat \<Rightarrow> tid \<Rightarrow> stm \<Rightarrow> stm option" where
  "stm_notify i t s =
     (case mpcs s t of
        M_notify_rgate_all \<Rightarrow> Some (to_pc t M_out (s\<lparr>rgate := []\<rparr>))
      | M_notify_rgate_one \<Rightarrow> map_option (\<lambda>q. to_pc t M_out (s\<lparr>rgate := q\<rparr>)) (notify_one i (rgate s))
      | M_notify_wgate_one \<Rightarrow> map_option (\<lambda>q. to_pc t M_out (s\<lparr>wgate := q\<rparr>)) (notify_one i (wgate s))
      | _ \<Rightarrow> None)"

datatype mevent =
    M_lock tid bool
  | M_unlock tid
  | M_try_lock tid bool
  | M_lock_shared tid bool
  | M_unlock_shared tid
  | M_try_lock_shared tid bool
  | M_wake tid
  | M_retest tid
  | M_timeout tid
  | M_notify tid nat

fun stm_step :: "mevent \<Rightarrow> stm \<Rightarrow> stm option" where
  "stm_step (M_lock t timed) s = (if mpcs s t = M_out then Some (stm_lock timed t s) else None)"
| "stm_step (M_unlock t) s = (if mpcs s t = M_writer then Some (stm_unlock t s) else None)"
| "stm_step (M_try_lock t got) s = (if mpcs s t = M_out then Some (stm_try_lock got t s) else None)"
| "stm_step (M_lock_shared t timed) s =
     (if mpcs s t = M_out then Some (stm_lock_shared timed t s) else None)"
| "stm_step (M_unlock_shared t) s =
     (if mpcs s t = M_reader then Some (stm_unlock_shared t s) else None)"
| "stm_step (M_try_lock_shared t got) s =
     (if mpcs s t = M_out then Some (stm_try_lock_shared got t s) else None)"
| "stm_step (M_wake t) s =
     (if t \<in> set (rgate s) \<or> t \<in> set (wgate s)
      then Some (s\<lparr>rgate := removeAll t (rgate s), wgate := removeAll t (wgate s)\<rparr>) else None)"
| "stm_step (M_retest t) s =
     (if t \<in> set (rgate s) \<or> t \<in> set (wgate s) then None else stm_retest t s)"
| "stm_step (M_timeout t) s =
     (if t \<in> set (rgate s) \<or> t \<in> set (wgate s) then None else stm_timeout t s)"
| "stm_step (M_notify t i) s = stm_notify i t s"

section \<open>Who holds the lock\<close>

definition readers :: "(tid \<Rightarrow> mpc) \<Rightarrow> tid set" where
  "readers p = {t. p t = M_reader}"

definition entered :: "(tid \<Rightarrow> mpc) \<Rightarrow> tid set" where
  "entered p = {t. p t = M_writer \<or> (\<exists>timed. p t = M_at_wgate timed)}"

lemma readers_upd [simp]:
  "readers (p(t := c)) = (if c = M_reader then insert t (readers p) else readers p - {t})"
  by (auto simp: readers_def)

lemma entered_upd [simp]:
  "entered (p(t := c)) =
     (if c = M_writer \<or> (\<exists>timed. c = M_at_wgate timed) then insert t (entered p) else entered p - {t})"
  by (auto simp: entered_def)

text \<open>
  The state word says exactly who is inside: bit 31 that one writer has entered, the rest how many
  readers there are, and a writer past the second gate is alone.
\<close>

definition stm_exact :: "stm \<Rightarrow> bool" where
  "stm_exact s \<longleftrightarrow> finite (readers (mpcs s)) \<and> card (readers (mpcs s)) \<le> max_readers \<and>
     m_state s = enc (entered (mpcs s) \<noteq> {}) (card (readers (mpcs s))) \<and>
     (entered (mpcs s) = {} \<or> (\<exists>t. entered (mpcs s) = {t})) \<and>
     ((\<exists>t. mpcs s t = M_writer) \<longrightarrow> readers (mpcs s) = {})"

lemma to_pc_sel [simp]:
  "m_state (to_pc t c s) = m_state s" "rgate (to_pc t c s) = rgate s" "wgate (to_pc t c s) = wgate s"
  "mpcs (to_pc t c s) = (mpcs s)(t := c)"
  by (simp_all add: to_pc_def)

text \<open>The conditions of the code, read off the sets.\<close>

lemma exact_tests:
  assumes "stm_exact s"
  shows "m_state s AND WRITER_MASK \<noteq> 0 \<longleftrightarrow> entered (mpcs s) \<noteq> {}"
    "m_state s AND NUM_READER_MASK \<noteq> 0 \<longleftrightarrow> readers (mpcs s) \<noteq> {}"
    "m_state s = 0 \<longleftrightarrow> entered (mpcs s) = {} \<and> readers (mpcs s) = {}"
    "reader_blocked s \<longleftrightarrow> entered (mpcs s) \<noteq> {} \<or> card (readers (mpcs s)) = max_readers"
  using assms by (auto simp: stm_exact_def enc_simps reader_blocked_def)

lemma exact_lists [simp]:
  "stm_exact (s\<lparr>rgate := q\<rparr>) = stm_exact s" "stm_exact (s\<lparr>wgate := q\<rparr>) = stm_exact s"
  by (simp_all add: stm_exact_def)

text \<open>A thread that holds nothing moves between places where it holds nothing.\<close>

definition idle :: "mpc \<Rightarrow> bool" where
  "idle c \<longleftrightarrow> c \<noteq> M_reader \<and> c \<noteq> M_writer \<and> (\<forall>timed. c \<noteq> M_at_wgate timed)"

lemma idle_simps [simp]:
  "idle M_out" "idle (M_at_rgate d b)" "idle M_notify_rgate_all" "idle M_notify_rgate_one"
  "idle M_notify_wgate_one" "\<not> idle M_reader" "\<not> idle M_writer" "\<not> idle (M_at_wgate b)"
  by (simp_all add: idle_def)

lemma idle_outside: "idle (p t) \<Longrightarrow> t \<notin> readers p \<and> t \<notin> entered p"
  by (auto simp: idle_def readers_def entered_def)

lemma exact_idle:
  assumes "stm_exact s" "idle (mpcs s t)" "idle c" shows "stm_exact (to_pc t c s)"
  using assms idle_outside [of "mpcs s" t] by (auto simp: stm_exact_def idle_def)

lemma entered_single: "\<lbrakk> stm_exact s; t \<in> entered (mpcs s) \<rbrakk> \<Longrightarrow> entered (mpcs s) = {t}"
  by (auto simp: stm_exact_def)

lemma entered_member:
  "mpcs s t = M_at_wgate b \<Longrightarrow> t \<in> entered (mpcs s)" "mpcs s t = M_writer \<Longrightarrow> t \<in> entered (mpcs s)"
  "t \<in> entered (mpcs s) \<Longrightarrow> t \<notin> readers (mpcs s)"
  by (auto simp: entered_def readers_def)

lemma exact_wgate:
  assumes "stm_exact s" "mpcs s t = M_at_wgate b" shows "stm_exact (stm_wgate timed t s)"
proof -
  have "entered (mpcs s) = {t}" "t \<notin> readers (mpcs s)"
    using assms entered_member entered_single by metis+
  then show ?thesis using assms exact_tests(2) [OF assms(1)]
    by (auto simp: stm_wgate_def stm_exact_def)
qed

lemma exact_lock:
  assumes ex: "stm_exact s" and t: "idle (mpcs s t)" shows "stm_exact (stm_lock timed t s)"
proof (cases "m_state s AND WRITER_MASK \<noteq> 0")
  case True
  with ex t show ?thesis by (simp add: stm_lock_def exact_idle)
next
  case False
  let ?s = "to_pc t (M_at_wgate timed) (s\<lparr>m_state := m_state s OR WRITER_MASK\<rparr>)"
  have e: "entered (mpcs s) = {}" using False exact_tests(1) [OF ex] by simp
  have "stm_exact ?s"
    using ex e idle_outside [of "mpcs s" t] t by (auto simp: stm_exact_def enc_simps entered_def)
  then have "stm_exact (stm_wgate timed t ?s)" by (rule exact_wgate [where b = timed]) simp
  moreover have "stm_lock timed t s = stm_wgate timed t ?s"
    using False by (simp add: stm_lock_def stm_wgate_def to_pc_def)
  ultimately show ?thesis by simp
qed

lemma exact_unlock:
  assumes "stm_exact s" "t \<in> entered (mpcs s)" shows "stm_exact (stm_unlock t s)"
proof -
  have "entered (mpcs s) = {t}" "t \<notin> readers (mpcs s)"
    using assms entered_member entered_single by metis+
  moreover have "mpcs s u \<noteq> M_writer" if "u \<noteq> t" for u
    using that entered_member(2) [of s u] entered_single [OF assms] by auto
  ultimately show ?thesis
    using assms(1) by (auto simp: stm_unlock_def stm_exact_def enc_simps)
qed

lemma exact_try_lock:
  assumes "stm_exact s" "mpcs s t = M_out" shows "stm_exact (stm_try_lock got t s)"
  using assms exact_tests(3) [OF assms(1)] by (auto simp: stm_try_lock_def stm_exact_def enc_init)

lemma exact_reader_enters:
  assumes ex: "stm_exact s" and t: "idle (mpcs s t)" and nb: "\<not> reader_blocked s"
  shows "stm_exact (to_pc t M_reader (s\<lparr>m_state := m_state s + 1\<rparr>))"
proof -
  have "entered (mpcs s) = {}" "card (readers (mpcs s)) < max_readers"
    using ex nb exact_tests(4) [OF ex] by (auto simp: stm_exact_def)
  then show ?thesis
    using ex idle_outside [of "mpcs s" t] t by (auto simp: stm_exact_def enc_step entered_def)
qed

lemma exact_lock_shared:
  "\<lbrakk> stm_exact s; idle (mpcs s t) \<rbrakk> \<Longrightarrow> stm_exact (stm_lock_shared timed t s)"
  by (auto simp: stm_lock_shared_def exact_reader_enters intro!: exact_idle)

lemma exact_try_lock_shared:
  "\<lbrakk> stm_exact s; idle (mpcs s t) \<rbrakk> \<Longrightarrow> stm_exact (stm_try_lock_shared got t s)"
  by (auto simp: stm_try_lock_shared_def exact_reader_enters)

lemma exact_unlock_shared:
  assumes ex: "stm_exact s" and t: "mpcs s t = M_reader"
  shows "stm_exact (stm_unlock_shared t s)"
proof -
  have r: "t \<in> readers (mpcs s)" "t \<notin> entered (mpcs s)"
    using t by (auto simp: readers_def entered_def)
  obtain k where k: "card (readers (mpcs s) - {t}) = k" by simp
  have k': "card (readers (mpcs s)) = Suc k"
    using ex r(1) k card_Suc_Diff1 [of "readers (mpcs s)" t] by (simp add: stm_exact_def)
  have "\<not> (\<exists>u. mpcs s u = M_writer)" using ex r(1) by (auto simp: stm_exact_def)
  then show ?thesis
    using ex r k k' by (auto simp: stm_unlock_shared_def Let_def stm_exact_def enc_step)
qed

lemma stm_exact_step:
  assumes ex: "stm_exact s" and step: "stm_step e s = Some s'"
  shows "stm_exact s'"
proof (cases e)
  case (M_retest t)
  then show ?thesis using step ex
    by (auto simp: stm_retest_def exact_lock exact_lock_shared exact_wgate
        split: if_splits mpc.splits side.splits)
next
  case (M_timeout t)
  then show ?thesis using step ex
    by (auto simp: stm_timeout_def exact_idle exact_unlock entered_member(1)
        split: if_splits mpc.splits side.splits bool.splits)
next
  case (M_notify t i)
  then show ?thesis using step ex
    by (auto simp: stm_notify_def exact_idle split: mpc.splits)
qed (use step ex in \<open>auto simp: exact_lock exact_unlock exact_try_lock exact_lock_shared
      exact_unlock_shared exact_try_lock_shared entered_member(2) split: if_splits\<close>)

interpretation stme: inv_system stm_step stm_exact
  by unfold_locales (rule stm_exact_step)

lemma stm_exact_init: "stm_exact SharedTimedMutex"
  by (simp add: stm_exact_def SharedTimedMutex_def readers_def entered_def enc_def)

section \<open>Wake-ups\<close>

text \<open>
  With fewer than \<open>2 ^ 31 - 1\<close> threads the reader count never saturates while somebody waits, and
  every blocked thread whose gate is open will be notified.
\<close>

definition below :: "(tid \<Rightarrow> mpc) \<Rightarrow> bool" where
  "below p \<longleftrightarrow> (\<forall>t. max_readers \<le> t \<longrightarrow> p t = M_out)"

definition rgate_side :: "(tid \<Rightarrow> mpc) \<Rightarrow> tid set" where
  "rgate_side p = {t. \<exists>d b. p t = M_at_rgate d b}"

definition wgate_side :: "(tid \<Rightarrow> mpc) \<Rightarrow> tid set" where
  "wgate_side p = {t. \<exists>b. p t = M_at_wgate b}"

definition rgate_bells :: "(tid \<Rightarrow> mpc) \<Rightarrow> tid set" where
  "rgate_bells p = {t. p t = M_notify_rgate_all}"

definition wgate_bells :: "(tid \<Rightarrow> mpc) \<Rightarrow> tid set" where
  "wgate_bells p = {t. p t = M_notify_wgate_one}"

lemma sides_upd [simp]:
  "rgate_side (p(t := c)) =
     (if \<exists>d b. c = M_at_rgate d b then insert t (rgate_side p) else rgate_side p - {t})"
  "wgate_side (p(t := c)) =
     (if \<exists>b. c = M_at_wgate b then insert t (wgate_side p) else wgate_side p - {t})"
  "rgate_bells (p(t := c)) =
     (if c = M_notify_rgate_all then insert t (rgate_bells p) else rgate_bells p - {t})"
  "wgate_bells (p(t := c)) =
     (if c = M_notify_wgate_one then insert t (wgate_bells p) else wgate_bells p - {t})"
  by (auto simp: rgate_side_def wgate_side_def rgate_bells_def wgate_bells_def)

text \<open>Where one thread is, as membership in the sets.\<close>

lemma site_of:
  "mpcs s t = c \<Longrightarrow> t \<in> readers (mpcs s) \<longleftrightarrow> c = M_reader"
  "mpcs s t = c \<Longrightarrow> t \<in> entered (mpcs s) \<longleftrightarrow> c = M_writer \<or> (\<exists>b. c = M_at_wgate b)"
  "mpcs s t = c \<Longrightarrow> t \<in> rgate_side (mpcs s) \<longleftrightarrow> (\<exists>d b. c = M_at_rgate d b)"
  "mpcs s t = c \<Longrightarrow> t \<in> wgate_side (mpcs s) \<longleftrightarrow> (\<exists>b. c = M_at_wgate b)"
  "mpcs s t = c \<Longrightarrow> t \<in> rgate_bells (mpcs s) \<longleftrightarrow> c = M_notify_rgate_all"
  "mpcs s t = c \<Longrightarrow> t \<in> wgate_bells (mpcs s) \<longleftrightarrow> c = M_notify_wgate_one"
  by (auto simp: readers_def entered_def rgate_side_def wgate_side_def rgate_bells_def wgate_bells_def)

lemma wgate_side_entered: "wgate_side p \<subseteq> entered p"
  by (auto simp: wgate_side_def entered_def)

definition at_gates :: "stm \<Rightarrow> bool" where
  "at_gates s \<longleftrightarrow> set (rgate s) \<subseteq> rgate_side (mpcs s) \<and> set (wgate s) \<subseteq> wgate_side (mpcs s) \<and>
     distinct (wgate s)"

definition rgate_alert :: "stm \<Rightarrow> bool" where
  "rgate_alert s \<longleftrightarrow> rgate s = [] \<or> entered (mpcs s) \<noteq> {} \<or> rgate_bells (mpcs s) \<noteq> {}"

definition wgate_alert :: "stm \<Rightarrow> bool" where
  "wgate_alert s \<longleftrightarrow> wgate s = [] \<or> readers (mpcs s) \<noteq> {} \<or> wgate_bells (mpcs s) \<noteq> {}"

definition stm_alert :: "stm \<Rightarrow> bool" where
  "stm_alert s \<longleftrightarrow> at_gates s \<and> rgate_alert s \<and> wgate_alert s"

definition stm_inv :: "stm \<Rightarrow> bool" where
  "stm_inv s \<longleftrightarrow> stm_exact s \<and> below (mpcs s) \<and> stm_alert s"

fun m_tid :: "mevent \<Rightarrow> tid" where
  "m_tid (M_lock t b) = t"
| "m_tid (M_unlock t) = t"
| "m_tid (M_try_lock t b) = t"
| "m_tid (M_lock_shared t b) = t"
| "m_tid (M_unlock_shared t) = t"
| "m_tid (M_try_lock_shared t b) = t"
| "m_tid (M_wake t) = t"
| "m_tid (M_retest t) = t"
| "m_tid (M_timeout t) = t"
| "m_tid (M_notify t i) = t"

definition few :: "mevent \<Rightarrow> bool" where
  "few e \<longleftrightarrow> m_tid e < max_readers"

lemmas alert_defs = stm_alert_def at_gates_def rgate_alert_def wgate_alert_def

text \<open>A thread that may try to take the lock: outside, or at the first gate and not blocked.\<close>

definition free_to_try :: "tid \<Rightarrow> stm \<Rightarrow> bool" where
  "free_to_try t s \<longleftrightarrow> (mpcs s t = M_out \<or> (\<exists>d b. mpcs s t = M_at_rgate d b)) \<and>
     t \<notin> set (rgate s) \<and> t \<notin> set (wgate s)"

lemma free_sites:
  assumes "free_to_try t s"
  shows "t \<notin> readers (mpcs s)" "t \<notin> entered (mpcs s)" "t \<notin> wgate_side (mpcs s)"
    "t \<notin> rgate_bells (mpcs s)" "t \<notin> wgate_bells (mpcs s)" "idle (mpcs s t)"
    "t \<notin> set (rgate s)" "t \<notin> set (wgate s)"
  using assms by (auto simp: free_to_try_def site_of [of s t, OF refl])

lemma alert_wait_rgate:
  assumes "stm_alert s" "free_to_try t s" "entered (mpcs s) \<noteq> {}"
  shows "stm_alert (to_pc t (M_at_rgate d b) (s\<lparr>rgate := t # rgate s\<rparr>))"
  using assms free_sites [OF assms(2)] by (auto simp: alert_defs)

lemma alert_out:
  assumes "stm_alert s" "free_to_try t s"
  shows "stm_alert (to_pc t M_out s)"
  using assms free_sites [OF assms(2)] by (auto simp: alert_defs)

lemma alert_lock:
  assumes ex: "stm_exact s" and al: "stm_alert s" and t: "free_to_try t s"
  shows "stm_alert (stm_lock timed t s)"
proof (cases "entered (mpcs s) = {}")
  case False
  with alert_wait_rgate [OF al t False] exact_tests(1) [OF ex] show ?thesis by (simp add: stm_lock_def)
next
  case True
  then have "wgate s = []" using al wgate_side_entered [of "mpcs s"] by (auto simp: alert_defs)
  moreover have "(m_state s OR WRITER_MASK) AND NUM_READER_MASK \<noteq> 0 \<longleftrightarrow> readers (mpcs s) \<noteq> {}"
    using ex by (auto simp: stm_exact_def enc_simps)
  ultimately show ?thesis
    using True al free_sites [OF t] exact_tests(1) [OF ex]
    by (auto simp: stm_lock_def stm_wgate_def alert_defs)
qed

lemma alert_retest_wgate:
  assumes ex: "stm_exact s" and al: "stm_alert s" and t: "mpcs s t = M_at_wgate b" "t \<notin> set (wgate s)"
  shows "stm_alert (stm_wgate timed t s)"
  using al t(2) site_of [OF t(1)] exact_tests(2) [OF ex] entered_single [OF ex, of t]
    wgate_side_entered [of "mpcs s"]
  by (auto simp: stm_wgate_def alert_defs)

lemma below_not_full:
  assumes ex: "stm_exact s" and b: "below (mpcs s)" and t: "t < max_readers" "t \<notin> readers (mpcs s)"
  shows "card (readers (mpcs s)) < max_readers"
proof -
  have "readers (mpcs s) \<subseteq> {..<max_readers} - {t}"
  proof
    fix u assume u: "u \<in> readers (mpcs s)"
    then have "mpcs s u = M_reader" by (simp add: readers_def)
    then have "\<not> max_readers \<le> u" using b by (auto simp: below_def)
    then show "u \<in> {..<max_readers} - {t}" using u t(2) by auto
  qed
  then have "card (readers (mpcs s)) \<le> card ({..<max_readers} - {t})" by (intro card_mono) auto
  also have "\<dots> < max_readers" using t(1) by simp
  finally show ?thesis .
qed

lemma alert_lock_shared:
  assumes ex: "stm_exact s" and al: "stm_alert s" and t: "free_to_try t s"
    and b: "below (mpcs s)" "t < max_readers"
  shows "stm_alert (stm_lock_shared timed t s)"
proof (cases "entered (mpcs s) = {}")
  case False
  with alert_wait_rgate [OF al t False] exact_tests(4) [OF ex] show ?thesis
    by (simp add: stm_lock_shared_def)
next
  case True
  then have "\<not> reader_blocked s"
    using below_not_full [OF ex b] free_sites(1) [OF t] exact_tests(4) [OF ex] by simp
  then show ?thesis using True al free_sites [OF t]
    by (auto simp: stm_lock_shared_def alert_defs)
qed

lemma alert_try:
  assumes ex: "stm_exact s" and al: "stm_alert s" and t: "free_to_try t s"
  shows "stm_alert (stm_try_lock got t s)" "stm_alert (stm_try_lock_shared got t s)"
  using al free_sites [OF t] exact_tests(3,4) [OF ex] wgate_side_entered [of "mpcs s"]
  by (auto simp: stm_try_lock_def stm_try_lock_shared_def alert_defs)

lemma alert_unlock:
  assumes ex: "stm_exact s" and al: "stm_alert s" and t: "t \<in> entered (mpcs s)" "t \<notin> set (wgate s)"
  shows "stm_alert (stm_unlock t s)"
proof -
  have "set (wgate s) \<subseteq> {t}"
    using al entered_single [OF ex t(1)] wgate_side_entered [of "mpcs s"] by (auto simp: alert_defs)
  then have "wgate s = []" using t(2) by (cases "wgate s") auto
  moreover have "t \<notin> rgate_side (mpcs s)"
    using t(1) by (auto simp: entered_def rgate_side_def)
  ultimately show ?thesis using al by (auto simp: stm_unlock_def alert_defs)
qed

lemma alert_unlock_shared:
  assumes ex: "stm_exact s" and al: "stm_alert s" and t: "mpcs s t = M_reader"
  shows "stm_alert (stm_unlock_shared t s)"
proof -
  let ?R = "readers (mpcs s)"
  have r: "t \<in> ?R" "finite ?R" using ex site_of(1) [OF t] by (simp_all add: stm_exact_def)
  have k: "card ?R = Suc (card (?R - {t}))" using card_Suc_Diff1 [OF r(2,1)] by simp
  then have "m_state s - 1 = enc (entered (mpcs s) \<noteq> {}) (card (?R - {t}))"
    "card (?R - {t}) \<le> max_readers"
    using ex by (simp_all add: stm_exact_def enc_step)
  then have "(m_state s - 1) AND WRITER_MASK \<noteq> 0 \<longleftrightarrow> entered (mpcs s) \<noteq> {}"
    "(m_state s - 1) AND NUM_READER_MASK = 0 \<longleftrightarrow> ?R - {t} = {}"
    using r(2) by (simp_all add: enc_simps)
  then show ?thesis
    using al site_of [OF t] wgate_side_entered [of "mpcs s"]
    by (auto simp: stm_unlock_shared_def Let_def alert_defs)
qed

lemma alert_wake:
  assumes "stm_alert s"
  shows "stm_alert (s\<lparr>rgate := removeAll t (rgate s), wgate := removeAll t (wgate s)\<rparr>)"
  using assms by (auto simp: alert_defs distinct_removeAll)

lemma wgate_single:
  assumes ex: "stm_exact s" and al: "stm_alert s"
  shows "wgate s = [] \<or> (\<exists>u. wgate s = [u] \<and> entered (mpcs s) = {u})"
proof (cases "wgate s")
  case (Cons u us)
  have sub: "set (wgate s) \<subseteq> entered (mpcs s)" "distinct (wgate s)"
    using al wgate_side_entered [of "mpcs s"] by (auto simp: alert_defs)
  then have e: "entered (mpcs s) = {u}" using Cons by (intro entered_single [OF ex]) auto
  then have "set us \<subseteq> {u}" "u \<notin> set us" using sub Cons by auto
  then have "us = []" by (cases us) auto
  then show ?thesis using Cons e by simp
qed simp

lemma alert_notify:
  assumes ex: "stm_exact s" and al: "stm_alert s" and n: "stm_notify i t s = Some s'"
  shows "stm_alert s'"
proof (cases "mpcs s t")
  case M_notify_rgate_all
  then show ?thesis using al n site_of [OF M_notify_rgate_all] by (auto simp: stm_notify_def alert_defs)
next
  case M_notify_rgate_one
  then show ?thesis using al n site_of [OF M_notify_rgate_one] notify_one_subset [of i "rgate s"]
    by (fastforce simp: stm_notify_def alert_defs notify_one_def split: if_splits)
next
  case M_notify_wgate_one
  then obtain q where q: "notify_one i (wgate s) = Some q" "s' = to_pc t M_out (s\<lparr>wgate := q\<rparr>)"
    using n by (auto simp: stm_notify_def)
  then have "q = []"
    using wgate_single [OF ex al] notify_one_single [of i _ q] by (auto simp: notify_one_def split: if_splits)
  then show ?thesis using al q(2) site_of [OF M_notify_wgate_one] by (auto simp: alert_defs)
qed (use n in \<open>auto simp: stm_notify_def\<close>)

lemma gate_members:
  assumes "stm_alert s"
  shows "mpcs s t = M_out \<Longrightarrow> free_to_try t s"
    "\<lbrakk> mpcs s t = M_at_rgate d b; t \<notin> set (rgate s) \<rbrakk> \<Longrightarrow> free_to_try t s"
    "mpcs s t = M_writer \<Longrightarrow> t \<notin> set (wgate s)"
  using assms by (auto simp: free_to_try_def alert_defs rgate_side_def wgate_side_def)

lemma stm_alert_step:
  assumes ex: "stm_exact s" and al: "stm_alert s" and b: "below (mpcs s)" and e: "few e"
    and step: "stm_step e s = Some s'"
  shows "stm_alert s'"
proof (cases e)
  case (M_unlock t)
  then show ?thesis using step ex al gate_members(3) [OF al, of t]
    by (auto intro: alert_unlock entered_member split: if_splits)
next
  case (M_retest t)
  then show ?thesis using step ex al b e gate_members(2) [OF al, of t]
    by (auto simp: stm_retest_def few_def split: if_splits mpc.splits side.splits
        intro: alert_lock alert_lock_shared alert_retest_wgate)
next
  case (M_timeout t)
  then show ?thesis using step ex al gate_members(2) [OF al, of t]
    by (auto simp: stm_timeout_def split: if_splits mpc.splits side.splits bool.splits
        intro: alert_out alert_unlock entered_member)
next
  case (M_notify t i)
  then show ?thesis using step alert_notify [OF ex al] by simp
qed (use step ex al b e gate_members(1) [OF al] in
    \<open>auto simp: few_def alert_wake split: if_splits
      intro: alert_lock alert_lock_shared alert_try alert_unlock_shared\<close>)

lemma below_step:
  assumes "below (mpcs s)" "few e" "stm_step e s = Some s'"
  shows "below (mpcs s')"
proof -
  have "mpcs s' u = mpcs s u" if "u \<noteq> m_tid e" for u
    using assms(3) that
    by (cases e) (auto simp: stm_lock_def stm_wgate_def stm_unlock_def stm_try_lock_def
        stm_lock_shared_def stm_unlock_shared_def stm_try_lock_shared_def stm_timeout_def
        stm_retest_def stm_notify_def Let_def
        split: if_splits mpc.splits side.splits bool.splits)
  with assms(1,2) show ?thesis by (auto simp: below_def few_def)
qed

lemma stm_inv_step:
  "\<lbrakk> stm_inv s; few e; stm_step e s = Some s' \<rbrakk> \<Longrightarrow> stm_inv s'"
  unfolding stm_inv_def by (blast intro: stm_exact_step stm_alert_step below_step)

interpretation stmi: guarded_system stm_step few stm_inv
  by unfold_locales (rule stm_inv_step)

lemma stm_inv_init: "stm_inv SharedTimedMutex"
  unfolding stm_inv_def using stm_exact_init
  by (simp add: alert_defs below_def SharedTimedMutex_def)

section \<open>Properties\<close>

lemma reachable_exact: "runs stm_step es SharedTimedMutex = Some s \<Longrightarrow> stm_exact s"
  by (rule stme.runs_inv [OF stm_exact_init])

lemma reachable_inv:
  "\<lbrakk> runs stm_step es SharedTimedMutex = Some s; list_all few es \<rbrakk> \<Longrightarrow> stm_inv s"
  by (rule stmi.runs_inv [OF stm_inv_init])

text \<open>
  C8: \<open>SharedTimedMutex\<close> excludes.  In every schedule of any number of threads at most one thread
  holds the lock exclusively, none holds it shared at the same time, and the low 31 bits of the state
  word count the threads that hold it shared (the count never spills into the writer bit).
\<close>

theorem stm_mutual_exclusion:
  assumes "runs stm_step es SharedTimedMutex = Some s"
  shows "(\<forall>t u. mpcs s t = M_writer \<and> mpcs s u = M_writer \<longrightarrow> t = u) \<and>
    (\<forall>t u. mpcs s t = M_writer \<longrightarrow> mpcs s u \<noteq> M_reader) \<and>
    finite {t. mpcs s t = M_reader} \<and>
    unat (m_state s AND NUM_READER_MASK) = card {t. mpcs s t = M_reader}"
proof -
  have ex: "stm_exact s" using reachable_exact [OF assms] .
  have "t = u" if "mpcs s t = M_writer" "mpcs s u = M_writer" for t u
    using entered_single [OF ex entered_member(2) [OF that(1)]] entered_member(2) [OF that(2)] by auto
  moreover have "mpcs s u \<noteq> M_reader" if "mpcs s t = M_writer" for t u
    using ex that by (auto simp: stm_exact_def readers_def)
  moreover have "unat (m_state s AND NUM_READER_MASK) = card {t. mpcs s t = M_reader}"
    using ex by (simp add: stm_exact_def enc_readers readers_def max_readers_def unat_of_nat
        take_bit_nat_eq_self)
  moreover have "finite {t. mpcs s t = M_reader}"
    using ex by (simp add: stm_exact_def readers_def)
  ultimately show ?thesis by blast
qed

theorem stm_mutual_exclusion_witness:
  "\<exists>s. runs stm_step [M_lock_shared 0 False, M_lock 1 True, M_unlock_shared 0, M_notify 0 0, M_retest 1]
       SharedTimedMutex = Some s \<and> unat (m_state s AND NUM_READER_MASK) = card {t. mpcs s t = M_reader}"
proof -
  let ?es = "[M_lock_shared 0 False, M_lock 1 True, M_unlock_shared 0, M_notify 0 0, M_retest 1]"
  have "runs stm_step ?es SharedTimedMutex \<noteq> None" by code_simp
  then obtain s where s: "runs stm_step ?es SharedTimedMutex = Some s" by blast
  with stm_mutual_exclusion [OF s] show ?thesis by blast
qed

text \<open>
  C24: writers are not starved by readers: from the moment a writer has passed the first gate, no step
  of any thread admits a new reader or another writer until that writer gives the gate back.
\<close>

theorem stm_writer_closes_gate:
  assumes "runs stm_step es SharedTimedMutex = Some s" "m_state s AND WRITER_MASK \<noteq> 0"
    and "stm_step e s = Some s'"
  shows "readers (mpcs s') \<subseteq> readers (mpcs s) \<and> entered (mpcs s') \<subseteq> entered (mpcs s)"
proof -
  have ex: "stm_exact s" using reachable_exact [OF assms(1)] .
  have nz: "m_state s \<noteq> 0" "reader_blocked s"
    using assms(2) by (auto simp: reader_blocked_def)
  show ?thesis
    using assms(2,3) nz entered_member(1) [of s]
    by (cases e)
      (auto simp: stm_lock_def stm_wgate_def stm_unlock_def stm_try_lock_def stm_lock_shared_def
        stm_unlock_shared_def stm_try_lock_shared_def stm_timeout_def stm_retest_def stm_notify_def Let_def
        split: if_splits mpc.splits side.splits bool.splits)
qed

theorem stm_writer_closes_gate_witness:
  "\<exists>s s'. runs stm_step [M_lock_shared 0 False, M_lock 1 False] SharedTimedMutex = Some s \<and>
     stm_step (M_lock_shared 2 False) s = Some s' \<and> readers (mpcs s') \<subseteq> readers (mpcs s)"
proof -
  let ?es = "[M_lock_shared 0 False, M_lock 1 False]"
  have "map_option (\<lambda>s. (m_state s AND WRITER_MASK, stm_step (M_lock_shared 2 False) s \<noteq> None))
      (runs stm_step ?es SharedTimedMutex) = Some (WRITER_MASK, True)" by code_simp
  then obtain s where s: "runs stm_step ?es SharedTimedMutex = Some s"
    "m_state s AND WRITER_MASK \<noteq> 0" "stm_step (M_lock_shared 2 False) s \<noteq> None"
    by (elim map_option_SomeE) (use WRITER_nonzero in auto)
  then obtain s' where "stm_step (M_lock_shared 2 False) s = Some s'" by blast
  with stm_writer_closes_gate [OF s(1,2) this] s(1) show ?thesis by blast
qed

lemma wgate_woken:
  assumes ex: "stm_exact s" and al: "stm_alert s"
    and t: "t \<in> set (wgate s)" and r: "m_state s AND NUM_READER_MASK = 0"
  shows "\<exists>u s1 s2. stm_step (M_notify u 0) s = Some s1 \<and> stm_step (M_retest t) s1 = Some s2 \<and>
    mpcs s2 t = M_writer"
proof -
  obtain b where pc: "mpcs s t = M_at_wgate b" using al t by (auto simp: alert_defs wgate_side_def)
  have "t \<notin> set (rgate s)" using al pc by (auto simp: alert_defs rgate_side_def)
  moreover obtain u where "mpcs s u = M_notify_wgate_one"
    using al t r exact_tests(2) [OF ex] by (auto simp: alert_defs wgate_bells_def)
  moreover have "wgate s = [t]" using wgate_single [OF ex al] t by auto
  ultimately show ?thesis using pc r
    by (intro exI [of _ u]) (auto simp: stm_notify_def notify_one_def stm_retest_def stm_wgate_def)
qed

lemma rgate_woken:
  assumes ex: "stm_exact s" and al: "stm_alert s" and b: "below (mpcs s)"
    and t: "t \<in> set (rgate s)" and w: "m_state s AND WRITER_MASK = 0"
  shows "\<exists>u s1 s2. stm_step (M_notify u 0) s = Some s1 \<and> stm_step (M_retest t) s1 = Some s2 \<and>
    (mpcs s2 t = M_reader \<or> t \<in> entered (mpcs s2))"
proof -
  obtain d timed where pc: "mpcs s t = M_at_rgate d timed"
    using al t by (auto simp: alert_defs rgate_side_def)
  have e: "entered (mpcs s) = {}" using w exact_tests(1) [OF ex] by auto
  obtain u where u: "mpcs s u = M_notify_rgate_all"
    using al t e by (auto simp: alert_defs rgate_bells_def)
  let ?s1 = "to_pc u M_out (s\<lparr>rgate := []\<rparr>)"
  have "t < max_readers" using b pc by (auto simp: below_def not_le [symmetric])
  moreover have "t \<notin> readers (mpcs s)" using pc by (simp add: readers_def)
  ultimately have "card (readers (mpcs s)) < max_readers" by (rule below_not_full [OF ex b])
  then have "\<not> reader_blocked s" using e exact_tests(4) [OF ex] by simp
  then have nb: "\<not> reader_blocked ?s1" by (simp add: reader_blocked_def)
  have ut: "u \<noteq> t" "t \<notin> set (wgate s)" using u pc al by (auto simp: alert_defs wgate_side_def)
  then have "stm_step (M_retest t) ?s1 = Some (case d of
      Writer \<Rightarrow> stm_lock timed t ?s1 | Reader \<Rightarrow> stm_lock_shared timed t ?s1)"
    using pc by (cases d) (simp_all add: stm_retest_def)
  moreover have "stm_step (M_notify u 0) s = Some ?s1" using u by (simp add: stm_notify_def)
  moreover have "mpcs (stm_lock_shared timed t ?s1) t = M_reader"
    using nb by (simp add: stm_lock_shared_def)
  moreover have "t \<in> entered (mpcs (stm_lock timed t ?s1))"
    using w by (simp add: stm_lock_def stm_wgate_def)
  ultimately show ?thesis by (cases d; simp only: side.case) blast+
qed

text \<open>
  C9: no wake-up is lost (with fewer than \<open>2 ^ 31 - 1\<close> threads).  A thread blocked at the first
  gate while no writer is inside, and a writer blocked at the second gate while no reader is left, each
  have a notification on its way, after which their next test of the predicate lets them in.
\<close>

theorem stm_no_lost_wakeup:
  assumes "runs stm_step es SharedTimedMutex = Some s" "list_all few es"
  shows "(t \<in> set (rgate s) \<and> m_state s AND WRITER_MASK = 0 \<longrightarrow>
      (\<exists>u s1 s2. stm_step (M_notify u 0) s = Some s1 \<and> stm_step (M_retest t) s1 = Some s2 \<and>
        (mpcs s2 t = M_reader \<or> t \<in> entered (mpcs s2)))) \<and>
    (t \<in> set (wgate s) \<and> m_state s AND NUM_READER_MASK = 0 \<longrightarrow>
      (\<exists>u s1 s2. stm_step (M_notify u 0) s = Some s1 \<and> stm_step (M_retest t) s1 = Some s2 \<and>
        mpcs s2 t = M_writer))"
proof -
  have "stm_inv s" using reachable_inv [OF assms] .
  then have inv: "stm_exact s" "stm_alert s" "below (mpcs s)" by (simp_all add: stm_inv_def)
  from rgate_woken [OF inv] wgate_woken [OF inv(1,2)] show ?thesis by blast
qed

theorem stm_no_lost_wakeup_witness:
  "\<exists>s u s1 s2. runs stm_step [M_lock 0 False, M_lock 1 False, M_lock_shared 2 True, M_unlock 0]
       SharedTimedMutex = Some s \<and>
     stm_step (M_notify u 0) s = Some s1 \<and> stm_step (M_retest 2) s1 = Some s2 \<and>
     (mpcs s2 2 = M_reader \<or> 2 \<in> entered (mpcs s2))"
proof -
  let ?es = "[M_lock 0 False, M_lock 1 False, M_lock_shared 2 True, M_unlock 0]"
  have "map_option (\<lambda>s. (m_state s AND WRITER_MASK, rgate s)) (runs stm_step ?es SharedTimedMutex)
      = Some (0, [2, 1])" by code_simp
  then obtain s where s: "runs stm_step ?es SharedTimedMutex = Some s"
    "m_state s AND WRITER_MASK = 0" "rgate s = [2, 1]" by (elim map_option_SomeE) blast
  have "list_all few ?es" "2 \<in> set (rgate s)" using s(3) by (simp_all add: few_def max_readers_def)
  with stm_no_lost_wakeup [OF s(1), of 2] s(1,2) show ?thesis by blast
qed

lemma stm_someone_awake:
  assumes al: "stm_alert s" and t: "mpcs s t \<noteq> M_out"
  shows "\<exists>u. mpcs s u \<noteq> M_out \<and> u \<notin> set (rgate s) \<union> set (wgate s)"
proof (rule ccontr)
  assume no: "\<not> ?thesis"
  then have gates: "mpcs s u = M_out \<or> u \<in> rgate_side (mpcs s) \<or> u \<in> wgate_side (mpcs s)" for u
    using al by (auto simp: alert_defs)
  have "u \<notin> readers (mpcs s) \<and> u \<notin> rgate_bells (mpcs s) \<and> u \<notin> wgate_bells (mpcs s)" for u
    using gates [of u]
    by (auto simp: readers_def rgate_bells_def wgate_bells_def rgate_side_def wgate_side_def)
  then have "readers (mpcs s) = {}" "rgate_bells (mpcs s) = {}" "wgate_bells (mpcs s) = {}" by auto
  with al have w: "wgate s = []" and r: "rgate s = [] \<or> entered (mpcs s) \<noteq> {}"
    by (auto simp: alert_defs)
  have "entered (mpcs s) = {}"
  proof (rule ccontr)
    assume "entered (mpcs s) \<noteq> {}"
    then obtain u where u: "u \<in> entered (mpcs s)" by blast
    then have "mpcs s u \<noteq> M_out" "u \<notin> rgate_side (mpcs s)" by (auto simp: entered_def rgate_side_def)
    then have "u \<in> set (rgate s)" using no w by auto
    with al \<open>u \<notin> rgate_side (mpcs s)\<close> show False by (auto simp: alert_defs)
  qed
  with r w no t show False by simp
qed

lemma stm_awake_steps:
  assumes "mpcs s u \<noteq> M_out" "u \<notin> set (rgate s)" "u \<notin> set (wgate s)"
  shows "\<exists>e s'. m_tid e = u \<and> stm_step e s = Some s'"
proof (cases "mpcs s u")
  case M_writer
  then show ?thesis by (intro exI [of _ "M_unlock u"]) simp
next
  case M_reader
  then show ?thesis by (intro exI [of _ "M_unlock_shared u"]) simp
next
  case (M_at_rgate d b)
  with assms show ?thesis
    by (intro exI [of _ "M_retest u"]) (auto simp: stm_retest_def split: side.split)
next
  case (M_at_wgate b)
  with assms show ?thesis by (intro exI [of _ "M_retest u"]) (auto simp: stm_retest_def)
qed (use assms in \<open>auto intro!: exI [of _ "M_notify u 0"] simp: stm_notify_def notify_one_def\<close>)

text \<open>
  C23: \<open>SharedTimedMutex\<close> does not deadlock: as long as some thread is inside a member function or
  holds the lock, some such thread is not blocked on a condition variable and can go on by itself
  (unlock, deliver its notification, or test its predicate).
\<close>

theorem stm_deadlock_free:
  assumes "runs stm_step es SharedTimedMutex = Some s" "list_all few es" "mpcs s t \<noteq> M_out"
  shows "\<exists>u e s'. mpcs s u \<noteq> M_out \<and> u \<notin> set (rgate s) \<union> set (wgate s) \<and> m_tid e = u \<and>
    stm_step e s = Some s'"
proof -
  have "stm_alert s" using reachable_inv [OF assms(1,2)] by (simp add: stm_inv_def)
  then obtain u where u: "mpcs s u \<noteq> M_out" "u \<notin> set (rgate s)" "u \<notin> set (wgate s)"
    using stm_someone_awake [OF _ assms(3)] by auto
  with stm_awake_steps [OF u] show ?thesis by blast
qed

theorem stm_deadlock_free_witness:
  "\<exists>s u e s'. runs stm_step [M_lock 0 False, M_lock 1 False] SharedTimedMutex = Some s \<and>
     mpcs s u \<noteq> M_out \<and> m_tid e = u \<and> stm_step e s = Some s'"
proof -
  let ?es = "[M_lock 0 False, M_lock 1 False]"
  have "map_option (\<lambda>s. mpcs s 0) (runs stm_step ?es SharedTimedMutex) = Some M_writer" by code_simp
  then obtain s where s: "runs stm_step ?es SharedTimedMutex = Some s" "mpcs s 0 = M_writer"
    by (rule map_option_SomeE)
  have "list_all few ?es" "mpcs s 0 \<noteq> M_out" using s(2) by (simp_all add: few_def max_readers_def)
  from stm_deadlock_free [OF s(1) this] s(1) show ?thesis by blast
qed

end
