(* ===== verification/Reader_Preferring.thy ===== *)
theory Reader_Preferring
  imports Reader_Writer
begin

text \<open>
  \<open>ReaderPreferringSharedTimedMutex\<close> of \<^verbatim>\<open>concurrency/shared_mutex.h\<close>, modelled like
  \<open>SharedTimedMutex\<close>: one event per section under \<open>mtx\<close>, one for a notification after it,
  and \<open>cvq\<close> for the threads blocked on the only condition variable.
\<close>

section \<open>State and sections\<close>

datatype ppc = P_out | P_at_cv side bool | P_writer | P_reader | P_notify_all

record rpm =
  p_state :: u64
  cvq :: "tid list"
  ppcs :: "tid \<Rightarrow> ppc"

definition ReaderPreferringSharedTimedMutex :: rpm where
  "ReaderPreferringSharedTimedMutex = \<lparr>p_state = 0, cvq = [], ppcs = (\<lambda>_. P_out)\<rparr>"

definition go :: "tid \<Rightarrow> ppc \<Rightarrow> rpm \<Rightarrow> rpm" where
  "go t c s = s\<lparr>ppcs := (ppcs s)(t := c)\<rparr>"

definition rp_lock :: "bool \<Rightarrow> tid \<Rightarrow> rpm \<Rightarrow> rpm" where
  "rp_lock timed t s =
     (if p_state s \<noteq> 0 then go t (P_at_cv Writer timed) (s\<lparr>cvq := t # cvq s\<rparr>)
      else go t P_writer (s\<lparr>p_state := WRITER_MASK\<rparr>))"

definition rp_unlock :: "tid \<Rightarrow> rpm \<Rightarrow> rpm" where
  "rp_unlock t s = go t P_notify_all (s\<lparr>p_state := 0\<rparr>)"

definition rp_try_lock :: "bool \<Rightarrow> tid \<Rightarrow> rpm \<Rightarrow> rpm" where
  "rp_try_lock got t s =
     (if got \<and> p_state s = 0 then go t P_writer (s\<lparr>p_state := WRITER_MASK\<rparr>) else s)"

definition rp_blocked :: "rpm \<Rightarrow> bool" where
  "rp_blocked s \<longleftrightarrow> p_state s AND WRITER_MASK \<noteq> 0 \<or>
     p_state s AND NUM_READER_MASK = NUM_READER_MASK"

definition rp_lock_shared :: "bool \<Rightarrow> tid \<Rightarrow> rpm \<Rightarrow> rpm" where
  "rp_lock_shared timed t s =
     (if rp_blocked s then go t (P_at_cv Reader timed) (s\<lparr>cvq := t # cvq s\<rparr>)
      else go t P_reader (s\<lparr>p_state := p_state s + 1\<rparr>))"

definition rp_unlock_shared :: "tid \<Rightarrow> rpm \<Rightarrow> rpm" where
  "rp_unlock_shared t s =
     (let s = s\<lparr>p_state := p_state s - 1\<rparr>
      in go t (if p_state s = 0 then P_notify_all else P_out) s)"

definition rp_try_lock_shared :: "bool \<Rightarrow> tid \<Rightarrow> rpm \<Rightarrow> rpm" where
  "rp_try_lock_shared got t s =
     (if got \<and> \<not> rp_blocked s then go t P_reader (s\<lparr>p_state := p_state s + 1\<rparr>) else s)"

definition rp_timeout :: "tid \<Rightarrow> rpm \<Rightarrow> rpm option" where
  "rp_timeout t s =
     (case ppcs s t of
        P_at_cv Writer True \<Rightarrow> if p_state s \<noteq> 0 then Some (go t P_out s) else None
      | P_at_cv Reader True \<Rightarrow> if rp_blocked s then Some (go t P_out s) else None
      | _ \<Rightarrow> None)"

definition rp_retest :: "tid \<Rightarrow> rpm \<Rightarrow> rpm option" where
  "rp_retest t s =
     (case ppcs s t of
        P_at_cv Writer timed \<Rightarrow> Some (rp_lock timed t s)
      | P_at_cv Reader timed \<Rightarrow> Some (rp_lock_shared timed t s)
      | _ \<Rightarrow> None)"

datatype pevent =
    P_lock tid bool
  | P_unlock tid
  | P_try_lock tid bool
  | P_lock_shared tid bool
  | P_unlock_shared tid
  | P_try_lock_shared tid bool
  | P_wake tid
  | P_retest tid
  | P_timeout tid
  | P_notify tid

fun rpm_step :: "pevent \<Rightarrow> rpm \<Rightarrow> rpm option" where
  "rpm_step (P_lock t timed) s = (if ppcs s t = P_out then Some (rp_lock timed t s) else None)"
| "rpm_step (P_unlock t) s = (if ppcs s t = P_writer then Some (rp_unlock t s) else None)"
| "rpm_step (P_try_lock t got) s = (if ppcs s t = P_out then Some (rp_try_lock got t s) else None)"
| "rpm_step (P_lock_shared t timed) s =
     (if ppcs s t = P_out then Some (rp_lock_shared timed t s) else None)"
| "rpm_step (P_unlock_shared t) s =
     (if ppcs s t = P_reader then Some (rp_unlock_shared t s) else None)"
| "rpm_step (P_try_lock_shared t got) s =
     (if ppcs s t = P_out then Some (rp_try_lock_shared got t s) else None)"
| "rpm_step (P_wake t) s =
     (if t \<in> set (cvq s) then Some (s\<lparr>cvq := removeAll t (cvq s)\<rparr>) else None)"
| "rpm_step (P_retest t) s = (if t \<in> set (cvq s) then None else rp_retest t s)"
| "rpm_step (P_timeout t) s = (if t \<in> set (cvq s) then None else rp_timeout t s)"
| "rpm_step (P_notify t) s =
     (if ppcs s t = P_notify_all then Some (go t P_out (s\<lparr>cvq := []\<rparr>)) else None)"

section \<open>Who holds the lock\<close>

definition holding :: "ppc \<Rightarrow> (tid \<Rightarrow> ppc) \<Rightarrow> tid set" where
  "holding c p = {t. p t = c}"

lemma holding_upd [simp]:
  "holding d (p(t := c)) = (if c = d then insert t (holding d p) else holding d p - {t})"
  by (auto simp: holding_def)

lemma holding_at: "ppcs s t = c \<Longrightarrow> t \<in> holding d (ppcs s) \<longleftrightarrow> c = d"
  by (simp add: holding_def)

lemma go_sel [simp]:
  "p_state (go t c s) = p_state s" "cvq (go t c s) = cvq s" "ppcs (go t c s) = (ppcs s)(t := c)"
  by (simp_all add: go_def)

definition rpm_exact :: "rpm \<Rightarrow> bool" where
  "rpm_exact s \<longleftrightarrow> finite (holding P_reader (ppcs s)) \<and>
     card (holding P_reader (ppcs s)) \<le> max_readers \<and>
     p_state s = enc (holding P_writer (ppcs s) \<noteq> {}) (card (holding P_reader (ppcs s))) \<and>
     (holding P_writer (ppcs s) = {} \<or>
       (\<exists>t. holding P_writer (ppcs s) = {t}) \<and> holding P_reader (ppcs s) = {})"

lemma rp_tests:
  assumes "rpm_exact s"
  shows "p_state s = 0 \<longleftrightarrow> holding P_writer (ppcs s) = {} \<and> holding P_reader (ppcs s) = {}"
    "rp_blocked s \<longleftrightarrow>
       holding P_writer (ppcs s) \<noteq> {} \<or> card (holding P_reader (ppcs s)) = max_readers"
  using assms by (auto simp: rpm_exact_def enc_simps rp_blocked_def)

lemma rp_exact_cvq [simp]: "rpm_exact (s\<lparr>cvq := q\<rparr>) = rpm_exact s"
  by (simp add: rpm_exact_def)

definition bystander :: "ppc \<Rightarrow> bool" where
  "bystander c \<longleftrightarrow> c \<noteq> P_reader \<and> c \<noteq> P_writer"

lemma exact_bystander:
  "\<lbrakk> rpm_exact s; bystander (ppcs s t); bystander c \<rbrakk> \<Longrightarrow> rpm_exact (go t c s)"
  using holding_at [of s t, OF refl] by (auto simp: rpm_exact_def bystander_def)

lemma exact_writes:
  "\<lbrakk> rpm_exact s; bystander (ppcs s t); p_state s = 0 \<rbrakk> \<Longrightarrow>
     rpm_exact (go t P_writer (s\<lparr>p_state := WRITER_MASK\<rparr>))"
  using rp_tests(1) [of s] by (auto simp: rpm_exact_def enc_init)

lemma exact_reads:
  assumes ex: "rpm_exact s" and t: "bystander (ppcs s t)" and nb: "\<not> rp_blocked s"
  shows "rpm_exact (go t P_reader (s\<lparr>p_state := p_state s + 1\<rparr>))"
proof -
  have "holding P_writer (ppcs s) = {}" "card (holding P_reader (ppcs s)) < max_readers"
    using ex nb rp_tests(2) [OF ex] by (auto simp: rpm_exact_def)
  moreover have "t \<notin> holding P_reader (ppcs s)" using t by (auto simp: holding_def bystander_def)
  ultimately show ?thesis using ex by (auto simp: rpm_exact_def enc_step)
qed

lemma rp_exact_unlock:
  assumes "rpm_exact s" "ppcs s t = P_writer" shows "rpm_exact (rp_unlock t s)"
proof -
  have "t \<in> holding P_writer (ppcs s)" using assms(2) by (simp add: holding_def)
  with assms(1) show ?thesis by (auto simp: rp_unlock_def rpm_exact_def enc_init)
qed

lemma rp_exact_unlock_shared:
  assumes ex: "rpm_exact s" and t: "ppcs s t = P_reader" shows "rpm_exact (rp_unlock_shared t s)"
proof -
  let ?R = "holding P_reader (ppcs s)"
  have r: "t \<in> ?R" "finite ?R" using ex holding_at [OF t] by (simp_all add: rpm_exact_def)
  have w: "holding P_writer (ppcs s) = {}" using ex r(1) by (auto simp: rpm_exact_def)
  have "card ?R = Suc (card (?R - {t}))" using card_Suc_Diff1 [OF r(2,1)] by (rule sym)
  then have "p_state s = enc False (Suc (card (?R - {t})))" using ex w by (simp add: rpm_exact_def)
  then have "p_state s - 1 = enc False (card (?R - {t}))" by (simp only: enc_step)
  moreover have "card (?R - {t}) \<le> max_readers"
    using ex card_Diff1_le [of ?R t] by (auto simp: rpm_exact_def intro: order_trans)
  ultimately show ?thesis using w r
    by (simp add: rp_unlock_shared_def Let_def rpm_exact_def del: card_Diff_insert)
qed

lemma rpm_exact_step: "\<lbrakk> rpm_exact s; rpm_step e s = Some s' \<rbrakk> \<Longrightarrow> rpm_exact s'"
  by (cases e)
    (auto simp: rp_lock_def rp_try_lock_def rp_lock_shared_def rp_try_lock_shared_def rp_timeout_def
      rp_retest_def bystander_def exact_bystander exact_writes exact_reads rp_exact_unlock rp_exact_unlock_shared
      split: if_splits ppc.splits side.splits bool.splits)

interpretation rpe: inv_system rpm_step rpm_exact
  by unfold_locales (rule rpm_exact_step)

lemma rpm_exact_init: "rpm_exact ReaderPreferringSharedTimedMutex"
  by (simp add: rpm_exact_def ReaderPreferringSharedTimedMutex_def holding_def enc_def)

section \<open>Wake-ups\<close>

definition rp_below :: "rpm \<Rightarrow> bool" where
  "rp_below s \<longleftrightarrow> (\<forall>t. max_readers \<le> t \<longrightarrow> ppcs s t = P_out)"

definition waiting_side :: "side \<Rightarrow> (tid \<Rightarrow> ppc) \<Rightarrow> tid set" where
  "waiting_side d p = {t. \<exists>b. p t = P_at_cv d b}"

lemma waiting_upd [simp]:
  "waiting_side d (p(t := c)) =
     (if \<exists>b. c = P_at_cv d b then insert t (waiting_side d p) else waiting_side d p - {t})"
  by (auto simp: waiting_side_def)

text \<open>
  Blocked threads are at the condition variable; a blocked thread whose predicate holds has a
  notification on its way.
\<close>

definition rp_alert :: "rpm \<Rightarrow> bool" where
  "rp_alert s \<longleftrightarrow> set (cvq s) \<subseteq> waiting_side Reader (ppcs s) \<union> waiting_side Writer (ppcs s) \<and>
     (holding P_notify_all (ppcs s) = {} \<longrightarrow>
       (cvq s \<noteq> [] \<longrightarrow> holding P_writer (ppcs s) \<union> holding P_reader (ppcs s) \<noteq> {}) \<and>
       (set (cvq s) \<inter> waiting_side Reader (ppcs s) \<noteq> {} \<longrightarrow> holding P_writer (ppcs s) \<noteq> {}))"

definition rpm_inv :: "rpm \<Rightarrow> bool" where
  "rpm_inv s \<longleftrightarrow> rpm_exact s \<and> rp_below s \<and> rp_alert s"

fun p_tid :: "pevent \<Rightarrow> tid" where
  "p_tid (P_lock t b) = t"
| "p_tid (P_unlock t) = t"
| "p_tid (P_try_lock t b) = t"
| "p_tid (P_lock_shared t b) = t"
| "p_tid (P_unlock_shared t) = t"
| "p_tid (P_try_lock_shared t b) = t"
| "p_tid (P_wake t) = t"
| "p_tid (P_retest t) = t"
| "p_tid (P_timeout t) = t"
| "p_tid (P_notify t) = t"

definition p_few :: "pevent \<Rightarrow> bool" where
  "p_few e \<longleftrightarrow> p_tid e < max_readers"

lemma rp_not_full:
  assumes ex: "rpm_exact s" and b: "rp_below s" and t: "t < max_readers" "ppcs s t \<noteq> P_reader"
  shows "card (holding P_reader (ppcs s)) < max_readers"
proof -
  have "holding P_reader (ppcs s) \<subseteq> {..<max_readers} - {t}"
  proof
    fix u assume u: "u \<in> holding P_reader (ppcs s)"
    then have "ppcs s u = P_reader" by (simp add: holding_def)
    then have "\<not> max_readers \<le> u" using b by (auto simp: rp_below_def)
    then show "u \<in> {..<max_readers} - {t}" using t(2) \<open>ppcs s u = P_reader\<close> by auto
  qed
  then have "card (holding P_reader (ppcs s)) \<le> card ({..<max_readers} - {t})"
    by (intro card_mono) auto
  also have "\<dots> < max_readers" using t(1) by simp
  finally show ?thesis .
qed

text \<open>A thread that may try: outside, or at the condition variable and no longer blocked.\<close>

definition may_try :: "tid \<Rightarrow> rpm \<Rightarrow> bool" where
  "may_try t s \<longleftrightarrow> (ppcs s t = P_out \<or> (\<exists>d b. ppcs s t = P_at_cv d b)) \<and> t \<notin> set (cvq s)"

lemma may_try_sites:
  assumes "may_try t s"
  shows "t \<notin> holding P_reader (ppcs s)" "t \<notin> holding P_writer (ppcs s)"
    "t \<notin> holding P_notify_all (ppcs s)" "t \<notin> set (cvq s)" "ppcs s t \<noteq> P_reader"
  using assms by (auto simp: may_try_def holding_def)

lemma rp_alert_lock:
  assumes "rpm_exact s" "rp_alert s" "may_try t s" shows "rp_alert (rp_lock timed t s)"
  using assms(2) may_try_sites [OF assms(3)] rp_tests(1) [OF assms(1)]
  by (auto simp: rp_lock_def rp_alert_def)

lemma rp_alert_lock_shared:
  assumes ex: "rpm_exact s" and "rp_alert s" and t: "may_try t s" and "rp_below s" "t < max_readers"
  shows "rp_alert (rp_lock_shared timed t s)"
proof -
  have "rp_blocked s \<longleftrightarrow> holding P_writer (ppcs s) \<noteq> {}"
    using rp_not_full [OF ex assms(4,5) may_try_sites(5) [OF t]] rp_tests(2) [OF ex] by auto
  then show ?thesis using assms(2) may_try_sites [OF t]
    by (auto simp: rp_lock_shared_def rp_alert_def)
qed

lemma rp_alert_try:
  assumes ex: "rpm_exact s" and "rp_alert s" and t: "may_try t s"
  shows "rp_alert (rp_try_lock got t s)" "rp_alert (rp_try_lock_shared got t s)"
    "rp_alert (go t P_out s)"
  using assms(2) may_try_sites [OF t] rp_tests [OF ex]
  by (auto simp: rp_try_lock_def rp_try_lock_shared_def rp_alert_def)

lemma rp_alert_unlock:
  assumes "rp_alert s" "ppcs s t = P_writer" shows "rp_alert (rp_unlock t s)"
  using assms by (auto simp: rp_unlock_def rp_alert_def waiting_side_def)

lemma unlock_shared_state:
  assumes ex: "rpm_exact s" and t: "ppcs s t = P_reader"
  shows "holding P_writer (ppcs s) = {}"
    "p_state s - 1 = 0 \<longleftrightarrow> holding P_reader (ppcs s) - {t} = {}"
proof -
  let ?R = "holding P_reader (ppcs s)"
  have r: "t \<in> ?R" "finite ?R" using ex holding_at [OF t] by (simp_all add: rpm_exact_def)
  show w: "holding P_writer (ppcs s) = {}" using ex r(1) by (auto simp: rpm_exact_def)
  have "card ?R = Suc (card (?R - {t}))" using card_Suc_Diff1 [OF r(2,1)] by (rule sym)
  then have "p_state s = enc False (Suc (card (?R - {t})))" using ex w by (simp add: rpm_exact_def)
  then have "p_state s - 1 = enc False (card (?R - {t}))" by (simp only: enc_step)
  moreover have "card (?R - {t}) \<le> max_readers"
    using ex card_Diff1_le [of ?R t] by (auto simp: rpm_exact_def intro: order_trans)
  ultimately have "p_state s - 1 = 0 \<longleftrightarrow> card (?R - {t}) = 0" by (simp only: enc_zero) simp
  then show "p_state s - 1 = 0 \<longleftrightarrow> ?R - {t} = {}" using r(2) by (simp only: card_0_eq finite_Diff)
qed

lemma rp_alert_unlock_shared:
  assumes ex: "rpm_exact s" and al: "rp_alert s" and t: "ppcs s t = P_reader"
  shows "rp_alert (rp_unlock_shared t s)"
proof -
  have "t \<notin> waiting_side d (ppcs s)" "t \<notin> holding P_notify_all (ppcs s)" for d
    using t by (auto simp: waiting_side_def holding_def)
  with al unlock_shared_state [OF ex t] show ?thesis
    by (auto simp: rp_unlock_shared_def Let_def rp_alert_def)
qed

lemma rp_may_try:
  assumes "rp_alert s"
  shows "ppcs s t = P_out \<Longrightarrow> may_try t s"
    "\<lbrakk> ppcs s t = P_at_cv d b; t \<notin> set (cvq s) \<rbrakk> \<Longrightarrow> may_try t s"
  using assms by (auto simp: may_try_def rp_alert_def waiting_side_def)

lemma rp_alert_step:
  assumes ex: "rpm_exact s" and al: "rp_alert s" and b: "rp_below s" and e: "p_few e"
    and step: "rpm_step e s = Some s'"
  shows "rp_alert s'"
proof (cases e)
  case (P_retest t)
  then show ?thesis using step ex al b e rp_may_try(2) [OF al, of t]
    by (auto simp: rp_retest_def p_few_def split: if_splits ppc.splits side.splits
        intro: rp_alert_lock rp_alert_lock_shared)
next
  case (P_timeout t)
  then show ?thesis using step ex al rp_may_try(2) [OF al, of t]
    by (auto simp: rp_timeout_def split: if_splits ppc.splits side.splits bool.splits
        intro: rp_alert_try)
next
  case (P_wake t)
  then show ?thesis using step al by (auto simp: rp_alert_def split: if_splits)
next
  case (P_notify t)
  then show ?thesis using step al by (auto simp: rp_alert_def split: if_splits)
qed (use step ex al b e rp_may_try(1) [OF al] in
    \<open>auto simp: p_few_def split: if_splits
      intro: rp_alert_lock rp_alert_lock_shared rp_alert_try rp_alert_unlock rp_alert_unlock_shared\<close>)

lemma rp_below_step:
  assumes "rp_below s" "p_few e" "rpm_step e s = Some s'"
  shows "rp_below s'"
proof -
  have "ppcs s' u = ppcs s u" if "u \<noteq> p_tid e" for u
    using assms(3) that
    by (cases e) (auto simp: rp_lock_def rp_unlock_def rp_try_lock_def rp_lock_shared_def
        rp_unlock_shared_def rp_try_lock_shared_def rp_timeout_def rp_retest_def Let_def
        split: if_splits ppc.splits side.splits bool.splits)
  with assms(1,2) show ?thesis by (auto simp: rp_below_def p_few_def)
qed

lemma rpm_inv_step: "\<lbrakk> rpm_inv s; p_few e; rpm_step e s = Some s' \<rbrakk> \<Longrightarrow> rpm_inv s'"
  unfolding rpm_inv_def by (blast intro: rpm_exact_step rp_alert_step rp_below_step)

interpretation rpi: guarded_system rpm_step p_few rpm_inv
  by unfold_locales (rule rpm_inv_step)

lemma rpm_inv_init: "rpm_inv ReaderPreferringSharedTimedMutex"
  unfolding rpm_inv_def using rpm_exact_init
  by (simp add: rp_below_def rp_alert_def ReaderPreferringSharedTimedMutex_def)

section \<open>Filling the reader count\<close>

lemma fill_readers:
  "k \<le> max_readers \<Longrightarrow>
   runs rpm_step (map (\<lambda>t. P_lock_shared t False) [0..<k]) ReaderPreferringSharedTimedMutex =
     Some \<lparr>p_state = enc False k, cvq = [], ppcs = (\<lambda>t. if t < k then P_reader else P_out)\<rparr>"
proof (induction k)
  case 0
  then show ?case by (simp add: ReaderPreferringSharedTimedMutex_def enc_def)
next
  case (Suc k)
  let ?s = "\<lparr>p_state = enc False k, cvq = [], ppcs = (\<lambda>t. if t < k then P_reader else P_out)\<rparr>"
  have "\<not> rp_blocked ?s" using Suc.prems by (simp add: rp_blocked_def enc_simps)
  then have "rpm_step (P_lock_shared k False) ?s =
      Some \<lparr>p_state = enc False (Suc k), cvq = [], ppcs = (\<lambda>t. if t < Suc k then P_reader else P_out)\<rparr>"
    by (auto simp: rp_lock_shared_def go_def enc_step fun_eq_iff)
  with Suc show ?case by (simp add: runs_append)
qed

section \<open>Properties\<close>

text \<open>
  C25: \<open>ReaderPreferringSharedTimedMutex\<close> excludes: in every schedule there is at most one writer,
  no reader beside it, and the state word is the number of readers or the writer bit alone.
\<close>

theorem rpm_mutual_exclusion:
  assumes "runs rpm_step es ReaderPreferringSharedTimedMutex = Some s"
  shows "(\<forall>t u. ppcs s t = P_writer \<and> ppcs s u = P_writer \<longrightarrow> t = u) \<and>
    (\<forall>t u. ppcs s t = P_writer \<longrightarrow> ppcs s u \<noteq> P_reader) \<and>
    (if \<exists>t. ppcs s t = P_writer then p_state s = WRITER_MASK
     else unat (p_state s) = card {t. ppcs s t = P_reader})"
proof -
  have ex: "rpm_exact s" using rpe.runs_inv [OF rpm_exact_init assms] .
  show ?thesis
  proof (cases "holding P_writer (ppcs s) = {}")
    case True
    then have "\<forall>t. ppcs s t \<noteq> P_writer" by (simp add: holding_def)
    with True ex show ?thesis
      by (simp add: rpm_exact_def enc_def holding_def max_readers_def unat_of_nat take_bit_nat_eq_self)
  next
    case False
    then obtain t where t: "\<And>u. ppcs s u = P_writer \<longleftrightarrow> u = t" "\<And>u. ppcs s u \<noteq> P_reader"
      "p_state s = WRITER_MASK"
      using ex by (auto simp: rpm_exact_def holding_def enc_init(2) set_eq_iff)
    then show ?thesis by auto
  qed
qed

theorem rpm_mutual_exclusion_witness:
  "\<exists>s. runs rpm_step [P_lock_shared 0 False, P_lock 1 True, P_lock_shared 2 False]
       ReaderPreferringSharedTimedMutex = Some s \<and> (\<forall>t u. ppcs s t = P_writer \<longrightarrow> ppcs s u \<noteq> P_reader)"
proof -
  let ?es = "[P_lock_shared 0 False, P_lock 1 True, P_lock_shared 2 False]"
  have "runs rpm_step ?es ReaderPreferringSharedTimedMutex \<noteq> None" by code_simp
  then obtain s where s: "runs rpm_step ?es ReaderPreferringSharedTimedMutex = Some s" by blast
  with rpm_mutual_exclusion [OF s] show ?thesis by blast
qed

text \<open>
  C26: with fewer than \<open>2 ^ 31 - 1\<close> threads no wake-up is lost: a thread that is blocked although the
  mutex is free, or although it is a reader and no writer is inside, has a \<open>notify_all\<close> on its way.
\<close>

theorem rpm_no_lost_wakeup:
  assumes "runs rpm_step es ReaderPreferringSharedTimedMutex = Some s" "list_all p_few es"
    and "t \<in> set (cvq s)"
    and "p_state s = 0 \<or> (\<exists>timed. ppcs s t = P_at_cv Reader timed) \<and> p_state s AND WRITER_MASK = 0"
  shows "\<exists>u s'. rpm_step (P_notify u) s = Some s' \<and> t \<notin> set (cvq s')"
proof -
  have inv: "rpm_exact s" "rp_alert s"
    using rpi.runs_inv [OF rpm_inv_init assms(2,1)] by (simp_all add: rpm_inv_def)
  have "p_state s AND WRITER_MASK = 0 \<longleftrightarrow> holding P_writer (ppcs s) = {}"
    using inv(1) by (auto simp: rpm_exact_def enc_simps)
  with assms(3,4) inv(2) rp_tests(1) [OF inv(1)] have "holding P_notify_all (ppcs s) \<noteq> {}"
    by (auto simp: rp_alert_def waiting_side_def)
  then obtain u where "ppcs s u = P_notify_all" by (auto simp: holding_def)
  then show ?thesis by (intro exI [of _ u]) simp
qed

theorem rpm_no_lost_wakeup_witness:
  "\<exists>s u s'. runs rpm_step [P_lock 0 False, P_lock_shared 1 False, P_unlock 0]
       ReaderPreferringSharedTimedMutex = Some s \<and>
     rpm_step (P_notify u) s = Some s' \<and> 1 \<notin> set (cvq s')"
proof -
  let ?es = "[P_lock 0 False, P_lock_shared 1 False, P_unlock 0]"
  have "map_option (\<lambda>s. (p_state s, cvq s)) (runs rpm_step ?es ReaderPreferringSharedTimedMutex)
      = Some (0, [1])" by code_simp
  then obtain s where s: "runs rpm_step ?es ReaderPreferringSharedTimedMutex = Some s"
    "p_state s = 0" "cvq s = [1]" by (elim map_option_SomeE) blast
  have "list_all p_few ?es" "1 \<in> set (cvq s)" using s(3) by (simp_all add: p_few_def max_readers_def)
  from rpm_no_lost_wakeup [OF s(1) this] s(1,2) show ?thesis by blast
qed

text \<open>
  Once the reader count is saturated a wake-up is lost.  \<open>unlock_shared\<close> notifies only when the
  state becomes 0, so a reader that blocked because \<open>2 ^ 31 - 1\<close> readers were inside is not told when
  one of them leaves: it stays blocked although it could enter, and no notification is on its way.
\<close>

lemma rpm_saturated_reader_not_notified:
  "\<exists>es s t. runs rpm_step es ReaderPreferringSharedTimedMutex = Some s \<and> t \<in> set (cvq s) \<and>
     ppcs s t = P_at_cv Reader False \<and> \<not> rp_blocked s \<and> (\<forall>u. rpm_step (P_notify u) s = None)"
proof -
  let ?fill = "map (\<lambda>t. P_lock_shared t False) [0..<max_readers]"
  let ?p = "\<lambda>t. if t < max_readers then P_reader else P_out"
  let ?s = "\<lparr>p_state = enc False max_readers, cvq = [], ppcs = ?p\<rparr>"
  let ?p1 = "?p(max_readers := P_at_cv Reader False)"
  let ?s1 = "\<lparr>p_state = enc False max_readers, cvq = [max_readers], ppcs = ?p1\<rparr>"
  let ?s2 = "\<lparr>p_state = enc False (max_readers - 1), cvq = [max_readers], ppcs = ?p1(0 := P_out)\<rparr>"
  have pos: "Suc (max_readers - 1) = max_readers" "0 < max_readers" "max_readers - 1 \<noteq> 0"
    by (simp_all add: max_readers_def)
  have "rp_blocked ?s" by (simp add: rp_blocked_def enc_simps)
  then have 1: "rpm_step (P_lock_shared max_readers False) ?s = Some ?s1"
    by (simp add: rp_lock_shared_def go_def)
  have "enc False max_readers - 1 = enc False (max_readers - 1)"
    using enc_step(2) [of False "max_readers - 1"] pos(1) by simp
  then have 2: "rpm_step (P_unlock_shared 0) ?s1 = Some ?s2"
    using pos by (simp add: rp_unlock_shared_def go_def enc_zero Let_def)
  have "runs rpm_step (?fill @ [P_lock_shared max_readers False, P_unlock_shared 0])
      ReaderPreferringSharedTimedMutex = Some ?s2"
    using fill_readers [of max_readers] 1 2 by (simp add: runs_append del: rpm_step.simps)
  moreover have "\<not> rp_blocked ?s2"
    using pos(1,2) of_nat_readers(2) [of "max_readers - 1"]
    by (simp add: rp_blocked_def enc_readers enc_writer del: of_nat_diff)
  moreover have "max_readers \<in> set (cvq ?s2)" "ppcs ?s2 max_readers = P_at_cv Reader False"
    "\<forall>u. rpm_step (P_notify u) ?s2 = None"
    using pos by auto
  ultimately show ?thesis by blast
qed

end
