(* ===== verification/Shared_Lock.thy ===== *)
theory Shared_Lock
  imports Shared_Mutex Reader_Preferring
begin

text \<open>
  \<open>SharedLock\<close> of \<^verbatim>\<open>concurrency/shared_mutex.h\<close>: the RAII owner of a shared lock.  It is a
  template over \<open>Mutex\<close>; the type parameter is the record \<open>shared_ops\<close> of the operations it
  calls, run by one thread to their return (\<open>None\<close>: blocks now, or breaks the mutex's contract).
  The objects of the program live in a store; other threads use the mutexes in between.
  \<open>sl_loose\<close> is a history: the mutexes whose shared lock \<open>release\<close> has handed to the caller.
\<close>

section \<open>Objects and operations\<close>

type_synonym lid = nat
type_synonym mid = nat

record 'm shared_ops =
  so_lock_shared :: "'m \<Rightarrow> 'm option"
  so_unlock_shared :: "'m \<Rightarrow> 'm option"
  so_try_lock_shared :: "'m \<Rightarrow> (bool \<times> 'm) option"
  so_try_lock_shared_for :: "'m \<Rightarrow> (bool \<times> 'm) option"
  so_try_lock_shared_until :: "'m \<Rightarrow> (bool \<times> 'm) option"

record slock =
  sl_mtx :: "mid option"
  sl_owns :: bool

type_synonym 'm mutexes = "mid \<Rightarrow> 'm"

definition SharedLock :: slock where
  "SharedLock = \<lparr>sl_mtx = None, sl_owns = False\<rparr>"

text \<open>The two calls through the pointer \<open>mtx\<close>; a null pointer has no call.\<close>

definition call :: "('m \<Rightarrow> 'm option) \<Rightarrow> slock \<Rightarrow> 'm mutexes \<Rightarrow> 'm mutexes option" where
  "call f x ms = do { m \<leftarrow> sl_mtx x; mu \<leftarrow> f (ms m); Some (ms(m := mu)) }"

definition call_try ::
    "('m \<Rightarrow> (bool \<times> 'm) option) \<Rightarrow> slock \<Rightarrow> 'm mutexes \<Rightarrow> (bool \<times> 'm mutexes) option" where
  "call_try f x ms = do { m \<leftarrow> sl_mtx x; (b, mu) \<leftarrow> f (ms m); Some (b, ms(m := mu)) }"

definition SharedLock_lock ::
    "'m shared_ops \<Rightarrow> slock \<Rightarrow> 'm mutexes \<Rightarrow> (slock \<times> 'm mutexes) option" where
  "SharedLock_lock ops x ms = do { ms \<leftarrow> call (so_lock_shared ops) x ms; Some (x\<lparr>sl_owns := True\<rparr>, ms) }"

definition SharedLock_unlock ::
    "'m shared_ops \<Rightarrow> slock \<Rightarrow> 'm mutexes \<Rightarrow> (slock \<times> 'm mutexes) option" where
  "SharedLock_unlock ops x ms =
     do { ms \<leftarrow> call (so_unlock_shared ops) x ms; Some (x\<lparr>sl_owns := False\<rparr>, ms) }"

definition SharedLock_try_lock ::
    "'m shared_ops \<Rightarrow> slock \<Rightarrow> 'm mutexes \<Rightarrow> (slock \<times> 'm mutexes) option" where
  "SharedLock_try_lock ops x ms =
     do { (b, ms) \<leftarrow> call_try (so_try_lock_shared ops) x ms; Some (x\<lparr>sl_owns := b\<rparr>, ms) }"

definition SharedLock_try_lock_for ::
    "'m shared_ops \<Rightarrow> slock \<Rightarrow> 'm mutexes \<Rightarrow> (slock \<times> 'm mutexes) option" where
  "SharedLock_try_lock_for ops x ms =
     do { (b, ms) \<leftarrow> call_try (so_try_lock_shared_for ops) x ms; Some (x\<lparr>sl_owns := b\<rparr>, ms) }"

definition SharedLock_try_lock_until ::
    "'m shared_ops \<Rightarrow> slock \<Rightarrow> 'm mutexes \<Rightarrow> (slock \<times> 'm mutexes) option" where
  "SharedLock_try_lock_until ops x ms =
     do { (b, ms) \<leftarrow> call_try (so_try_lock_shared_until ops) x ms; Some (x\<lparr>sl_owns := b\<rparr>, ms) }"

definition SharedLock_mutex :: "'m shared_ops \<Rightarrow> mid \<Rightarrow> 'm mutexes \<Rightarrow> (slock \<times> 'm mutexes) option" where
  "SharedLock_mutex ops m ms =
     do { mu \<leftarrow> so_lock_shared ops (ms m); Some (\<lparr>sl_mtx = Some m, sl_owns = True\<rparr>, ms(m := mu)) }"

definition SharedLock_defer :: "mid \<Rightarrow> slock" where
  "SharedLock_defer m = \<lparr>sl_mtx = Some m, sl_owns = False\<rparr>"

definition SharedLock_adopt :: "mid \<Rightarrow> slock" where
  "SharedLock_adopt m = \<lparr>sl_mtx = Some m, sl_owns = True\<rparr>"

text \<open>The constructors that try: \<open>owns\<close> is what the attempt returned.\<close>

definition SharedLock_attempt ::
    "('m \<Rightarrow> (bool \<times> 'm) option) \<Rightarrow> mid \<Rightarrow> 'm mutexes \<Rightarrow> (slock \<times> 'm mutexes) option" where
  "SharedLock_attempt f m ms =
     do { (b, mu) \<leftarrow> f (ms m); Some (\<lparr>sl_mtx = Some m, sl_owns = b\<rparr>, ms(m := mu)) }"

definition SharedLock_destroy :: "'m shared_ops \<Rightarrow> slock \<Rightarrow> 'm mutexes \<Rightarrow> 'm mutexes option" where
  "SharedLock_destroy ops x ms = (if sl_owns x then call (so_unlock_shared ops) x ms else Some ms)"

definition slock_swap :: "slock \<Rightarrow> slock \<Rightarrow> slock \<times> slock" where
  "slock_swap x y =
     (x\<lparr>sl_mtx := sl_mtx y, sl_owns := sl_owns y\<rparr>, y\<lparr>sl_mtx := sl_mtx x, sl_owns := sl_owns x\<rparr>)"

definition slock_release :: "slock \<Rightarrow> mid option \<times> slock" where
  "slock_release x = (sl_mtx x, x\<lparr>sl_owns := False, sl_mtx := None\<rparr>)"

definition owns_lock :: "slock \<Rightarrow> bool" where
  "owns_lock x = sl_owns x"

section \<open>The store\<close>

record 'm slworld =
  sl_mutexes :: "'m mutexes"
  sl_objs :: "lid \<Rightarrow> slock option"
  sl_loose :: "mid set"

type_synonym 'm slops = "'m slworld \<Rightarrow> 'm slworld option"

text \<open>A constructor runs where there is no object, a member function where there is one.\<close>

definition construct :: "lid \<Rightarrow> ('m mutexes \<Rightarrow> (slock \<times> 'm mutexes) option) \<Rightarrow> 'm slops" where
  "construct l f w = (if sl_objs w l = None
     then do { (x, ms) \<leftarrow> f (sl_mutexes w);
               Some (w\<lparr>sl_mutexes := ms, sl_objs := (sl_objs w)(l \<mapsto> x)\<rparr>) }
     else None)"

definition update :: "lid \<Rightarrow> (slock \<Rightarrow> 'm mutexes \<Rightarrow> (slock \<times> 'm mutexes) option) \<Rightarrow> 'm slops" where
  "update l f w = do {
     x \<leftarrow> sl_objs w l;
     (x, ms) \<leftarrow> f x (sl_mutexes w);
     Some (w\<lparr>sl_mutexes := ms, sl_objs := (sl_objs w)(l \<mapsto> x)\<rparr>) }"

definition swap_objs :: "lid \<Rightarrow> lid \<Rightarrow> 'm slops" where
  "swap_objs l r w = do {
     x \<leftarrow> sl_objs w l;
     y \<leftarrow> sl_objs w r;
     let (x, y) = slock_swap x y
     in Some (w\<lparr>sl_objs := (if l = r then sl_objs w else (sl_objs w)(l \<mapsto> x, r \<mapsto> y))\<rparr>) }"

text \<open>The move constructor delegates to the default constructor and swaps.\<close>

definition SharedLock_move :: "lid \<Rightarrow> lid \<Rightarrow> 'm slops" where
  "SharedLock_move l r w = do { w \<leftarrow> construct l (\<lambda>ms. Some (SharedLock, ms)) w; swap_objs l r w }"

definition SharedLock_delete :: "'m shared_ops \<Rightarrow> lid \<Rightarrow> 'm slops" where
  "SharedLock_delete ops l w = do {
     x \<leftarrow> sl_objs w l;
     ms \<leftarrow> SharedLock_destroy ops x (sl_mutexes w);
     Some (w\<lparr>sl_mutexes := ms, sl_objs := (sl_objs w)(l := None)\<rparr>) }"

text \<open>Move assignment: a temporary \<open>tmp\<close> at a fresh place, moved into, swapped and destroyed.\<close>

definition SharedLock_assign :: "'m shared_ops \<Rightarrow> lid \<Rightarrow> lid \<Rightarrow> lid \<Rightarrow> 'm slops" where
  "SharedLock_assign ops tmp l r w = do {
     w \<leftarrow> SharedLock_move tmp r w;
     w \<leftarrow> swap_objs tmp l w;
     SharedLock_delete ops tmp w }"

definition SharedLock_release :: "lid \<Rightarrow> 'm slops" where
  "SharedLock_release l w = do {
     x \<leftarrow> sl_objs w l;
     let (ret, y) = slock_release x
     in Some (w\<lparr>sl_objs := (sl_objs w)(l \<mapsto> y),
                 sl_loose := (if owns_lock x then sl_loose w \<union> set_option ret else sl_loose w)\<rparr>) }"

datatype 'e slop =
    SL_default lid
  | SL_mutex lid mid
  | SL_defer lid mid
  | SL_try lid mid
  | SL_adopt lid mid
  | SL_for lid mid
  | SL_until lid mid
  | SL_move lid lid
  | SL_assign lid lid lid
  | SL_swap lid lid
  | SL_lock lid
  | SL_unlock lid
  | SL_try_lock lid
  | SL_try_lock_for lid
  | SL_try_lock_until lid
  | SL_release lid
  | SL_destroy lid
  | SL_env mid 'e

text \<open>
  The client's side of the contract: a lock is adopted only when the caller has it, and unlocked only
  through an object that owns it.
\<close>

fun sl_step :: "'m shared_ops \<Rightarrow> ('e \<Rightarrow> 'm \<Rightarrow> 'm option) \<Rightarrow> 'e slop \<Rightarrow> 'm slops" where
  "sl_step ops env (SL_default l) w = construct l (\<lambda>ms. Some (SharedLock, ms)) w"
| "sl_step ops env (SL_mutex l m) w = construct l (SharedLock_mutex ops m) w"
| "sl_step ops env (SL_defer l m) w = construct l (\<lambda>ms. Some (SharedLock_defer m, ms)) w"
| "sl_step ops env (SL_try l m) w = construct l (SharedLock_attempt (so_try_lock_shared ops) m) w"
| "sl_step ops env (SL_adopt l m) w =
     (if m \<in> sl_loose w
      then construct l (\<lambda>ms. Some (SharedLock_adopt m, ms)) (w\<lparr>sl_loose := sl_loose w - {m}\<rparr>) else None)"
| "sl_step ops env (SL_for l m) w = construct l (SharedLock_attempt (so_try_lock_shared_for ops) m) w"
| "sl_step ops env (SL_until l m) w = construct l (SharedLock_attempt (so_try_lock_shared_until ops) m) w"
| "sl_step ops env (SL_move l r) w = SharedLock_move l r w"
| "sl_step ops env (SL_assign tmp l r) w = SharedLock_assign ops tmp l r w"
| "sl_step ops env (SL_swap l r) w = swap_objs l r w"
| "sl_step ops env (SL_lock l) w = update l (SharedLock_lock ops) w"
| "sl_step ops env (SL_unlock l) w =
     (case sl_objs w l of
        Some x \<Rightarrow> if owns_lock x then update l (SharedLock_unlock ops) w else None
      | None \<Rightarrow> None)"
| "sl_step ops env (SL_try_lock l) w = update l (SharedLock_try_lock ops) w"
| "sl_step ops env (SL_try_lock_for l) w = update l (SharedLock_try_lock_for ops) w"
| "sl_step ops env (SL_try_lock_until l) w = update l (SharedLock_try_lock_until ops) w"
| "sl_step ops env (SL_release l) w = SharedLock_release l w"
| "sl_step ops env (SL_destroy l) w = SharedLock_delete ops l w"
| "sl_step ops env (SL_env m e) w =
     map_option (\<lambda>mu. w\<lparr>sl_mutexes := (sl_mutexes w)(m := mu)\<rparr>) (env e (sl_mutexes w m))"

section \<open>Who holds which mutex\<close>

datatype owner = Lock lid | Caller

fun own :: "slock option \<Rightarrow> mid option" where
  "own None = None"
| "own (Some x) = (if sl_owns x then sl_mtx x else None)"

definition valid :: "slock \<Rightarrow> bool" where
  "valid x \<longleftrightarrow> (sl_owns x \<longrightarrow> sl_mtx x \<noteq> None)"

text \<open>
  The invariant, with the owner of each mutex named by \<open>h\<close>: the thread holds a mutex exactly when it
  has an owner, which is one lock object or the caller of \<open>release\<close>.
\<close>

definition sl_inv ::
    "('m \<Rightarrow> bool) \<Rightarrow> ('m \<Rightarrow> bool) \<Rightarrow> (mid \<Rightarrow> owner option) \<Rightarrow> 'm slworld \<Rightarrow> bool" where
  "sl_inv ok held h w \<longleftrightarrow>
     (\<forall>m. ok (sl_mutexes w m) \<and> (held (sl_mutexes w m) \<longleftrightarrow> h m \<noteq> None) \<and>
        (m \<in> sl_loose w \<longleftrightarrow> h m = Some Caller)) \<and>
     (\<forall>l m. own (sl_objs w l) = Some m \<longleftrightarrow> h m = Some (Lock l)) \<and>
     (\<forall>l x. sl_objs w l = Some x \<longrightarrow> valid x)"

lemma sl_invD:
  assumes "sl_inv ok held h w"
  shows "ok (sl_mutexes w m)" "held (sl_mutexes w m) \<longleftrightarrow> h m \<noteq> None"
    "m \<in> sl_loose w \<longleftrightarrow> h m = Some Caller" "own (sl_objs w l) = Some m \<longleftrightarrow> h m = Some (Lock l)"
    "sl_objs w l = Some x \<Longrightarrow> valid x"
  using assms by (auto simp: sl_inv_def)

lemma inv_same:
  assumes "sl_inv ok held h w" "own y = own (sl_objs w l)" "\<And>x. y = Some x \<Longrightarrow> valid x"
  shows "sl_inv ok held h (w\<lparr>sl_objs := (sl_objs w)(l := y)\<rparr>)"
  using assms unfolding sl_inv_def by auto

lemma inv_take:
  assumes i: "sl_inv ok held h w" and o: "own (sl_objs w l) = None" and n: "\<not> held (sl_mutexes w m)"
    and mu: "ok mu" "held mu = b"
  shows "\<exists>h'. sl_inv ok held h' (w\<lparr>sl_mutexes := (sl_mutexes w)(m := mu),
      sl_objs := (sl_objs w)(l \<mapsto> \<lparr>sl_mtx = Some m, sl_owns = b\<rparr>)\<rparr>)"
proof (cases b)
  case True
  have "h m = None" using n by (simp add: sl_invD(2) [OF i])
  moreover have "h k \<noteq> Some (Lock l)" for k using o sl_invD(4) [OF i, of l k] by simp
  ultimately have "sl_inv ok held (h(m \<mapsto> Lock l)) (w\<lparr>sl_mutexes := (sl_mutexes w)(m := mu),
      sl_objs := (sl_objs w)(l \<mapsto> \<lparr>sl_mtx = Some m, sl_owns = b\<rparr>)\<rparr>)"
    using True mu unfolding sl_inv_def by (auto simp: valid_def [of "\<lparr>sl_mtx = Some m, sl_owns = True\<rparr>"] sl_invD [OF i])
  then show ?thesis by blast
next
  case False
  have "sl_inv ok held h (w\<lparr>sl_mutexes := (sl_mutexes w)(m := mu),
      sl_objs := (sl_objs w)(l \<mapsto> \<lparr>sl_mtx = Some m, sl_owns = b\<rparr>)\<rparr>)"
    using False mu n o sl_invD(4) [OF i, of l] unfolding sl_inv_def
    by (auto simp: valid_def [of "\<lparr>sl_mtx = Some m, sl_owns = False\<rparr>"] sl_invD [OF i])
  then show ?thesis by blast
qed

lemma inv_give:
  assumes i: "sl_inv ok held h w" and o: "own (sl_objs w l) = Some m" and y: "own y = None"
    "\<And>x. y = Some x \<Longrightarrow> valid x" and mu: "ok mu" "\<not> held mu"
  shows "sl_inv ok held (h(m := None))
    (w\<lparr>sl_mutexes := (sl_mutexes w)(m := mu), sl_objs := (sl_objs w)(l := y)\<rparr>)"
proof -
  have "h m = Some (Lock l)" using o sl_invD(4) [OF i, of l m] by simp
  moreover have "h k \<noteq> Some (Lock l)" if "k \<noteq> m" for k using o that sl_invD(4) [OF i, of l k] by simp
  ultimately show ?thesis
    using y mu unfolding sl_inv_def by (auto simp: sl_invD [OF i] simp del: own.simps)
qed

text \<open>Exchanging the contents of two objects exchanges their names as owners.\<close>

definition relabel :: "lid \<Rightarrow> lid \<Rightarrow> owner \<Rightarrow> owner" where
  "relabel l r u = (case u of Lock k \<Rightarrow> Lock (if k = l then r else if k = r then l else k) | Caller \<Rightarrow> Caller)"

lemma relabel_simps:
  "relabel l r u = Caller \<longleftrightarrow> u = Caller"
  "relabel l r u = Lock k \<longleftrightarrow> u = Lock (if k = l then r else if k = r then l else k)"
  by (auto simp: relabel_def split: owner.splits)

lemma slock_swap_fields: "slock_swap x y = (y, x)"
  by (simp add: slock_swap_def)

lemma inv_swap:
  assumes i: "sl_inv ok held h w" and s: "swap_objs l r w = Some w'"
  shows "sl_inv ok held (\<lambda>m. map_option (relabel l r) (h m)) w'"
proof (cases "l = r")
  case True
  then have "relabel l r u = u" for u by (auto simp: relabel_def split: owner.splits)
  moreover have "w' = w" using s True by (auto simp: swap_objs_def Let_def split: prod.splits)
  ultimately show ?thesis using i by (simp add: option.map_ident cong: option.map_cong)
next
  case False
  obtain x y where xy: "sl_objs w l = Some x" "sl_objs w r = Some y"
    "w' = w\<lparr>sl_objs := (sl_objs w)(l \<mapsto> y, r \<mapsto> x)\<rparr>"
    using s False by (auto simp: swap_objs_def slock_swap_fields)
  have o: "own (Some x) = Some m \<longleftrightarrow> h m = Some (Lock l)" "own (Some y) = Some m \<longleftrightarrow> h m = Some (Lock r)" for m
    using sl_invD(4) [OF i, of l m] sl_invD(4) [OF i, of r m] xy by simp_all
  have v: "valid x" "valid y" using sl_invD(5) [OF i] xy by simp_all
  show ?thesis
    using xy(3) v False unfolding sl_inv_def
    by (auto simp: relabel_simps o sl_invD [OF i] simp del: own.simps)
qed

section \<open>The contract of a shared mutex\<close>

text \<open>
  \<open>held\<close>: this thread holds the mutex in shared mode.  The environment, the other threads, does not
  change that.
\<close>

locale shared_mutex_type =
  fixes ops :: "'m shared_ops"
    and env :: "'e \<Rightarrow> 'm \<Rightarrow> 'm option"
    and ok :: "'m \<Rightarrow> bool"
    and held :: "'m \<Rightarrow> bool"
  assumes lock_law: "\<lbrakk> ok m; so_lock_shared ops m = Some m' \<rbrakk> \<Longrightarrow> \<not> held m \<and> ok m' \<and> held m'"
    and unlock_law: "\<lbrakk> ok m; held m \<rbrakk> \<Longrightarrow> \<exists>m'. so_unlock_shared ops m = Some m' \<and> ok m' \<and> \<not> held m'"
    and try_law: "\<lbrakk> ok m; so_try_lock_shared ops m = Some (b, m') \<rbrakk> \<Longrightarrow> \<not> held m \<and> ok m' \<and> held m' = b"
    and try_for_law:
      "\<lbrakk> ok m; so_try_lock_shared_for ops m = Some (b, m') \<rbrakk> \<Longrightarrow> \<not> held m \<and> ok m' \<and> held m' = b"
    and try_until_law:
      "\<lbrakk> ok m; so_try_lock_shared_until ops m = Some (b, m') \<rbrakk> \<Longrightarrow> \<not> held m \<and> ok m' \<and> held m' = b"
    and env_law: "\<lbrakk> ok m; env e m = Some m' \<rbrakk> \<Longrightarrow> ok m' \<and> held m' = held m"
begin

definition good :: "'m slworld \<Rightarrow> bool" where
  "good w \<longleftrightarrow> (\<exists>h. sl_inv ok held h w)"

lemma good_construct:
  assumes g: "good w" and c: "construct l f w = Some w'"
    and f: "\<And>x ms. f (sl_mutexes w) = Some (x, ms) \<Longrightarrow>
      ms = sl_mutexes w \<and> \<not> sl_owns x \<or>
      (\<exists>m b mu. x = \<lparr>sl_mtx = Some m, sl_owns = b\<rparr> \<and> ms = (sl_mutexes w)(m := mu) \<and>
         \<not> held (sl_mutexes w m) \<and> ok mu \<and> held mu = b)"
  shows "good w'"
proof -
  obtain h where i: "sl_inv ok held h w" using g by (auto simp: good_def)
  obtain x ms where x: "f (sl_mutexes w) = Some (x, ms)" "sl_objs w l = None"
    "w' = w\<lparr>sl_mutexes := ms, sl_objs := (sl_objs w)(l \<mapsto> x)\<rparr>"
    using c by (auto simp: construct_def split: if_splits)
  from f [OF x(1)] show ?thesis
  proof
    assume "ms = sl_mutexes w \<and> \<not> sl_owns x"
    then have "sl_inv ok held h w'" using inv_same [OF i, of "Some x" l] x by (simp add: valid_def)
    then show ?thesis by (auto simp: good_def)
  next
    assume "\<exists>m b mu. x = \<lparr>sl_mtx = Some m, sl_owns = b\<rparr> \<and> ms = (sl_mutexes w)(m := mu) \<and>
         \<not> held (sl_mutexes w m) \<and> ok mu \<and> held mu = b"
    then obtain m b mu where m: "x = \<lparr>sl_mtx = Some m, sl_owns = b\<rparr>" "ms = (sl_mutexes w)(m := mu)"
      "\<not> held (sl_mutexes w m)" "ok mu" "held mu = b" by blast
    have "own (sl_objs w l) = None" using x(2) by simp
    from inv_take [OF i this m(3-5)] show ?thesis unfolding good_def x(3) m(1,2) .
  qed
qed

text \<open>A locking member function, through the pointer of the object.\<close>

lemma good_update_try:
  assumes g: "good w" and c: "update l f w = Some w'"
    and f: "\<And>x y ms. f x (sl_mutexes w) = Some (y, ms) \<Longrightarrow>
      \<exists>m b mu. sl_mtx x = Some m \<and> y = x\<lparr>sl_owns := b\<rparr> \<and> ms = (sl_mutexes w)(m := mu) \<and>
         \<not> held (sl_mutexes w m) \<and> ok mu \<and> held mu = b"
  shows "good w'"
proof -
  obtain h where i: "sl_inv ok held h w" using g by (auto simp: good_def)
  obtain x y ms where x: "sl_objs w l = Some x" "f x (sl_mutexes w) = Some (y, ms)"
    "w' = w\<lparr>sl_mutexes := ms, sl_objs := (sl_objs w)(l \<mapsto> y)\<rparr>"
    using c by (auto simp: update_def)
  obtain m b mu where m: "sl_mtx x = Some m" "y = x\<lparr>sl_owns := b\<rparr>" "ms = (sl_mutexes w)(m := mu)"
      "\<not> held (sl_mutexes w m)" "ok mu" "held mu = b" using f [OF x(2)] by blast
  have y: "y = \<lparr>sl_mtx = Some m, sl_owns = b\<rparr>" using m(1,2) by (cases x) simp
  have "h m = None" using m(4) by (simp add: sl_invD(2) [OF i])
  then have "own (sl_objs w l) = None" using sl_invD(4) [OF i, of l m] x(1) m(1) by auto
  from inv_take [OF i this m(4-6)] show ?thesis unfolding good_def x(3) m(3) y .
qed

lemma good_give:
  assumes g: "good w" and x: "sl_objs w l = Some x" "sl_owns x"
    and c: "call (so_unlock_shared ops) x (sl_mutexes w) = Some ms"
    and y: "own y = None" "\<And>x. y = Some x \<Longrightarrow> valid x"
  shows "good (w\<lparr>sl_mutexes := ms, sl_objs := (sl_objs w)(l := y)\<rparr>)"
proof -
  obtain h where i: "sl_inv ok held h w" using g by (auto simp: good_def)
  obtain m mu where m: "sl_mtx x = Some m" "so_unlock_shared ops (sl_mutexes w m) = Some mu"
    "ms = (sl_mutexes w)(m := mu)" using c by (auto simp: call_def)
  have o: "own (sl_objs w l) = Some m" using x m(1) by simp
  then have "held (sl_mutexes w m)" using sl_invD(2) [OF i, of m] sl_invD(4) [OF i, of l m] by simp
  from unlock_law [OF sl_invD(1) [OF i] this] m(2) have mu: "ok mu" "\<not> held mu" by simp_all
  from inv_give [OF i o y mu] show ?thesis unfolding good_def m(3) by blast
qed

lemma good_delete:
  assumes g: "good w" and c: "SharedLock_delete ops l w = Some w'" shows "good w'"
proof -
  obtain x ms where x: "sl_objs w l = Some x" "SharedLock_destroy ops x (sl_mutexes w) = Some ms"
    "w' = w\<lparr>sl_mutexes := ms, sl_objs := (sl_objs w)(l := None)\<rparr>"
    using c by (auto simp: SharedLock_delete_def)
  show ?thesis
  proof (cases "sl_owns x")
    case True
    then show ?thesis using good_give [OF g x(1) True, of ms None] x by (simp add: SharedLock_destroy_def)
  next
    case False
    obtain h where i: "sl_inv ok held h w" using g by (auto simp: good_def)
    have "w' = w\<lparr>sl_objs := (sl_objs w)(l := None)\<rparr>" using x False by (cases w) (simp add: SharedLock_destroy_def)
    then have "sl_inv ok held h w'" using inv_same [OF i, of None l] x False by simp
    then show ?thesis by (auto simp: good_def)
  qed
qed

lemma good_swap: "\<lbrakk> good w; swap_objs l r w = Some w' \<rbrakk> \<Longrightarrow> good w'"
  unfolding good_def using inv_swap by blast

lemma good_move: "\<lbrakk> good w; SharedLock_move l r w = Some w' \<rbrakk> \<Longrightarrow> good w'"
proof -
  assume g: "good w" and m: "SharedLock_move l r w = Some w'"
  obtain u where u: "construct l (\<lambda>ms. Some (SharedLock, ms)) w = Some u" "swap_objs l r u = Some w'"
    using m by (auto simp: SharedLock_move_def)
  have "good u" by (rule good_construct [OF g u(1)]) (auto simp: SharedLock_def)
  then show ?thesis by (rule good_swap [OF _ u(2)])
qed

lemma good_assign: "\<lbrakk> good w; SharedLock_assign ops tmp l r w = Some w' \<rbrakk> \<Longrightarrow> good w'"
proof -
  assume g: "good w" and a: "SharedLock_assign ops tmp l r w = Some w'"
  obtain u v where "SharedLock_move tmp r w = Some u" "swap_objs tmp l u = Some v"
    "SharedLock_delete ops tmp v = Some w'" using a by (auto simp: SharedLock_assign_def)
  with good_move [OF g] good_swap [of u] good_delete [of v] show ?thesis by blast
qed

lemma good_release: "\<lbrakk> good w; SharedLock_release l w = Some w' \<rbrakk> \<Longrightarrow> good w'"
proof -
  assume g: "good w" and r: "SharedLock_release l w = Some w'"
  obtain h where i: "sl_inv ok held h w" using g by (auto simp: good_def)
  obtain x where x: "sl_objs w l = Some x"
    "w' = w\<lparr>sl_objs := (sl_objs w)(l \<mapsto> x\<lparr>sl_owns := False, sl_mtx := None\<rparr>),
        sl_loose := (if sl_owns x then sl_loose w \<union> set_option (sl_mtx x) else sl_loose w)\<rparr>"
    using r by (auto simp: SharedLock_release_def slock_release_def owns_lock_def)
  show ?thesis
  proof (cases "own (Some x)")
    case None
    then have "\<not> sl_owns x" using sl_invD(5) [OF i x(1)] by (auto simp: valid_def)
    then have "w' = w\<lparr>sl_objs := (sl_objs w)(l \<mapsto> x\<lparr>sl_owns := False, sl_mtx := None\<rparr>)\<rparr>"
      using x(2) by (cases w) simp
    then have "sl_inv ok held h w'" using inv_same [OF i, of "Some (x\<lparr>sl_owns := False, sl_mtx := None\<rparr>)" l] x(1) None
      by (simp add: valid_def)
    then show ?thesis by (auto simp: good_def)
  next
    case (Some m)
    then have o: "sl_owns x" "sl_mtx x = Some m" by (auto split: if_splits)
    have h: "h m = Some (Lock l)" using sl_invD(4) [OF i, of l m] x(1) Some by simp
    have n: "h k \<noteq> Some (Lock l)" if "k \<noteq> m" for k using that sl_invD(4) [OF i, of l k] x(1) o by simp
    have "sl_inv ok held (h(m \<mapsto> Caller)) w'"
      using h n o unfolding x(2) sl_inv_def by (auto simp: sl_invD [OF i] valid_def [of "x\<lparr>sl_owns := _, sl_mtx := _\<rparr>"])
    then show ?thesis by (auto simp: good_def)
  qed
qed

lemma good_adopt:
  assumes g: "good w" and m: "m \<in> sl_loose w"
    and c: "construct l (\<lambda>ms. Some (SharedLock_adopt m, ms)) (w\<lparr>sl_loose := sl_loose w - {m}\<rparr>) = Some w'"
  shows "good w'"
proof -
  obtain h where i: "sl_inv ok held h w" using g by (auto simp: good_def)
  have l: "sl_objs w l = None" and w': "w' = w\<lparr>sl_objs := (sl_objs w)(l \<mapsto> SharedLock_adopt m), sl_loose := sl_loose w - {m}\<rparr>"
    using c by (cases w, auto simp: construct_def split: if_splits)+
  have h: "h m = Some Caller" using m by (simp add: sl_invD(3) [OF i])
  have n: "h k \<noteq> Some (Lock l)" for k using sl_invD(4) [OF i, of l k] l by simp
  have "sl_inv ok held (h(m \<mapsto> Lock l)) w'"
    using h n unfolding w' sl_inv_def
    by (auto simp: SharedLock_adopt_def sl_invD [OF i] valid_def [of "\<lparr>sl_mtx = _, sl_owns = _\<rparr>"])
  then show ?thesis by (auto simp: good_def)
qed

lemma good_env:
  assumes g: "good w" and e: "env e (sl_mutexes w m) = Some mu"
  shows "good (w\<lparr>sl_mutexes := (sl_mutexes w)(m := mu)\<rparr>)"
proof -
  obtain h where i: "sl_inv ok held h w" using g by (auto simp: good_def)
  have "ok mu" "held mu = held (sl_mutexes w m)" using env_law [OF sl_invD(1) [OF i] e] by simp_all
  then have "sl_inv ok held h (w\<lparr>sl_mutexes := (sl_mutexes w)(m := mu)\<rparr>)"
    using i unfolding sl_inv_def by auto
  then show ?thesis by (auto simp: good_def)
qed

lemma good_ok: "good w \<Longrightarrow> ok (sl_mutexes w m)"
  by (auto simp: good_def sl_inv_def)

lemma attempt_shape:
  assumes law: "\<And>m b m'. \<lbrakk> ok m; f m = Some (b, m') \<rbrakk> \<Longrightarrow> \<not> held m \<and> ok m' \<and> held m' = b"
    and g: "good w" and a: "SharedLock_attempt f k (sl_mutexes w) = Some (x, ms)"
  shows "\<exists>m b mu. x = \<lparr>sl_mtx = Some m, sl_owns = b\<rparr> \<and> ms = (sl_mutexes w)(m := mu) \<and>
         \<not> held (sl_mutexes w m) \<and> ok mu \<and> held mu = b"
  using a law [OF good_ok [OF g], of k] by (auto simp: SharedLock_attempt_def)

lemma try_shape:
  assumes law: "\<And>m b m'. \<lbrakk> ok m; f m = Some (b, m') \<rbrakk> \<Longrightarrow> \<not> held m \<and> ok m' \<and> held m' = b"
    and g: "good w" and a: "call_try f x (sl_mutexes w) = Some (b, ms)"
  shows "\<exists>m b' mu. sl_mtx x = Some m \<and> x\<lparr>sl_owns := b\<rparr> = x\<lparr>sl_owns := b'\<rparr> \<and> ms = (sl_mutexes w)(m := mu) \<and>
         \<not> held (sl_mutexes w m) \<and> ok mu \<and> held mu = b'"
  using a law [OF good_ok [OF g]] by (fastforce simp: call_try_def)

lemma good_constructors:
  assumes g: "good w"
  shows "construct l (\<lambda>ms. Some (SharedLock, ms)) w = Some w' \<Longrightarrow> good w'"
    "construct l (\<lambda>ms. Some (SharedLock_defer m, ms)) w = Some w' \<Longrightarrow> good w'"
    "construct l (SharedLock_mutex ops m) w = Some w' \<Longrightarrow> good w'"
    "construct l (SharedLock_attempt (so_try_lock_shared ops) m) w = Some w' \<Longrightarrow> good w'"
    "construct l (SharedLock_attempt (so_try_lock_shared_for ops) m) w = Some w' \<Longrightarrow> good w'"
    "construct l (SharedLock_attempt (so_try_lock_shared_until ops) m) w = Some w' \<Longrightarrow> good w'"
proof -
  show "construct l (\<lambda>ms. Some (SharedLock, ms)) w = Some w' \<Longrightarrow> good w'"
    by (erule good_construct [OF g]) (auto simp: SharedLock_def)
  show "construct l (\<lambda>ms. Some (SharedLock_defer m, ms)) w = Some w' \<Longrightarrow> good w'"
    by (erule good_construct [OF g]) (auto simp: SharedLock_defer_def)
  show "construct l (SharedLock_mutex ops m) w = Some w' \<Longrightarrow> good w'"
    by (erule good_construct [OF g])
      (use lock_law [OF good_ok [OF g]] in \<open>fastforce simp: SharedLock_mutex_def\<close>)
  show "construct l (SharedLock_attempt (so_try_lock_shared ops) m) w = Some w' \<Longrightarrow> good w'"
    by (erule good_construct [OF g]) (use attempt_shape [OF try_law g] in blast)
  show "construct l (SharedLock_attempt (so_try_lock_shared_for ops) m) w = Some w' \<Longrightarrow> good w'"
    by (erule good_construct [OF g]) (use attempt_shape [OF try_for_law g] in blast)
  show "construct l (SharedLock_attempt (so_try_lock_shared_until ops) m) w = Some w' \<Longrightarrow> good w'"
    by (erule good_construct [OF g]) (use attempt_shape [OF try_until_law g] in blast)
qed

text \<open>The member functions that lock.\<close>

lemma good_lockers:
  assumes g: "good w"
  shows "update l (SharedLock_lock ops) w = Some w' \<Longrightarrow> good w'"
    "update l (SharedLock_try_lock ops) w = Some w' \<Longrightarrow> good w'"
    "update l (SharedLock_try_lock_for ops) w = Some w' \<Longrightarrow> good w'"
    "update l (SharedLock_try_lock_until ops) w = Some w' \<Longrightarrow> good w'"
proof -
  show "update l (SharedLock_lock ops) w = Some w' \<Longrightarrow> good w'"
    by (erule good_update_try [OF g])
      (use lock_law [OF good_ok [OF g]] in \<open>fastforce simp: SharedLock_lock_def call_def\<close>)
  show "update l (SharedLock_try_lock ops) w = Some w' \<Longrightarrow> good w'"
    by (erule good_update_try [OF g]) (use try_shape [OF try_law g] in \<open>fastforce simp: SharedLock_try_lock_def\<close>)
  show "update l (SharedLock_try_lock_for ops) w = Some w' \<Longrightarrow> good w'"
    by (erule good_update_try [OF g])
      (use try_shape [OF try_for_law g] in \<open>fastforce simp: SharedLock_try_lock_for_def\<close>)
  show "update l (SharedLock_try_lock_until ops) w = Some w' \<Longrightarrow> good w'"
    by (erule good_update_try [OF g])
      (use try_shape [OF try_until_law g] in \<open>fastforce simp: SharedLock_try_lock_until_def\<close>)
qed

lemma good_unlock:
  assumes g: "good w" and x: "sl_objs w l = Some x" "owns_lock x"
    and u: "update l (SharedLock_unlock ops) w = Some w'"
  shows "good w'"
proof -
  obtain y ms where y: "SharedLock_unlock ops x (sl_mutexes w) = Some (y, ms)"
    "w' = w\<lparr>sl_mutexes := ms, sl_objs := (sl_objs w)(l \<mapsto> y)\<rparr>"
    using u x(1) by (auto simp: update_def)
  have c: "call (so_unlock_shared ops) x (sl_mutexes w) = Some ms" "y = x\<lparr>sl_owns := False\<rparr>"
    using y(1) by (auto simp: SharedLock_unlock_def)
  show ?thesis
    using good_give [OF g x(1) _ c(1), of "Some y"] x(2) y(2) c(2) by (simp add: valid_def owns_lock_def)
qed

lemma good_step:
  assumes g: "good w" and st: "sl_step ops env e w = Some w'" shows "good w'"
  by (cases e; insert st)
    (auto intro: good_constructors [OF g] good_lockers [OF g] good_unlock [OF g] good_adopt [OF g]
        good_move [OF g] good_assign [OF g] good_swap [OF g] good_release [OF g] good_delete [OF g]
        good_env [OF g] split: option.splits if_splits)

lemma good_start:
  assumes "\<And>m. ok (ms m)" "\<And>m. \<not> held (ms m)"
  shows "good \<lparr>sl_mutexes = ms, sl_objs = (\<lambda>_. None), sl_loose = {}\<rparr>"
proof -
  have "sl_inv ok held (\<lambda>_. None) \<lparr>sl_mutexes = ms, sl_objs = (\<lambda>_. None), sl_loose = {}\<rparr>"
    using assms by (simp add: sl_inv_def)
  then show ?thesis by (auto simp: good_def)
qed

text \<open>What the invariant says without naming the owners.\<close>

lemma good_balance:
  assumes "good w"
  shows "held (sl_mutexes w m) \<longleftrightarrow> m \<in> sl_loose w \<or> (\<exists>l. own (sl_objs w l) = Some m)"
    "own (sl_objs w l) = Some m \<Longrightarrow> own (sl_objs w l') = Some m \<Longrightarrow> l = l'"
    "own (sl_objs w l) = Some m \<Longrightarrow> m \<notin> sl_loose w"
proof -
  obtain h where i: "sl_inv ok held h w" using assms by (auto simp: good_def)
  have "h m = None \<or> h m = Some Caller \<or> (\<exists>l. h m = Some (Lock l))" by (metis option.exhaust owner.exhaust)
  then show "held (sl_mutexes w m) \<longleftrightarrow> m \<in> sl_loose w \<or> (\<exists>l. own (sl_objs w l) = Some m)"
    by (auto simp: sl_invD [OF i] simp del: own.simps)
qed (use assms in \<open>auto simp: good_def sl_inv_def simp del: own.simps\<close>)

end

sublocale shared_mutex_type \<subseteq> sl: inv_system "sl_step ops env" good
  by unfold_locales (rule good_step)

section \<open>SharedTimedMutex meets the contract\<close>

text \<open>
  The calls one thread makes on a \<open>SharedTimedMutex\<close>, as sequences of its events run to the return:
  \<open>lock_shared\<close> when it need not block, a timed attempt that succeeds at once or times out, and
  \<open>unlock_shared\<close> with the notification it may owe.
\<close>

definition stm_call_lock_shared :: "tid \<Rightarrow> stm \<Rightarrow> stm option" where
  "stm_call_lock_shared t s = do {
     s \<leftarrow> stm_step (M_lock_shared t False) s;
     (if mpcs s t = M_reader then Some s else None) }"

definition stm_call_unlock_shared :: "tid \<Rightarrow> stm \<Rightarrow> stm option" where
  "stm_call_unlock_shared t s = do {
     s \<leftarrow> stm_step (M_unlock_shared t) s;
     (if mpcs s t = M_out then Some s else stm_step (M_notify t 0) s) }"

definition stm_call_try_lock_shared :: "bool \<Rightarrow> tid \<Rightarrow> stm \<Rightarrow> (bool \<times> stm) option" where
  "stm_call_try_lock_shared got t s = do {
     s \<leftarrow> stm_step (M_try_lock_shared t got) s;
     Some (mpcs s t = M_reader, s) }"

definition stm_call_try_lock_shared_until :: "tid \<Rightarrow> stm \<Rightarrow> (bool \<times> stm) option" where
  "stm_call_try_lock_shared_until t s = do {
     s \<leftarrow> stm_step (M_lock_shared t True) s;
     (if mpcs s t = M_reader then Some (True, s)
      else do { s \<leftarrow> runs stm_step [M_wake t, M_timeout t] s; Some (False, s) }) }"

definition stm_shared_ops :: "bool \<Rightarrow> tid \<Rightarrow> stm shared_ops" where
  "stm_shared_ops got t = \<lparr>so_lock_shared = stm_call_lock_shared t,
     so_unlock_shared = stm_call_unlock_shared t,
     so_try_lock_shared = stm_call_try_lock_shared got t,
     so_try_lock_shared_for = stm_call_try_lock_shared_until t,
     so_try_lock_shared_until = stm_call_try_lock_shared_until t\<rparr>"

definition stm_others :: "tid \<Rightarrow> mevent \<Rightarrow> stm \<Rightarrow> stm option" where
  "stm_others t e s = (if m_tid e = t then None else stm_step e s)"

definition stm_between :: "tid \<Rightarrow> stm \<Rightarrow> bool" where
  "stm_between t s \<longleftrightarrow> stm_exact s \<and> (mpcs s t = M_out \<or> mpcs s t = M_reader) \<and>
     t \<notin> set (rgate s) \<and> t \<notin> set (wgate s)"

lemmas stm_call_defs = stm_lock_def stm_wgate_def stm_unlock_def stm_try_lock_def
  stm_lock_shared_def stm_unlock_shared_def stm_try_lock_shared_def stm_timeout_def
  stm_retest_def stm_notify_def Let_def

lemma stm_bystander:
  assumes "stm_step e s = Some s'" "m_tid e \<noteq> t"
  shows "mpcs s' t = mpcs s t" "t \<notin> set (rgate s) \<Longrightarrow> t \<notin> set (rgate s')"
    "t \<notin> set (wgate s) \<Longrightarrow> t \<notin> set (wgate s')"
  using assms
  by (cases e; auto simp: stm_call_defs dest: notify_one_subset
      split: if_splits mpc.splits side.splits bool.splits)+

lemma stm_between_others:
  "\<lbrakk> stm_between t s; stm_others t e s = Some s' \<rbrakk> \<Longrightarrow>
     stm_between t s' \<and> (mpcs s' t = M_reader) = (mpcs s t = M_reader)"
  using stm_bystander [of e s s' t] stm_exact_step [of s e s']
  by (auto simp: stm_between_def stm_others_def split: if_splits)

lemma notify_one_0: "\<exists>g. notify_one 0 q = Some g"
  by (cases q) (simp_all add: notify_one_def)

lemma stm_call_lock_law:
  assumes "stm_between t s" "stm_call_lock_shared t s = Some s'"
  shows "mpcs s t \<noteq> M_reader \<and> stm_between t s' \<and> mpcs s' t = M_reader"
proof -
  have st: "stm_step (M_lock_shared t False) s = Some s'" "mpcs s' t = M_reader"
    using assms(2) by (auto simp: stm_call_lock_shared_def split: if_splits)
  have "stm_exact s'"
    by (rule stm_exact_step [OF _ st(1)]) (use assms(1) in \<open>simp add: stm_between_def\<close>)
  with st assms(1) show ?thesis
    by (auto simp: stm_between_def stm_lock_shared_def split: if_splits)
qed

lemma stm_call_try_law:
  assumes "stm_between t s" "stm_call_try_lock_shared got t s = Some (b, s')"
  shows "mpcs s t \<noteq> M_reader \<and> stm_between t s' \<and> (mpcs s' t = M_reader) = b"
proof -
  have st: "stm_step (M_try_lock_shared t got) s = Some s'" "b = (mpcs s' t = M_reader)"
    using assms(2) by (auto simp: stm_call_try_lock_shared_def split: if_splits)
  have "stm_exact s'"
    by (rule stm_exact_step [OF _ st(1)]) (use assms(1) in \<open>simp add: stm_between_def\<close>)
  with st assms(1) show ?thesis
    by (auto simp: stm_between_def stm_try_lock_shared_def split: if_splits)
qed

lemma stm_call_until_law:
  assumes "stm_between t s" "stm_call_try_lock_shared_until t s = Some (b, s')"
  shows "mpcs s t \<noteq> M_reader \<and> stm_between t s' \<and> (mpcs s' t = M_reader) = b"
proof -
  obtain u where u: "stm_step (M_lock_shared t True) s = Some u"
    "if mpcs u t = M_reader then b \<and> s' = u else \<not> b \<and> runs stm_step [M_wake t, M_timeout t] u = Some s'"
    using assms(2) by (auto simp: stm_call_try_lock_shared_until_def split: if_splits)
  have x: "stm_exact u"
    by (rule stm_exact_step [OF _ u(1)]) (use assms(1) in \<open>simp add: stm_between_def\<close>)
  have "stm_exact s'"
  proof (cases b)
    case False
    then have "runs stm_step [M_wake t, M_timeout t] u = Some s'" using u(2) by (auto split: if_splits)
    then show ?thesis by (rule stme.runs_inv [OF x])
  qed (use u(2) x in \<open>auto split: if_splits\<close>)
  with u assms(1) show ?thesis
    by (auto simp: stm_between_def stm_lock_shared_def stm_timeout_def split: if_splits mpc.splits side.splits bool.splits)
qed

lemma stm_call_unlock_law:
  assumes "stm_between t s" "mpcs s t = M_reader"
  shows "\<exists>s'. stm_call_unlock_shared t s = Some s' \<and> stm_between t s' \<and> mpcs s' t \<noteq> M_reader"
proof -
  let ?u = "stm_unlock_shared t s"
  have step: "stm_step (M_unlock_shared t) s = Some ?u" using assms(2) by simp
  have x: "stm_exact ?u" using stm_exact_step [OF _ step] assms(1) by (simp add: stm_between_def)
  have q: "rgate ?u = rgate s" "wgate ?u = wgate s" by (simp_all add: stm_unlock_shared_def Let_def)
  have "mpcs ?u t \<in> {M_out, M_notify_wgate_one, M_notify_rgate_one}"
    by (simp add: stm_unlock_shared_def Let_def)
  then consider "mpcs ?u t = M_out" | "mpcs ?u t = M_notify_wgate_one" | "mpcs ?u t = M_notify_rgate_one"
    by blast
  then show ?thesis
  proof cases
    case 1
    then show ?thesis using step x q assms(1) by (simp add: stm_call_unlock_shared_def stm_between_def)
  next
    case 2
    obtain g where g: "notify_one 0 (wgate s) = Some g" using notify_one_0 by blast
    then have n: "stm_step (M_notify t 0) ?u = Some (to_pc t M_out (?u\<lparr>wgate := g\<rparr>))"
      using 2 q by (simp add: stm_notify_def)
    have "t \<notin> set g" using notify_one_subset [OF g] assms(1) by (auto simp: stm_between_def)
    with n step 2 q assms(1) stm_exact_step [OF x n] show ?thesis
      by (simp add: stm_call_unlock_shared_def stm_between_def)
  next
    case 3
    obtain g where g: "notify_one 0 (rgate s) = Some g" using notify_one_0 by blast
    then have n: "stm_step (M_notify t 0) ?u = Some (to_pc t M_out (?u\<lparr>rgate := g\<rparr>))"
      using 3 q by (simp add: stm_notify_def)
    have "t \<notin> set g" using notify_one_subset [OF g] assms(1) by (auto simp: stm_between_def)
    with n step 3 q assms(1) stm_exact_step [OF x n] show ?thesis
      by (simp add: stm_call_unlock_shared_def stm_between_def)
  qed
qed

lemma stm_shared_ops_sel [simp]:
  "so_lock_shared (stm_shared_ops got t) = stm_call_lock_shared t"
  "so_unlock_shared (stm_shared_ops got t) = stm_call_unlock_shared t"
  "so_try_lock_shared (stm_shared_ops got t) = stm_call_try_lock_shared got t"
  "so_try_lock_shared_for (stm_shared_ops got t) = stm_call_try_lock_shared_until t"
  "so_try_lock_shared_until (stm_shared_ops got t) = stm_call_try_lock_shared_until t"
  by (simp_all add: stm_shared_ops_def)

interpretation stl: shared_mutex_type "stm_shared_ops got t" "stm_others t" "stm_between t"
    "\<lambda>s. mpcs s t = M_reader" for got t
  by (unfold_locales, unfold stm_shared_ops_sel)
    (fact stm_call_lock_law stm_call_unlock_law stm_call_try_law stm_call_until_law stm_between_others)+

section \<open>ReaderPreferringSharedTimedMutex meets the contract\<close>

definition rpm_call_lock_shared :: "tid \<Rightarrow> rpm \<Rightarrow> rpm option" where
  "rpm_call_lock_shared t s = do {
     s \<leftarrow> rpm_step (P_lock_shared t False) s;
     (if ppcs s t = P_reader then Some s else None) }"

definition rpm_call_unlock_shared :: "tid \<Rightarrow> rpm \<Rightarrow> rpm option" where
  "rpm_call_unlock_shared t s = do {
     s \<leftarrow> rpm_step (P_unlock_shared t) s;
     (if ppcs s t = P_out then Some s else rpm_step (P_notify t) s) }"

definition rpm_call_try_lock_shared :: "bool \<Rightarrow> tid \<Rightarrow> rpm \<Rightarrow> (bool \<times> rpm) option" where
  "rpm_call_try_lock_shared got t s = do {
     s \<leftarrow> rpm_step (P_try_lock_shared t got) s;
     Some (ppcs s t = P_reader, s) }"

definition rpm_call_try_lock_shared_until :: "tid \<Rightarrow> rpm \<Rightarrow> (bool \<times> rpm) option" where
  "rpm_call_try_lock_shared_until t s = do {
     s \<leftarrow> rpm_step (P_lock_shared t True) s;
     (if ppcs s t = P_reader then Some (True, s)
      else do { s \<leftarrow> runs rpm_step [P_wake t, P_timeout t] s; Some (False, s) }) }"

definition rpm_shared_ops :: "bool \<Rightarrow> tid \<Rightarrow> rpm shared_ops" where
  "rpm_shared_ops got t = \<lparr>so_lock_shared = rpm_call_lock_shared t,
     so_unlock_shared = rpm_call_unlock_shared t,
     so_try_lock_shared = rpm_call_try_lock_shared got t,
     so_try_lock_shared_for = rpm_call_try_lock_shared_until t,
     so_try_lock_shared_until = rpm_call_try_lock_shared_until t\<rparr>"

definition rpm_others :: "tid \<Rightarrow> pevent \<Rightarrow> rpm \<Rightarrow> rpm option" where
  "rpm_others t e s = (if p_tid e = t then None else rpm_step e s)"

definition rpm_between :: "tid \<Rightarrow> rpm \<Rightarrow> bool" where
  "rpm_between t s \<longleftrightarrow> rpm_exact s \<and> (ppcs s t = P_out \<or> ppcs s t = P_reader) \<and> t \<notin> set (cvq s)"

lemma rpm_between_others:
  assumes b: "rpm_between t s" and o: "rpm_others t e s = Some s'"
  shows "rpm_between t s' \<and> (ppcs s' t = P_reader) = (ppcs s t = P_reader)"
proof -
  have e: "rpm_step e s = Some s'" "p_tid e \<noteq> t" using o by (auto simp: rpm_others_def split: if_splits)
  then have "ppcs s' t = ppcs s t" "t \<notin> set (cvq s) \<longrightarrow> t \<notin> set (cvq s')"
    by (cases e; auto simp: rp_lock_def rp_unlock_def rp_try_lock_def rp_lock_shared_def
        rp_unlock_shared_def rp_try_lock_shared_def rp_timeout_def rp_retest_def Let_def
        split: if_splits ppc.splits side.splits bool.splits)+
  with b rpm_exact_step [OF _ e(1)] show ?thesis by (auto simp: rpm_between_def)
qed

lemma rpm_call_lock_law:
  assumes "rpm_between t s" "rpm_call_lock_shared t s = Some s'"
  shows "ppcs s t \<noteq> P_reader \<and> rpm_between t s' \<and> ppcs s' t = P_reader"
proof -
  have st: "rpm_step (P_lock_shared t False) s = Some s'" "ppcs s' t = P_reader"
    using assms(2) by (auto simp: rpm_call_lock_shared_def split: if_splits)
  have "rpm_exact s'"
    by (rule rpm_exact_step [OF _ st(1)]) (use assms(1) in \<open>simp add: rpm_between_def\<close>)
  with st assms(1) show ?thesis
    by (auto simp: rpm_between_def rp_lock_shared_def split: if_splits)
qed

lemma rpm_call_try_law:
  assumes "rpm_between t s" "rpm_call_try_lock_shared got t s = Some (b, s')"
  shows "ppcs s t \<noteq> P_reader \<and> rpm_between t s' \<and> (ppcs s' t = P_reader) = b"
proof -
  have st: "rpm_step (P_try_lock_shared t got) s = Some s'" "b = (ppcs s' t = P_reader)"
    using assms(2) by (auto simp: rpm_call_try_lock_shared_def split: if_splits)
  have "rpm_exact s'"
    by (rule rpm_exact_step [OF _ st(1)]) (use assms(1) in \<open>simp add: rpm_between_def\<close>)
  with st assms(1) show ?thesis
    by (auto simp: rpm_between_def rp_try_lock_shared_def split: if_splits)
qed

lemma rpm_call_until_law:
  assumes "rpm_between t s" "rpm_call_try_lock_shared_until t s = Some (b, s')"
  shows "ppcs s t \<noteq> P_reader \<and> rpm_between t s' \<and> (ppcs s' t = P_reader) = b"
proof -
  obtain u where u: "rpm_step (P_lock_shared t True) s = Some u"
    "if ppcs u t = P_reader then b \<and> s' = u else \<not> b \<and> runs rpm_step [P_wake t, P_timeout t] u = Some s'"
    using assms(2) by (auto simp: rpm_call_try_lock_shared_until_def split: if_splits)
  have x: "rpm_exact u"
    by (rule rpm_exact_step [OF _ u(1)]) (use assms(1) in \<open>simp add: rpm_between_def\<close>)
  have "rpm_exact s'"
  proof (cases b)
    case False
    then have "runs rpm_step [P_wake t, P_timeout t] u = Some s'" using u(2) by (auto split: if_splits)
    then show ?thesis by (rule rpe.runs_inv [OF x])
  qed (use u(2) x in \<open>auto split: if_splits\<close>)
  with u assms(1) show ?thesis
    by (auto simp: rpm_between_def rp_lock_shared_def rp_timeout_def split: if_splits ppc.splits side.splits bool.splits)
qed

lemma rpm_call_unlock_law:
  assumes "rpm_between t s" "ppcs s t = P_reader"
  shows "\<exists>s'. rpm_call_unlock_shared t s = Some s' \<and> rpm_between t s' \<and> ppcs s' t \<noteq> P_reader"
proof -
  let ?u = "rp_unlock_shared t s"
  have step: "rpm_step (P_unlock_shared t) s = Some ?u" using assms(2) by simp
  have x: "rpm_exact ?u" using rpm_exact_step [OF _ step] assms(1) by (simp add: rpm_between_def)
  have q: "cvq ?u = cvq s" by (simp add: rp_unlock_shared_def Let_def)
  have "ppcs ?u t \<in> {P_out, P_notify_all}" by (simp add: rp_unlock_shared_def Let_def)
  then consider "ppcs ?u t = P_out" | "ppcs ?u t = P_notify_all" by blast
  then show ?thesis
  proof cases
    case 1
    then show ?thesis using step x q assms(1) by (simp add: rpm_call_unlock_shared_def rpm_between_def)
  next
    case 2
    then have n: "rpm_step (P_notify t) ?u = Some (go t P_out (?u\<lparr>cvq := []\<rparr>))" by simp
    with step 2 rpm_exact_step [OF x n] show ?thesis
      by (simp add: rpm_call_unlock_shared_def rpm_between_def)
  qed
qed

lemma rpm_shared_ops_sel [simp]:
  "so_lock_shared (rpm_shared_ops got t) = rpm_call_lock_shared t"
  "so_unlock_shared (rpm_shared_ops got t) = rpm_call_unlock_shared t"
  "so_try_lock_shared (rpm_shared_ops got t) = rpm_call_try_lock_shared got t"
  "so_try_lock_shared_for (rpm_shared_ops got t) = rpm_call_try_lock_shared_until t"
  "so_try_lock_shared_until (rpm_shared_ops got t) = rpm_call_try_lock_shared_until t"
  by (simp_all add: rpm_shared_ops_def)

interpretation rpl: shared_mutex_type "rpm_shared_ops got t" "rpm_others t" "rpm_between t"
    "\<lambda>s. ppcs s t = P_reader" for got t
  by (unfold_locales, unfold rpm_shared_ops_sel)
    (fact rpm_call_lock_law rpm_call_unlock_law rpm_call_try_law rpm_call_until_law rpm_between_others)+

section \<open>Properties\<close>

definition sl_start :: "'m \<Rightarrow> 'm slworld" where
  "sl_start m = \<lparr>sl_mutexes = (\<lambda>_. m), sl_objs = (\<lambda>_. None), sl_loose = {}\<rparr>"

text \<open>
  C10: whatever a thread does with \<open>SharedLock\<close> objects over \<open>SharedTimedMutex\<close>es (construct, lock, try,
  time out, move, assign, swap, release, adopt, destroy, other threads in between), it is a reader of a
  mutex exactly when one object owns that mutex, or when \<open>release\<close> has handed the lock to the caller;
  no mutex is owned twice.  So nothing is leaked when the last object is gone, and nothing unlocked twice.
\<close>

theorem shared_lock_owns_what_it_says:
  assumes "runs (sl_step (stm_shared_ops got t) (stm_others t)) es (sl_start SharedTimedMutex) = Some w"
  shows "(mpcs (sl_mutexes w m) t = M_reader \<longleftrightarrow> m \<in> sl_loose w \<or> (\<exists>l. own (sl_objs w l) = Some m)) \<and>
    (own (sl_objs w l) = Some m \<longrightarrow> m \<notin> sl_loose w \<and> (own (sl_objs w l') = Some m \<longrightarrow> l = l'))"
proof -
  have "stl.good t (sl_start SharedTimedMutex)"
    unfolding sl_start_def
    by (rule stl.good_start) (simp_all add: stm_between_def stm_exact_init, simp_all add: SharedTimedMutex_def)
  then have "stl.good t w" by (rule stl.sl.runs_inv) (rule assms)
  from stl.good_balance [OF this] show ?thesis by blast
qed

text \<open>
  C36: moving is a round trip: swapping twice changes nothing, assigning an object to itself changes
  nothing (it survives the detour through the temporary), and assigning an object to another first gives
  back the lock the target owned, if it owned one, transfers the contents and leaves the source in the
  default state; it fails only where the mutex's \<open>unlock_shared\<close> does.
\<close>

theorem shared_lock_moves:
  assumes "sl_objs w l = Some x" "sl_objs w r = Some y" "sl_objs w tmp = None"
  shows "Option.bind (swap_objs l r w) (swap_objs l r) = Some w \<and>
    SharedLock_assign ops tmp l l w = Some w \<and>
    (l \<noteq> r \<longrightarrow> SharedLock_assign ops tmp l r w =
       map_option (\<lambda>ms. w\<lparr>sl_mutexes := ms, sl_objs := (sl_objs w)(l \<mapsto> y, r \<mapsto> SharedLock)\<rparr>)
         (if owns_lock x then call (so_unlock_shared ops) x (sl_mutexes w) else Some (sl_mutexes w)))"
proof -
  have n: "tmp \<noteq> l" "tmp \<noteq> r" using assms by auto
  have swap: "Option.bind (swap_objs l r w) (swap_objs l r) = Some w"
    using assms(1,2) by (cases w) (auto simp: swap_objs_def slock_swap_fields fun_eq_iff)
  have self: "SharedLock_assign ops tmp l l w = Some w"
    using assms(1,3) n by (cases w)
      (auto simp: SharedLock_assign_def SharedLock_move_def construct_def swap_objs_def slock_swap_fields
        SharedLock_delete_def SharedLock_destroy_def SharedLock_def fun_eq_iff)
  have "SharedLock_assign ops tmp l r w = map_option
      (\<lambda>ms. w\<lparr>sl_mutexes := ms, sl_objs := (sl_objs w)(l \<mapsto> y, r \<mapsto> SharedLock)\<rparr>)
      (SharedLock_destroy ops x (sl_mutexes w))" if "l \<noteq> r"
    using assms n that
    by (cases w; cases "SharedLock_destroy ops x (sl_mutexes w)")
      (auto simp: SharedLock_assign_def SharedLock_move_def construct_def swap_objs_def slock_swap_fields
        SharedLock_delete_def fun_eq_iff)
  with swap self show ?thesis by (simp add: SharedLock_destroy_def owns_lock_def)
qed

text \<open>A reader moves its lock while a writer queues, releases it, adopts it again and destroys it.\<close>

definition sl_demo :: "mevent slop list" where
  "sl_demo = [SL_mutex 0 7, SL_env 7 (M_lock 5 False), SL_move 1 0, SL_defer 2 7, SL_assign 9 2 1, SL_release 2,
     SL_adopt 3 7]"

theorem shared_lock_owns_what_it_says_witness:
  "\<exists>w. runs (sl_step (stm_shared_ops True 0) (stm_others 0)) sl_demo (sl_start SharedTimedMutex) = Some w \<and>
     own (sl_objs w 3) = Some 7 \<and> mpcs (sl_mutexes w 7) 0 = M_reader \<and> own (sl_objs w 2) \<noteq> Some 7"
proof -
  have "map_option (\<lambda>w. own (sl_objs w 3))
      (runs (sl_step (stm_shared_ops True 0) (stm_others 0)) sl_demo (sl_start SharedTimedMutex)) = Some (Some 7)"
    by code_simp
  then obtain w where w: "runs (sl_step (stm_shared_ops True 0) (stm_others 0)) sl_demo (sl_start SharedTimedMutex) = Some w"
    "own (sl_objs w 3) = Some 7" by (elim map_option_SomeE) blast
  with shared_lock_owns_what_it_says [OF w(1), of 7 3 2] show ?thesis by auto
qed

text \<open>The owner of a lock on mutex 8 is assigned to the owner of one on mutex 7, which is given back.\<close>

theorem shared_lock_moves_witness:
  "\<exists>w w'. runs (sl_step (stm_shared_ops True 0) (stm_others 0)) [SL_mutex 0 7, SL_mutex 1 8]
       (sl_start SharedTimedMutex) = Some w \<and> mpcs (sl_mutexes w 7) 0 = M_reader \<and>
     SharedLock_assign (stm_shared_ops True 0) 9 0 1 w = Some w' \<and> own (sl_objs w' 0) = Some 8 \<and>
     own (sl_objs w' 1) = None \<and> mpcs (sl_mutexes w' 7) 0 = M_out \<and> mpcs (sl_mutexes w' 8) 0 = M_reader"
proof -
  let ?ops = "stm_shared_ops True 0"
  have "map_option (\<lambda>w. (sl_objs w 0, sl_objs w 1, sl_objs w 9, mpcs (sl_mutexes w 7) 0,
        map_option (\<lambda>ms. (mpcs (ms 7) 0, mpcs (ms 8) 0)) (call (so_unlock_shared ?ops) (SharedLock_adopt 7) (sl_mutexes w))))
      (runs (sl_step ?ops (stm_others 0)) [SL_mutex 0 7, SL_mutex 1 8] (sl_start SharedTimedMutex))
    = Some (Some (SharedLock_adopt 7), Some (SharedLock_adopt 8), None, M_reader, Some (M_out, M_reader))"
    by code_simp
  then obtain w where w: "runs (sl_step ?ops (stm_others 0)) [SL_mutex 0 7, SL_mutex 1 8] (sl_start SharedTimedMutex) = Some w"
    "sl_objs w 0 = Some (SharedLock_adopt 7)" "sl_objs w 1 = Some (SharedLock_adopt 8)" "sl_objs w 9 = None"
    "mpcs (sl_mutexes w 7) 0 = M_reader"
    "map_option (\<lambda>ms. (mpcs (ms 7) 0, mpcs (ms 8) 0)) (call (so_unlock_shared ?ops) (SharedLock_adopt 7) (sl_mutexes w))
      = Some (M_out, M_reader)"
    by (elim map_option_SomeE Pair_inject) blast
  from w(6) obtain ms where ms: "call (so_unlock_shared ?ops) (SharedLock_adopt 7) (sl_mutexes w) = Some ms"
    "mpcs (ms 7) 0 = M_out" "mpcs (ms 8) 0 = M_reader" by (elim map_option_SomeE Pair_inject) blast
  let ?w' = "w\<lparr>sl_mutexes := ms, sl_objs := (sl_objs w)(0 \<mapsto> SharedLock_adopt 8, 1 \<mapsto> SharedLock)\<rparr>"
  have "SharedLock_assign ?ops 9 0 1 w = Some ?w'"
    using shared_lock_moves [OF w(2-4), of ?ops] ms(1) by (simp add: owns_lock_def SharedLock_adopt_def)
  moreover have "own (sl_objs ?w' 0) = Some 8" "own (sl_objs ?w' 1) = None" "sl_mutexes ?w' = ms"
    by (simp_all add: SharedLock_adopt_def SharedLock_def)
  ultimately show ?thesis using w(1,5) ms(2,3) by metis
qed

end
