(* ===== verification/Executor.thy ===== *)
theory Executor
  imports Event_System "HOL-Library.Multiset"
begin

text \<open>
  \<open>ThreadPoolExecutor\<close> of \<^verbatim>\<open>concurrency/executor.h\<close>.  A section under \<open>main_lock\<close> is
  one event.  Workers and client threads have numbers; \<open>workers\<close> and \<open>dead_workers\<close> are the
  vectors of \<open>unique_ptr<Worker>\<close>, \<open>cv_waiters\<close> and \<open>wait_cv_waiters\<close> the threads blocked on
  the two condition variables.  The callables are the client's: \<open>outcome i\<close> is what callable \<open>i\<close>
  returns (\<open>Inr\<close>) or throws (\<open>Inl\<close>).  \<open>None\<close> is an event that is not enabled; an out of range
  \<open>worker_index\<close> sets \<open>faulted\<close>, and a thread that locks \<open>main_lock\<close> while it holds it sets
  \<open>stuck\<close>, after which no section under the lock runs.
\<close>

section \<open>Tasks and workers\<close>

datatype task = Task nat | UntrackableTask nat

type_synonym wid = nat

record worker =
  core :: bool
  worker_index :: nat

datatype wpc = W_none | W_top | W_waiting | W_running task | W_ran | W_exiting | W_dead

datatype cpc =
    C_out
  | C_submitting task
  | C_await_lock bool
  | C_blocked bool
  | C_destroy
  | C_destroy_await
  | C_until_lock
  | C_stuck

record 'r exe =
  core_pool_size :: u64
  max_pool_size :: u64
  task_queue :: "task list"
  workers :: "wid list"
  dead_workers :: "wid list"
  shut :: bool
  active_count :: u64
  worker_info :: "wid \<Rightarrow> worker"
  next_worker :: wid
  cv_waiters :: "wid list"
  wait_cv_waiters :: "tid list"
  wpcs :: "wid \<Rightarrow> wpc"
  cpcs :: "tid \<Rightarrow> cpc"
  stuck :: bool
  faulted :: bool
  futures :: "nat \<Rightarrow> (nat + 'r) option"
  inserted :: "task list"
  started :: "task list"
  finished :: "task list"
  rejected :: "task list"

section \<open>The members that assume the lock is held\<close>

definition is_terminated_locked :: "'r exe \<Rightarrow> bool" where
  "is_terminated_locked s \<longleftrightarrow> shut s \<and> task_queue s = [] \<and> workers s = []"

definition is_terminated :: "'r exe \<Rightarrow> bool" where
  [simp]: "is_terminated s \<longleftrightarrow> is_terminated_locked s"

definition Worker :: "bool \<Rightarrow> nat \<Rightarrow> worker" where
  [simp]: "Worker c index = \<lparr>core = c, worker_index = index\<rparr>"

text \<open>The constructor of \<open>Worker\<close> starts its thread, which is then at the top of its loop.\<close>

definition add_worker_locked :: "bool \<Rightarrow> 'r exe \<Rightarrow> 'r exe" where
  "add_worker_locked c s =
     s\<lparr>worker_info := (worker_info s)(next_worker s := Worker c (length (workers s))),
       workers := workers s @ [next_worker s], wpcs := (wpcs s)(next_worker s := W_top),
       next_worker := Suc (next_worker s)\<rparr>"

definition notify_cv_one :: "nat \<Rightarrow> 'r exe \<Rightarrow> 'r exe option" where
  "notify_cv_one i s =
     (if cv_waiters s = [] then Some s
      else if i < length (cv_waiters s)
      then Some (s\<lparr>cv_waiters := take i (cv_waiters s) @ drop (Suc i) (cv_waiters s)\<rparr>) else None)"

definition insert_task_locked :: "task \<Rightarrow> nat \<Rightarrow> 'r exe \<Rightarrow> 'r exe option" where
  "insert_task_locked t i s =
     (let s = s\<lparr>task_queue := task_queue s @ [t], inserted := inserted s @ [t]\<rparr>;
          idle_workers = of_nat (length (workers s)) - active_count s;
          s = (if idle_workers = 0 \<and> length (workers s) < unat (max_pool_size s)
               then add_worker_locked False s else s)
      in notify_cv_one i s)"

text \<open>Joining and destroying the dead workers.\<close>

definition reap_dead_workers_locked :: "'r exe \<Rightarrow> 'r exe" where
  "reap_dead_workers_locked s =
     s\<lparr>wpcs := (\<lambda>w. if w \<in> set (dead_workers s) then W_none else wpcs s w), dead_workers := []\<rparr>"

text \<open>
  \<open>remove_self_locked\<close> of worker \<open>w\<close>: swap with the last element, fix the index of the element
  swapped in, move the last element to \<open>dead_workers\<close>.
\<close>

definition remove_self_locked :: "wid \<Rightarrow> 'r exe \<Rightarrow> 'r exe option" where
  "remove_self_locked w s =
     (let i = worker_index (worker_info s w); ws = workers s; l = length ws - 1
      in if i < length ws then
           (let ws = ws[i := ws ! l, l := ws ! i]; u = ws ! i
            in Some (s\<lparr>worker_info := (worker_info s)(u := (worker_info s u)\<lparr>worker_index := i\<rparr>),
                       dead_workers := dead_workers s @ [last ws], workers := butlast ws\<rparr>))
         else None)"

section \<open>The worker loop\<close>

definition take_task :: "wid \<Rightarrow> 'r exe \<Rightarrow> 'r exe" where
  "take_task w s =
     s\<lparr>task_queue := tl (task_queue s), started := started s @ [hd (task_queue s)],
       active_count := active_count s + 1, wpcs := (wpcs s)(w := W_running (hd (task_queue s)))\<rparr>"

definition wait_for_task :: "wid \<Rightarrow> 'r exe \<Rightarrow> 'r exe" where
  "wait_for_task w s = s\<lparr>cv_waiters := w # cv_waiters s, wpcs := (wpcs s)(w := W_waiting)\<rparr>"

definition leave_loop :: "wid \<Rightarrow> 'r exe \<Rightarrow> 'r exe" where
  "leave_loop w s = s\<lparr>wpcs := (wpcs s)(w := W_exiting)\<rparr>"

text \<open>The top of the loop in \<open>run\<close>, with \<open>fetch_task_locked\<close> up to its wait.\<close>

definition run_top :: "wid \<Rightarrow> 'r exe \<Rightarrow> 'r exe" where
  "run_top w s =
     (if shut s \<and> task_queue s = [] then leave_loop w s
      else if task_queue s \<noteq> [] then take_task w s
      else wait_for_task w s)"

text \<open>After a wake-up, \<open>fetch_task_locked\<close> tests the predicate of the wait; with it true and no task
  it returns the empty pointer.\<close>

definition fetch_retest :: "wid \<Rightarrow> 'r exe \<Rightarrow> 'r exe" where
  "fetch_retest w s =
     (if task_queue s \<noteq> [] then take_task w s
      else if shut s then leave_loop w s
      else wait_for_task w s)"

text \<open>\<open>(*task)()\<close>: a \<open>packaged_task\<close> stores the result or the exception in its future, an
  \<open>UntrackableTask\<close> swallows both.\<close>

definition run_task :: "(nat \<Rightarrow> nat + 'r) \<Rightarrow> wid \<Rightarrow> task \<Rightarrow> 'r exe \<Rightarrow> 'r exe" where
  "run_task outcome w t s =
     s\<lparr>futures := (case t of Task i \<Rightarrow> (futures s)(i \<mapsto> outcome i) | UntrackableTask i \<Rightarrow> futures s),
       finished := finished s @ [t], wpcs := (wpcs s)(w := W_ran)\<rparr>"

text \<open>The rest of the iteration, with the lock taken again.\<close>

definition after_task :: "wid \<Rightarrow> 'r exe \<Rightarrow> 'r exe" where
  "after_task w s =
     (let s = reap_dead_workers_locked s
      in s\<lparr>active_count := active_count s - 1, wpcs := (wpcs s)(w := W_top)\<rparr>)"

definition exit_worker :: "wid \<Rightarrow> 'r exe \<Rightarrow> 'r exe" where
  "exit_worker w s =
     (case remove_self_locked w s of
        None \<Rightarrow> s\<lparr>faulted := True\<rparr>
      | Some s \<Rightarrow> s\<lparr>wpcs := (wpcs s)(w := W_dead),
           wait_cv_waiters := (if is_terminated_locked s then [] else wait_cv_waiters s)\<rparr>)"

section \<open>Clients\<close>

definition to_cpc :: "tid \<Rightarrow> cpc \<Rightarrow> 'r exe \<Rightarrow> 'r exe" where
  "to_cpc c p s = s\<lparr>cpcs := (cpcs s)(c := p)\<rparr>"

definition exe_shutdown :: "'r exe \<Rightarrow> 'r exe" where
  "exe_shutdown s =
     (let s = s\<lparr>shut := True\<rparr>
      in if is_terminated_locked s then s\<lparr>wait_cv_waiters := []\<rparr> else s\<lparr>cv_waiters := []\<rparr>)"

text \<open>\<open>await_termination\<close> returns, to its caller or to the destructor, which reaps.\<close>

definition awaited :: "tid \<Rightarrow> bool \<Rightarrow> 'r exe \<Rightarrow> 'r exe" where
  "awaited c destroying s = to_cpc c C_out (if destroying then reap_dead_workers_locked s else s)"

definition await_check :: "tid \<Rightarrow> bool \<Rightarrow> 'r exe \<Rightarrow> 'r exe" where
  "await_check c destroying s =
     (if is_terminated s then awaited c destroying s else to_cpc c (C_await_lock destroying) s)"

definition await_block :: "tid \<Rightarrow> bool \<Rightarrow> 'r exe \<Rightarrow> 'r exe" where
  "await_block c destroying s =
     (if is_terminated_locked s then awaited c destroying s
      else to_cpc c (C_blocked destroying) (s\<lparr>wait_cv_waiters := c # wait_cv_waiters s\<rparr>))"

text \<open>
  The destructor up to its call of \<open>shutdown\<close>; it goes on with \<open>await_termination\<close> (whose caller is
  then marked as destroying) and reaps when that returns.
\<close>

definition destructor :: "tid \<Rightarrow> 'r exe \<Rightarrow> 'r exe" where
  [simp]: "destructor c s = (if is_terminated s then awaited c True s else to_cpc c C_destroy s)"

section \<open>Events\<close>

datatype xevent =
    E_submit tid task
  | E_insert tid nat
  | E_shutdown tid
  | E_await tid
  | E_await_lock tid
  | E_await_wake tid
  | E_await_retest tid
  | E_await_until tid
  | E_until_lock tid
  | E_destroy tid
  | E_destroy_shutdown tid
  | E_destroy_await tid
  | E_top wid
  | E_wake wid
  | E_retest wid
  | E_timeout wid
  | E_run wid
  | E_after_task wid
  | E_exit wid

text \<open>The client's events; all but the test of \<open>shut\<close> in \<open>submit\<close> need \<open>main_lock\<close>.\<close>

fun client_step :: "xevent \<Rightarrow> 'r exe \<Rightarrow> 'r exe option" where
  "client_step (E_insert c i) s =
     (case cpcs s c of
        C_submitting t \<Rightarrow> map_option (to_cpc c C_out) (insert_task_locked t i s) | _ \<Rightarrow> None)"
| "client_step (E_shutdown c) s = (if cpcs s c = C_out then Some (exe_shutdown s) else None)"
| "client_step (E_await c) s = (if cpcs s c = C_out then Some (await_check c False s) else None)"
| "client_step (E_await_lock c) s =
     (case cpcs s c of C_await_lock d \<Rightarrow> Some (await_block c d s) | _ \<Rightarrow> None)"
| "client_step (E_await_retest c) s =
     (case cpcs s c of
        C_blocked d \<Rightarrow> if c \<in> set (wait_cv_waiters s) then None else Some (await_block c d s)
      | _ \<Rightarrow> None)"
| "client_step (E_await_until c) s =
     (if cpcs s c = C_out
      then Some (if is_terminated s then s else to_cpc c C_until_lock s) else None)"
| "client_step (E_until_lock c) s =
     (if cpcs s c = C_until_lock
      then Some (if is_terminated_locked s then to_cpc c C_out s
                 else to_cpc c C_stuck (s\<lparr>stuck := True\<rparr>)) else None)"
| "client_step (E_destroy c) s =
     (if cpcs s c = C_out then Some (destructor c s) else None)"
| "client_step (E_destroy_shutdown c) s =
     (if cpcs s c = C_destroy then Some (to_cpc c C_destroy_await (exe_shutdown s)) else None)"
| "client_step (E_destroy_await c) s =
     (if cpcs s c = C_destroy_await then Some (await_check c True s) else None)"
| "client_step _ s = None"

fun worker_step :: "xevent \<Rightarrow> 'r exe \<Rightarrow> 'r exe option" where
  "worker_step (E_top w) s = (if wpcs s w = W_top then Some (run_top w s) else None)"
| "worker_step (E_retest w) s =
     (if wpcs s w = W_waiting \<and> w \<notin> set (cv_waiters s) then Some (fetch_retest w s) else None)"
| "worker_step (E_timeout w) s =
     (if wpcs s w = W_waiting \<and> w \<notin> set (cv_waiters s) \<and> \<not> core (worker_info s w) \<and>
         task_queue s = [] \<and> \<not> shut s
      then Some (leave_loop w s) else None)"
| "worker_step (E_after_task w) s = (if wpcs s w = W_ran then Some (after_task w s) else None)"
| "worker_step (E_exit w) s = (if wpcs s w = W_exiting then Some (exit_worker w s) else None)"
| "worker_step _ s = None"

text \<open>
  One step: the test of \<open>shut\<close> in \<open>submit\<close> and \<open>execute\<close>, the callable itself and the wake-ups
  need no lock, everything else is a section under \<open>main_lock\<close>.
\<close>

definition locked_step :: "xevent \<Rightarrow> 'r exe \<Rightarrow> 'r exe option" where
  "locked_step e s =
     (if stuck s \<or> faulted s then None
      else case client_step e s of Some s' \<Rightarrow> Some s' | None \<Rightarrow> worker_step e s)"

fun exe_step :: "(nat \<Rightarrow> nat + 'r) \<Rightarrow> xevent \<Rightarrow> 'r exe \<Rightarrow> 'r exe option" where
  "exe_step outcome (E_submit c t) s =
     (if cpcs s c = C_out
      then Some (if shut s then s\<lparr>rejected := rejected s @ [t]\<rparr> else to_cpc c (C_submitting t) s)
      else None)"
| "exe_step outcome (E_run w) s =
     (case wpcs s w of W_running t \<Rightarrow> Some (run_task outcome w t s) | _ \<Rightarrow> None)"
| "exe_step outcome (E_wake w) s =
     (if w \<in> set (cv_waiters s) then Some (s\<lparr>cv_waiters := removeAll w (cv_waiters s)\<rparr>) else None)"
| "exe_step outcome (E_await_wake c) s =
     (if c \<in> set (wait_cv_waiters s)
      then Some (s\<lparr>wait_cv_waiters := removeAll c (wait_cv_waiters s)\<rparr>) else None)"
| "exe_step outcome e s = locked_step e s"

section \<open>Construction\<close>

fun start_workers :: "nat \<Rightarrow> 'r exe \<Rightarrow> 'r exe" where
  "start_workers 0 s = s"
| "start_workers (Suc n) s = start_workers n (add_worker_locked True s)"

definition ThreadPoolExecutor :: "u64 \<Rightarrow> u64 \<Rightarrow> 'r exe" where
  "ThreadPoolExecutor core_size max_size = start_workers (unat core_size)
     \<lparr>core_pool_size = core_size, max_pool_size = max_size, task_queue = [], workers = [],
      dead_workers = [], shut = False, active_count = 0,
      worker_info = (\<lambda>_. \<lparr>core = False, worker_index = 0\<rparr>), next_worker = 1, cv_waiters = [],
      wait_cv_waiters = [], wpcs = (\<lambda>_. W_none), cpcs = (\<lambda>_. C_out), stuck = False,
      faulted = False, futures = Map.empty, inserted = [], started = [], finished = [], rejected = []\<rparr>"

definition make_single_thread_executor :: "'r exe" where
  "make_single_thread_executor = ThreadPoolExecutor 1 1"

definition make_fixed_thread_pool :: "u64 \<Rightarrow> 'r exe" where
  "make_fixed_thread_pool num_threads = ThreadPoolExecutor num_threads num_threads"

definition make_cached_thread_pool :: "'r exe" where
  "make_cached_thread_pool = ThreadPoolExecutor 1 1024"

definition get_pool_size :: "'r exe \<Rightarrow> nat" where
  "get_pool_size s = length (workers s)"

definition is_shutdown :: "'r exe \<Rightarrow> bool" where
  "is_shutdown s = shut s"

definition get_active_count :: "'r exe \<Rightarrow> u64" where
  "get_active_count s = active_count s"

section \<open>The vector of workers\<close>

definition living :: "wpc \<Rightarrow> bool" where
  "living p \<longleftrightarrow> p \<noteq> W_none \<and> p \<noteq> W_dead"

definition indexed :: "(wid \<Rightarrow> worker) \<Rightarrow> wid list \<Rightarrow> bool" where
  "indexed info ws \<longleftrightarrow> (\<forall>i < length ws. worker_index (info (ws ! i)) = i)"

text \<open>
  Every worker knows its place in \<open>workers\<close>; the vector holds exactly the living workers, the other
  one exactly those that have ended, and the pool never exceeds the larger of its two sizes.
\<close>

definition x_pool :: "'r exe \<Rightarrow> bool" where
  "x_pool s \<longleftrightarrow> indexed (worker_info s) (workers s) \<and> (\<forall>w. w \<in> set (workers s) \<longleftrightarrow> living (wpcs s w)) \<and>
     (\<forall>w. w \<in> set (dead_workers s) \<longleftrightarrow> wpcs s w = W_dead) \<and>
     (\<forall>w \<ge> next_worker s. wpcs s w = W_none) \<and> \<not> faulted s \<and>
     length (workers s) \<le> max (unat (core_pool_size s)) (unat (max_pool_size s))"

lemma living_simps [simp]:
  "\<not> living W_none" "\<not> living W_dead" "living W_top" "living W_waiting" "living (W_running t)"
  "living W_ran" "living W_exiting"
  by (simp_all add: living_def)

lemma indexed_distinct: "indexed info ws \<Longrightarrow> distinct ws"
  unfolding distinct_conv_nth indexed_def by metis

text \<open>Swapping element \<open>i\<close> with the last one, fixing the index of the latter and dropping the end.\<close>

lemma swap_pop:
  assumes ix: "indexed info ws" and i: "i < length ws"
    and us: "us = ws[i := ws ! (length ws - 1), length ws - 1 := ws ! i]"
  shows "last us = ws ! i" "set (butlast us) = set ws - {ws ! i}" "length ws = Suc (length (butlast us))"
    "indexed (info(us ! i := (info (us ! i))\<lparr>worker_index := i\<rparr>)) (butlast us)"
proof -
  let ?l = "length ws - 1"
  have d: "distinct ws" using ix by (rule indexed_distinct)
  have l: "?l < length ws" using i by simp
  have len: "length us = length ws" by (simp add: us)
  have ne: "us \<noteq> []" using len i by auto
  show last: "last us = ws ! i" using ne l i len by (simp add: last_conv_nth us)
  show "length ws = Suc (length (butlast us))" using len i by simp
  have "mset us = mset ws" unfolding us using i l by (intro mset_swap) auto
  moreover have "us = butlast us @ [ws ! i]" using append_butlast_last_id [OF ne] last by simp
  ultimately have m: "add_mset (ws ! i) (mset (butlast us)) = mset ws"
    by (metis add_mset_add_single mset.simps(1,2) mset_append)
  then have "distinct (ws ! i # butlast us)" using d by (metis mset.simps(2) mset_eq_imp_distinct_iff)
  moreover have "set ws = insert (ws ! i) (set (butlast us))" using m by (metis set_mset_add_mset_insert set_mset_mset)
  ultimately show "set (butlast us) = set ws - {ws ! i}" by auto
  have usi: "us ! i = ws ! ?l" using i l by (auto simp: us nth_list_update)
  have "butlast us ! j = (if j = i then ws ! ?l else ws ! j) \<and> (j \<noteq> i \<longrightarrow> ws ! j \<noteq> us ! i)"
    if j: "j < length (butlast us)" for j
    using j len usi nth_eq_iff_index_eq [OF d, of j ?l] by (auto simp: us nth_butlast nth_list_update)
  then show "indexed (info(us ! i := (info (us ! i))\<lparr>worker_index := i\<rparr>)) (butlast us)"
    using ix usi len by (auto simp: indexed_def)
qed

lemma remove_self_spec:
  assumes ix: "indexed (worker_info s) (workers s)" and w: "w \<in> set (workers s)"
  obtains info ws where
    "remove_self_locked w s =
       Some (s\<lparr>worker_info := info, dead_workers := dead_workers s @ [w], workers := ws\<rparr>)"
    "indexed info ws" "set ws = set (workers s) - {w}" "length (workers s) = Suc (length ws)"
    "\<forall>u. core (info u) = core (worker_info s u)"
proof -
  let ?W = "workers s"
  obtain i where i: "i < length ?W" "?W ! i = w" "worker_index (worker_info s w) = i"
    using w ix by (metis in_set_conv_nth indexed_def)
  define us where "us = ?W[i := ?W ! (length ?W - 1), length ?W - 1 := ?W ! i]"
  note sp = swap_pop [OF ix i(1) us_def, unfolded i(2)]
  let ?info = "(worker_info s)(us ! i := (worker_info s (us ! i))\<lparr>worker_index := i\<rparr>)"
  have "remove_self_locked w s =
      Some (s\<lparr>worker_info := ?info, dead_workers := dead_workers s @ [w], workers := butlast us\<rparr>)"
    unfolding remove_self_locked_def Let_def i(3) us_def [symmetric] sp(1) using i(1) by (rule if_P)
  then show ?thesis using sp(4,2,3) by (rule that) (simp add: fun_upd_def)
qed

lemma x_pool_frame [simp]:
  "x_pool (s\<lparr>task_queue := q\<rparr>) = x_pool s" "x_pool (s\<lparr>shut := b\<rparr>) = x_pool s"
  "x_pool (s\<lparr>active_count := n\<rparr>) = x_pool s" "x_pool (s\<lparr>cv_waiters := l\<rparr>) = x_pool s"
  "x_pool (s\<lparr>wait_cv_waiters := l\<rparr>) = x_pool s" "x_pool (s\<lparr>cpcs := c\<rparr>) = x_pool s"
  "x_pool (s\<lparr>stuck := b\<rparr>) = x_pool s" "x_pool (s\<lparr>futures := f\<rparr>) = x_pool s"
  "x_pool (s\<lparr>inserted := ts\<rparr>) = x_pool s" "x_pool (s\<lparr>started := ts\<rparr>) = x_pool s"
  "x_pool (s\<lparr>finished := ts\<rparr>) = x_pool s" "x_pool (s\<lparr>rejected := ts\<rparr>) = x_pool s"
  "x_pool (to_cpc t p s) = x_pool s"
  by (simp_all add: x_pool_def to_cpc_def)

lemma x_pool_move:
  "\<lbrakk> x_pool s; living (wpcs s w); living p; f = (wpcs s)(w := p) \<rbrakk> \<Longrightarrow> x_pool (s\<lparr>wpcs := f\<rparr>)"
  by (auto simp: x_pool_def)

lemma x_pool_add:
  assumes "x_pool s" "length (workers s) < max (unat (core_pool_size s)) (unat (max_pool_size s))"
  shows "x_pool (add_worker_locked c s)"
proof -
  have "next_worker s \<notin> set (workers s)" "next_worker s \<notin> set (dead_workers s)"
    using assms(1) by (auto simp: x_pool_def)
  then show ?thesis using assms
    by (auto simp: x_pool_def add_worker_locked_def indexed_def nth_append less_Suc_eq
        dest: nth_mem)
qed

lemma x_pool_insert:
  assumes "x_pool s" "insert_task_locked t i s = Some s'" shows "x_pool s'"
  using assms x_pool_add [of "s\<lparr>task_queue := task_queue s @ [t], inserted := inserted s @ [t]\<rparr>" False]
  by (auto simp: insert_task_locked_def notify_cv_one_def Let_def add_worker_locked_def
      split: if_splits)

lemma x_pool_reap: "x_pool s \<Longrightarrow> x_pool (reap_dead_workers_locked s)"
  by (auto simp: x_pool_def reap_dead_workers_locked_def)

lemma x_pool_after: "\<lbrakk> x_pool s; wpcs s w = W_ran \<rbrakk> \<Longrightarrow> x_pool (after_task w s)"
  using x_pool_reap [of s] x_pool_move [of "reap_dead_workers_locked s" w W_top]
  by (auto simp: after_task_def Let_def reap_dead_workers_locked_def x_pool_def)

lemma x_pool_exit:
  assumes p: "x_pool s" and w: "wpcs s w = W_exiting" shows "x_pool (exit_worker w s)"
proof -
  have "w \<in> set (workers s)" "indexed (worker_info s) (workers s)"
    using p w by (auto simp: x_pool_def)
  then obtain info ws where r: "remove_self_locked w s =
       Some (s\<lparr>worker_info := info, dead_workers := dead_workers s @ [w], workers := ws\<rparr>)"
    "indexed info ws" "set ws = set (workers s) - {w}" "length (workers s) = Suc (length ws)"
    by (elim remove_self_spec)
  have "x_pool (s\<lparr>worker_info := info, dead_workers := dead_workers s @ [w], workers := ws,
      wpcs := (wpcs s)(w := W_dead)\<rparr>)"
    using p w r(2-4) by (auto simp: x_pool_def)
  then show ?thesis using r(1) by (simp add: exit_worker_def)
qed

lemmas client_defs = exe_shutdown_def await_check_def await_block_def awaited_def

lemma x_pool_client: "\<lbrakk> x_pool s; client_step e s = Some s' \<rbrakk> \<Longrightarrow> x_pool s'"
  by (cases e)
    (auto simp: client_defs Let_def x_pool_reap split: if_splits cpc.splits intro: x_pool_insert)

lemma x_pool_worker:
  assumes "x_pool s" "worker_step e s = Some s'" shows "x_pool s'"
  using assms
  by (cases e) (auto simp: run_top_def fetch_retest_def take_task_def wait_for_task_def leave_loop_def
      x_pool_exit x_pool_after split: if_splits intro!: x_pool_move)

section \<open>Tasks are taken in order, each once\<close>

definition x_fifo :: "'r exe \<Rightarrow> bool" where
  "x_fifo s \<longleftrightarrow> started s @ task_queue s = inserted s"

definition running :: "(wid \<Rightarrow> wpc) \<Rightarrow> wid set" where
  "running p = {w. \<exists>t. p w = W_running t}"

definition busy :: "(wid \<Rightarrow> wpc) \<Rightarrow> wid set" where
  "busy p = {w. p w = W_ran \<or> (\<exists>t. p w = W_running t)}"

fun task_of :: "wpc \<Rightarrow> task multiset" where
  "task_of (W_running t) = {#t#}"
| "task_of _ = {#}"

definition x_done :: "'r exe \<Rightarrow> bool" where
  "x_done s \<longleftrightarrow> finite (busy (wpcs s)) \<and>
     mset (started s) = mset (finished s) + (\<Sum>w \<in> busy (wpcs s). task_of (wpcs s w)) \<and>
     active_count s = of_nat (card (busy (wpcs s)))"

text \<open>The sections, as what they do to the pools of tasks and to the threads.\<close>

lemmas exe_defs = exe_shutdown_def await_check_def await_block_def awaited_def to_cpc_def
  reap_dead_workers_locked_def insert_task_locked_def notify_cv_one_def add_worker_locked_def
  run_top_def fetch_retest_def take_task_def wait_for_task_def leave_loop_def run_task_def
  after_task_def is_terminated_locked_def Let_def

lemma exit_worker_frame:
  "task_queue (exit_worker w s) = task_queue s" "inserted (exit_worker w s) = inserted s"
  "started (exit_worker w s) = started s" "finished (exit_worker w s) = finished s"
  "active_count (exit_worker w s) = active_count s" "shut (exit_worker w s) = shut s"
  "cv_waiters (exit_worker w s) = cv_waiters s" "futures (exit_worker w s) = futures s"
  "cpcs (exit_worker w s) = cpcs s" "stuck (exit_worker w s) = stuck s"
  by (simp_all add: exit_worker_def remove_self_locked_def Let_def)

lemma locked_cases:
  "locked_step e s = Some s' \<Longrightarrow>
     \<not> stuck s \<and> \<not> faulted s \<and> (client_step e s = Some s' \<or> worker_step e s = Some s')"
  by (auto simp: locked_step_def split: if_splits option.splits)

lemma step_cases:
  assumes "exe_step outcome e s = Some s'"
  obtains (client) "client_step e s = Some s'" "\<not> stuck s" "\<not> faulted s"
    | (work) "worker_step e s = Some s'" "\<not> stuck s" "\<not> faulted s"
    | (submit) c t where "e = E_submit c t" "cpcs s c = C_out"
        "s' = (if shut s then s\<lparr>rejected := rejected s @ [t]\<rparr> else to_cpc c (C_submitting t) s)"
    | (run) w t where "e = E_run w" "wpcs s w = W_running t" "s' = run_task outcome w t s"
    | (wake) w where "e = E_wake w" "w \<in> set (cv_waiters s)"
        "s' = s\<lparr>cv_waiters := removeAll w (cv_waiters s)\<rparr>"
    | (await_wake) c where "e = E_await_wake c"
        "s' = s\<lparr>wait_cv_waiters := removeAll c (wait_cv_waiters s)\<rparr>"
proof -
  have L: thesis if "locked_step e s = Some s'"
    using locked_cases [OF that] client work by blast
  show ?thesis
  proof (cases e)
  case (E_submit c t)
  then show ?thesis using assms submit by (simp split: if_splits)
next
  case (E_run w)
  then show ?thesis using assms run by (simp split: wpc.splits)
next
  case (E_wake w)
  then show ?thesis using assms wake by (simp split: if_splits)
next
  case (E_await_wake c)
  then show ?thesis using assms await_wake by (simp split: if_splits)
  qed (insert assms, rule L, simp)+
qed

lemma x_pool_step:
  assumes p: "x_pool s" and step: "exe_step outcome e s = Some s'" shows "x_pool s'"
  using step
proof (cases rule: step_cases)
  case client
  with p show ?thesis by (blast intro: x_pool_client)
next
  case work
  with p show ?thesis by (blast intro: x_pool_worker)
qed (use p in \<open>auto simp: run_task_def intro!: x_pool_move\<close>)

lemma x_fifo_step:
  assumes inv: "x_fifo s" and step: "exe_step outcome e s = Some s'" shows "x_fifo s'"
  using step
proof (cases rule: step_cases)
  case client
  with inv show ?thesis
    by (cases e) (auto simp: x_fifo_def exe_defs split: if_splits cpc.splits)
next
  case work
  with inv show ?thesis
    by (cases e) (auto simp: x_fifo_def exe_defs exit_worker_frame split: if_splits)
qed (use inv in \<open>auto simp: x_fifo_def exe_defs\<close>)

lemma busy_upd:
  "busy (p(w := c)) = (if c = W_ran \<or> (\<exists>t. c = W_running t) then insert w (busy p) else busy p - {w})"
  by (auto simp: busy_def)

lemma busy_task_upd:
  assumes "finite (busy p)"
  shows "(\<Sum>u \<in> busy (p(w := c)). task_of ((p(w := c)) u)) =
    (\<Sum>u \<in> busy p - {w}. task_of (p u)) + task_of c"
proof -
  have same: "(\<Sum>u \<in> busy p - {w}. task_of ((p(w := c)) u)) = (\<Sum>u \<in> busy p - {w}. task_of (p u))"
    by (intro sum.cong) auto
  show ?thesis
  proof (cases "c = W_ran \<or> (\<exists>t. c = W_running t)")
    case True
    then have "busy (p(w := c)) = insert w (busy p - {w})" by (auto simp: busy_upd)
    moreover have "(\<Sum>u \<in> insert w (busy p - {w}). task_of ((p(w := c)) u))
        = task_of c + (\<Sum>u \<in> busy p - {w}. task_of ((p(w := c)) u))"
      using assms by (subst sum.insert) auto
    ultimately show ?thesis using same by (simp only: ac_simps)
  next
    case False
    then have "task_of c = {#}" by (cases c) auto
    with False same show ?thesis by (simp add: busy_upd)
  qed
qed

lemma busy_task_split:
  assumes "finite (busy p)"
  shows "(\<Sum>u \<in> busy p. task_of (p u)) = (\<Sum>u \<in> busy p - {w}. task_of (p u)) + task_of (p w)"
  using busy_task_upd [OF assms, of w "p w"] by simp

text \<open>Moving one worker, with what it does to the count and to the tasks in progress.\<close>

lemma x_done_take:
  assumes "x_done s" "w \<notin> busy (wpcs s)"
  shows "x_done (take_task w s)"
  using assms busy_task_upd [of "wpcs s" w "W_running (hd (task_queue s))"]
  by (simp add: x_done_def take_task_def busy_upd)

lemma x_done_run:
  assumes "x_done s" "wpcs s w = W_running t"
  shows "x_done (run_task outcome w t s)"
proof -
  have "w \<in> busy (wpcs s)" using assms(2) by (auto simp: busy_def)
  then show ?thesis
    using assms busy_task_upd [of "wpcs s" w W_ran] busy_task_split [of "wpcs s" w]
    by (auto simp: x_done_def run_task_def busy_upd insert_absorb)
qed

lemma x_done_idle:
  assumes "x_done s" "w \<notin> busy (wpcs s)" "c \<noteq> W_ran" "\<And>t. c \<noteq> W_running t" "f = (wpcs s)(w := c)"
  shows "x_done (s\<lparr>wpcs := f\<rparr>)"
proof -
  have "task_of c = {#}" using assms(3,4) by (cases c) auto
  then show ?thesis
    using assms busy_task_upd [of "wpcs s" w c] by (simp add: x_done_def busy_upd)
qed

lemma x_done_back:
  assumes d: "x_done s" and w: "wpcs s w = W_ran"
  shows "x_done (s\<lparr>active_count := active_count s - 1, wpcs := (wpcs s)(w := W_top)\<rparr>)"
proof -
  have b: "w \<in> busy (wpcs s)" "finite (busy (wpcs s))" using d w by (auto simp: busy_def x_done_def)
  have "card (busy (wpcs s)) = Suc (card (busy (wpcs s) - {w}))"
    using card_Suc_Diff1 [OF b(2,1)] by (rule sym)
  then have "active_count s - 1 = of_nat (card (busy (wpcs s) - {w}))" using d by (simp add: x_done_def)
  then show ?thesis
    using d w b busy_task_upd [OF b(2), of w W_top] busy_task_split [OF b(2), of w]
    by (simp add: x_done_def busy_upd)
qed

lemma x_done_frame [simp]:
  "x_done (s\<lparr>task_queue := q\<rparr>) = x_done s" "x_done (s\<lparr>shut := b\<rparr>) = x_done s"
  "x_done (s\<lparr>cv_waiters := l\<rparr>) = x_done s" "x_done (s\<lparr>wait_cv_waiters := l\<rparr>) = x_done s"
  "x_done (s\<lparr>stuck := b\<rparr>) = x_done s" "x_done (s\<lparr>rejected := ts\<rparr>) = x_done s"
  "x_done (s\<lparr>inserted := ts\<rparr>) = x_done s" "x_done (s\<lparr>workers := ws\<rparr>) = x_done s"
  "x_done (s\<lparr>dead_workers := ws\<rparr>) = x_done s" "x_done (s\<lparr>worker_info := i\<rparr>) = x_done s"
  "x_done (s\<lparr>next_worker := n\<rparr>) = x_done s" "x_done (to_cpc c p s) = x_done s"
  by (simp_all add: x_done_def to_cpc_def)

lemma x_done_reap: "\<lbrakk> x_done s; x_pool s \<rbrakk> \<Longrightarrow> x_done (reap_dead_workers_locked s)"
proof -
  assume d: "x_done s" and p: "x_pool s"
  let ?p = "\<lambda>w. if w \<in> set (dead_workers s) then W_none else wpcs s w"
  have "busy ?p = busy (wpcs s)" using p by (auto simp: busy_def x_pool_def)
  moreover from this have "(\<Sum>w \<in> busy ?p. task_of (?p w)) = (\<Sum>w \<in> busy (wpcs s). task_of (wpcs s w))"
    using p by (intro sum.cong) (auto simp: x_pool_def busy_def)
  ultimately show "x_done (reap_dead_workers_locked s)"
    using d by (simp add: x_done_def reap_dead_workers_locked_def)
qed

lemma x_done_add:
  assumes d: "x_done s" and p: "x_pool s" shows "x_done (add_worker_locked c s)"
proof -
  have "next_worker s \<notin> busy (wpcs s)" using p by (auto simp: x_pool_def busy_def)
  then have "x_done (s\<lparr>wpcs := (wpcs s)(next_worker s := W_top)\<rparr>)"
    by (intro x_done_idle [OF d, where c = W_top]) auto
  then show ?thesis by (simp add: x_done_def add_worker_locked_def)
qed

lemma x_done_not_taking:
  assumes "x_done s" "w \<notin> busy (wpcs s)"
  shows "x_done (wait_for_task w s)" "x_done (leave_loop w s)"
  using x_done_idle [OF assms, of W_waiting, OF _ _ refl] x_done_idle [OF assms, of W_exiting, OF _ _ refl]
  by (simp_all add: x_done_def wait_for_task_def leave_loop_def)

lemma x_done_insert:
  assumes "x_done s" "x_pool s" "insert_task_locked t i s = Some s'" shows "x_done s'"
  using assms x_done_add [of "s\<lparr>task_queue := task_queue s @ [t], inserted := inserted s @ [t]\<rparr>" False]
  by (auto simp: insert_task_locked_def notify_cv_one_def Let_def split: if_splits)

lemma not_busy: "wpcs s w = c \<Longrightarrow> task_of c = {#} \<Longrightarrow> c \<noteq> W_ran \<Longrightarrow> w \<notin> busy (wpcs s)"
  by (auto simp: busy_def)

lemma x_done_exit:
  assumes d: "x_done s" and w: "wpcs s w = W_exiting" shows "x_done (exit_worker w s)"
proof -
  have "x_done (s\<lparr>wpcs := (wpcs s)(w := W_dead)\<rparr>)"
    using not_busy [OF w] by (intro x_done_idle [OF d, where c = W_dead]) auto
  then show ?thesis using d
    by (auto simp: exit_worker_def remove_self_locked_def Let_def x_done_def split: if_splits)
qed

lemma x_done_client: "\<lbrakk> x_done s; x_pool s; client_step e s = Some s' \<rbrakk> \<Longrightarrow> x_done s'"
  by (cases e)
    (auto simp: client_defs Let_def x_done_reap split: if_splits cpc.splits intro: x_done_insert)

lemma x_done_worker:
  assumes d: "x_done s" and p: "x_pool s" and step: "worker_step e s = Some s'" shows "x_done s'"
proof (cases e)
  case (E_top w)
  then have w: "wpcs s w = W_top" using step by (auto split: if_splits)
  from E_top step d not_busy [OF w] show ?thesis
    by (auto simp: run_top_def x_done_not_taking x_done_take split: if_splits)
next
  case (E_retest w)
  then have w: "wpcs s w = W_waiting" using step by (auto split: if_splits)
  from E_retest step d not_busy [OF w] show ?thesis
    by (auto simp: fetch_retest_def x_done_not_taking x_done_take split: if_splits)
next
  case (E_timeout w)
  then have w: "wpcs s w = W_waiting" using step by (auto split: if_splits)
  from E_timeout step d not_busy [OF w] show ?thesis
    by (auto simp: x_done_not_taking split: if_splits)
next
  case (E_after_task w)
  then have w: "wpcs s w = W_ran" "s' = after_task w s" using step by (auto split: if_splits)
  let ?r = "reap_dead_workers_locked s"
  have "wpcs ?r w = W_ran" using w p by (simp add: reap_dead_workers_locked_def x_pool_def)
  from x_done_back [OF x_done_reap [OF d p] this] show ?thesis
    using w(2) by (simp add: after_task_def Let_def)
next
  case (E_exit w)
  then show ?thesis using step d by (auto simp: x_done_exit split: if_splits)
qed (use step in auto)

lemma x_done_step:
  assumes d: "x_done s" and p: "x_pool s" and step: "exe_step outcome e s = Some s'"
  shows "x_done s'"
  using step
proof (cases rule: step_cases)
  case client
  with d p show ?thesis by (blast intro: x_done_client)
next
  case work
  with d p show ?thesis by (blast intro: x_done_worker)
qed (use d in \<open>auto simp: x_done_run\<close>)

section \<open>No task waits for a sleeping worker\<close>

text \<open>Workers that are about to look into the queue.\<close>

definition ready :: "'r exe \<Rightarrow> wid set" where
  "ready s = {w. wpcs s w = W_top \<or> wpcs s w = W_waiting \<and> w \<notin> set (cv_waiters s)}"

definition x_sleep :: "'r exe \<Rightarrow> bool" where
  "x_sleep s \<longleftrightarrow> distinct (cv_waiters s) \<and> (\<forall>w \<in> set (cv_waiters s). wpcs s w = W_waiting) \<and>
     (shut s \<longrightarrow> cv_waiters s = []) \<and>
     (cv_waiters s \<noteq> [] \<longrightarrow> length (task_queue s) \<le> card (ready s))"

lemma ready_finite: "x_pool s \<Longrightarrow> finite (ready s)"
  by (rule finite_subset [of _ "set (workers s)"]) (auto simp: ready_def x_pool_def)

lemma ready_mono:
  "\<lbrakk> x_pool s'; ready s \<subseteq> ready s'; length (task_queue s') \<le> length (task_queue s);
     length (task_queue s) \<le> card (ready s) \<rbrakk> \<Longrightarrow> length (task_queue s') \<le> card (ready s')"
  using card_mono [OF ready_finite, of s' "ready s"] by linarith

lemma x_sleep_take:
  assumes x: "x_sleep s" and p: "x_pool s" and w: "w \<in> ready s" and q: "task_queue s \<noteq> []"
  shows "x_sleep (take_task w s)"
proof -
  have "w \<notin> set (cv_waiters s)" using w x by (auto simp: ready_def x_sleep_def)
  moreover have "ready (take_task w s) = ready s - {w}" by (auto simp: ready_def take_task_def)
  moreover have "length (task_queue s) \<le> card (ready s) \<Longrightarrow>
      length (tl (task_queue s)) \<le> card (ready s - {w})"
    using w ready_finite [OF p] by (simp add: card_Diff_singleton)
  ultimately show ?thesis using x by (auto simp: x_sleep_def take_task_def)
qed

lemma x_sleep_wait:
  assumes "x_sleep s" "w \<in> ready s" "task_queue s = []" "\<not> shut s"
  shows "x_sleep (wait_for_task w s)"
  using assms by (auto simp: x_sleep_def wait_for_task_def ready_def)

lemma x_sleep_leave:
  assumes "x_sleep s" "w \<in> ready s" "task_queue s = []"
  shows "x_sleep (leave_loop w s)"
  using assms by (auto simp: x_sleep_def leave_loop_def ready_def)

text \<open>A change that leaves the sleepers, the queue and the ready workers (or adds to them).\<close>

lemma x_sleep_more:
  assumes "x_sleep s" "x_pool s'" "cv_waiters s' = cv_waiters s" "shut s' = shut s"
    "task_queue s' = task_queue s" "\<forall>w. wpcs s w = W_waiting \<longrightarrow> wpcs s' w = W_waiting"
    "\<forall>w. wpcs s w = W_top \<longrightarrow> wpcs s' w = W_top"
  shows "x_sleep s'"
proof -
  have "ready s \<subseteq> ready s'" using assms(3,6,7) by (auto simp: ready_def)
  with assms ready_mono [of s' s] show ?thesis by (auto simp: x_sleep_def)
qed

lemma x_sleep_notify:
  assumes d: "distinct (cv_waiters s)" "\<forall>w \<in> set (cv_waiters s). wpcs s w = W_waiting"
    "shut s \<longrightarrow> cv_waiters s = []"
    and q: "cv_waiters s \<noteq> [] \<longrightarrow> length (task_queue s) \<le> Suc (card (ready s))"
    and f: "finite (ready s)" and n: "notify_cv_one i s = Some s'"
  shows "x_sleep s'"
proof (cases "cv_waiters s = []")
  case True
  with n show ?thesis by (simp add: notify_cv_one_def x_sleep_def)
next
  case False
  let ?l = "cv_waiters s"
  have i: "i < length ?l" "s' = s\<lparr>cv_waiters := take i ?l @ drop (Suc i) ?l\<rparr>"
    using n False by (auto simp: notify_cv_one_def split: if_splits)
  have l: "?l = take i ?l @ ?l ! i # drop (Suc i) ?l" using i(1) by (rule id_take_nth_drop)
  with d(1) have dl: "distinct (take i ?l @ ?l ! i # drop (Suc i) ?l)" by simp
  then have s: "set (take i ?l @ drop (Suc i) ?l) = set ?l - {?l ! i}" using l
    by (metis Diff_insert_absorb distinct.simps(2) distinct_append list.set(2) set_append
        Un_insert_right disjoint_iff insertCI UnE)
  have m: "?l ! i \<in> set ?l" using i(1) by simp
  have "ready s' = insert (?l ! i) (ready s)"
    using s m d(2) i(2) unfolding ready_def by (simp del: set_append) blast
  moreover have "?l ! i \<notin> ready s" using m d(2) by (auto simp: ready_def)
  ultimately have "card (ready s') = Suc (card (ready s))" using f by simp
  moreover have "distinct (cv_waiters s')" using dl i(2) by auto
  moreover have "\<forall>w \<in> set (cv_waiters s'). wpcs s' w = W_waiting"
    using s i(2) d(2) by (simp del: set_append)
  ultimately show ?thesis using q False d(3) i(2) by (auto simp: x_sleep_def)
qed

lemma x_sleep_insert:
  assumes x: "x_sleep s" and p: "x_pool s" and n: "insert_task_locked t i s = Some s'"
  shows "x_sleep s'"
proof -
  let ?s = "s\<lparr>task_queue := task_queue s @ [t], inserted := inserted s @ [t]\<rparr>"
  let ?a = "if of_nat (length (workers s)) - active_count s = 0 \<and>
      length (workers s) < unat (max_pool_size s) then add_worker_locked False ?s else ?s"
  have n: "notify_cv_one i ?a = Some s'" using n by (simp add: insert_task_locked_def Let_def)
  have pa: "x_pool ?a"
    using p x_pool_add [of ?s False] by auto
  have none: "wpcs s (next_worker s) = W_none" using p by (simp add: x_pool_def)
  have same: "cv_waiters ?a = cv_waiters s" "shut ?a = shut s" "task_queue ?a = task_queue s @ [t]"
    "\<forall>w. wpcs s w = W_waiting \<longrightarrow> wpcs ?a w = W_waiting" "ready s \<subseteq> ready ?a"
    using none by (auto simp: add_worker_locked_def ready_def)
  have "length (task_queue s) \<le> card (ready s) \<Longrightarrow> length (task_queue ?a) \<le> Suc (card (ready ?a))"
    using card_mono [OF ready_finite [OF pa] same(5)] same(3) by simp
  with x same(1-4) show ?thesis
    by (intro x_sleep_notify [OF _ _ _ _ ready_finite [OF pa] n]) (auto simp: x_sleep_def)
qed

lemma x_sleep_shutdown:
  assumes x: "x_sleep s" and p: "x_pool s" shows "x_sleep (exe_shutdown s)"
proof -
  have "workers s = [] \<Longrightarrow> cv_waiters s = []"
  proof (rule ccontr)
    assume w: "workers s = []" "cv_waiters s \<noteq> []"
    then have "wpcs s (hd (cv_waiters s)) = W_waiting" using x by (simp add: x_sleep_def)
    then have "hd (cv_waiters s) \<in> set (workers s)" using p by (simp add: x_pool_def)
    with w show False by simp
  qed
  with x show ?thesis
    by (auto simp: x_sleep_def exe_shutdown_def is_terminated_locked_def Let_def ready_def)
qed

lemma x_sleep_frame [simp]:
  "x_sleep (s\<lparr>wait_cv_waiters := l\<rparr>) = x_sleep s" "x_sleep (s\<lparr>stuck := b\<rparr>) = x_sleep s"
  "x_sleep (s\<lparr>rejected := ts\<rparr>) = x_sleep s" "x_sleep (to_cpc c q s) = x_sleep s"
  by (simp_all add: x_sleep_def ready_def to_cpc_def)

lemma x_sleep_reap: "\<lbrakk> x_sleep s; x_pool s \<rbrakk> \<Longrightarrow> x_sleep (reap_dead_workers_locked s)"
  by (rule x_sleep_more [of s]) (auto simp: x_pool_reap reap_dead_workers_locked_def x_pool_def)

lemma x_sleep_client: "\<lbrakk> x_sleep s; x_pool s; client_step e s = Some s' \<rbrakk> \<Longrightarrow> x_sleep s'"
  by (cases e)
    (auto simp: await_check_def await_block_def awaited_def x_sleep_reap x_sleep_shutdown
      split: if_splits cpc.splits intro: x_sleep_insert)

lemma x_sleep_worker:
  assumes x: "x_sleep s" and p: "x_pool s" and step: "worker_step e s = Some s'" shows "x_sleep s'"
proof (cases e)
  case (E_top w)
  then have "w \<in> ready s" "s' = run_top w s" using step by (auto simp: ready_def split: if_splits)
  with x p show ?thesis
    by (auto simp: run_top_def x_sleep_take x_sleep_wait x_sleep_leave)
next
  case (E_retest w)
  then have "w \<in> ready s" "s' = fetch_retest w s" using step by (auto simp: ready_def split: if_splits)
  with x p show ?thesis
    by (auto simp: fetch_retest_def x_sleep_take x_sleep_wait x_sleep_leave)
next
  case (E_timeout w)
  then have "w \<in> ready s" "s' = leave_loop w s" "task_queue s = []"
    using step by (auto simp: ready_def split: if_splits)
  with x show ?thesis by (simp add: x_sleep_leave)
next
  case (E_after_task w)
  then have w: "wpcs s w = W_ran" "s' = after_task w s" using step by (auto split: if_splits)
  then show ?thesis
    by (intro x_sleep_more [OF x x_pool_worker [OF p step]])
      (use p in \<open>auto simp: after_task_def reap_dead_workers_locked_def Let_def x_pool_def\<close>)
next
  case (E_exit w)
  then have w: "wpcs s w = W_exiting" "s' = exit_worker w s" using step by (auto split: if_splits)
  have "\<forall>u. u \<noteq> w \<longrightarrow> wpcs (exit_worker w s) u = wpcs s u"
    by (simp add: exit_worker_def remove_self_locked_def Let_def)
  with w show ?thesis
    by (intro x_sleep_more [OF x x_pool_worker [OF p step]]) (auto simp: exit_worker_frame, (metis wpc.distinct)+)
qed (use step in auto)

lemma x_sleep_step:
  assumes x: "x_sleep s" and p: "x_pool s" and step: "exe_step outcome e s = Some s'"
  shows "x_sleep s'"
  using step
proof (cases rule: step_cases)
  case client
  with x p show ?thesis by (blast intro: x_sleep_client)
next
  case work
  with x p show ?thesis by (blast intro: x_sleep_worker)
next
  case (run w t)
  then show ?thesis
    by (intro x_sleep_more [OF x x_pool_step [OF p step]]) (auto simp: run_task_def)
next
  case (wake w)
  have "ready s \<subseteq> ready s'" using wake by (auto simp: ready_def)
  with x wake ready_mono [OF x_pool_step [OF p step] this] show ?thesis
    by (auto simp: x_sleep_def distinct_removeAll)
qed (use x in auto)

section \<open>Nobody sleeps through termination\<close>

definition x_await :: "'r exe \<Rightarrow> bool" where
  "x_await s \<longleftrightarrow> (is_terminated_locked s \<longrightarrow> wait_cv_waiters s = [])"

lemma x_await_client: "\<lbrakk> x_await s; client_step e s = Some s' \<rbrakk> \<Longrightarrow> x_await s'"
  by (cases e) (auto simp: x_await_def exe_defs split: if_splits cpc.splits)

lemma x_await_worker:
  assumes x: "x_await s" and p: "x_pool s" and step: "worker_step e s = Some s'" shows "x_await s'"
proof (cases e)
  case (E_exit w)
  then have "w \<in> set (workers s)" using p step by (simp add: x_pool_def split: if_splits)
  then show ?thesis using step E_exit
    by (auto simp: x_await_def exit_worker_def is_terminated_locked_def remove_self_locked_def Let_def
        split: if_splits)
next
  case (E_top w)
  then have "w \<in> set (workers s)" using p step by (simp add: x_pool_def split: if_splits)
  with E_top x step show ?thesis by (auto simp: x_await_def exe_defs split: if_splits)
next
  case (E_retest w)
  then have "w \<in> set (workers s)" using p step by (simp add: x_pool_def split: if_splits)
  with E_retest x step show ?thesis by (auto simp: x_await_def exe_defs split: if_splits)
qed (use x step in \<open>auto simp: x_await_def exe_defs split: if_splits\<close>)

lemma x_await_step:
  assumes x: "x_await s" and p: "x_pool s" and step: "exe_step outcome e s = Some s'"
  shows "x_await s'"
  using step
proof (cases rule: step_cases)
  case client
  with x show ?thesis by (blast intro: x_await_client)
next
  case work
  with x p show ?thesis by (blast intro: x_await_worker)
qed (use x in \<open>auto simp: x_await_def exe_defs\<close>)

section \<open>Futures\<close>

definition x_futures :: "(nat \<Rightarrow> nat + 'r) \<Rightarrow> 'r exe \<Rightarrow> bool" where
  "x_futures outcome s \<longleftrightarrow>
     (\<forall>i. futures s i = (if Task i \<in> set (finished s) then Some (outcome i) else None))"

lemma futures_client: "client_step e s = Some s' \<Longrightarrow> futures s' = futures s \<and> finished s' = finished s"
  by (cases e) (auto simp: exe_defs split: if_splits cpc.splits)

lemma futures_worker: "worker_step e s = Some s' \<Longrightarrow> futures s' = futures s \<and> finished s' = finished s"
  by (cases e) (auto simp: exe_defs exit_worker_frame split: if_splits)

lemma x_futures_step:
  assumes x: "x_futures outcome s" and step: "exe_step outcome e s = Some s'"
  shows "x_futures outcome s'"
  using step
proof (cases rule: step_cases)
  case client
  with x futures_client [of e s s'] show ?thesis by (simp add: x_futures_def)
next
  case work
  with x futures_worker [of e s s'] show ?thesis by (simp add: x_futures_def)
qed (use x in \<open>auto simp: x_futures_def exe_defs split: task.splits\<close>)

section \<open>The invariant\<close>

definition x_inv :: "(nat \<Rightarrow> nat + 'r) \<Rightarrow> 'r exe \<Rightarrow> bool" where
  "x_inv outcome s \<longleftrightarrow> x_pool s \<and> x_fifo s \<and> x_done s \<and> x_sleep s \<and> x_await s \<and> x_futures outcome s"

lemma x_inv_step: "\<lbrakk> x_inv outcome s; exe_step outcome e s = Some s' \<rbrakk> \<Longrightarrow> x_inv outcome s'"
  unfolding x_inv_def
  by (blast intro: x_pool_step x_fifo_step x_done_step x_sleep_step x_await_step x_futures_step)

interpretation exei: inv_system "exe_step outcome" "x_inv outcome" for outcome
  by unfold_locales (rule x_inv_step)

lemma start_workers_inv:
  "\<lbrakk> x_pool s; x_done s; x_sleep s; x_await s; x_fifo s; x_futures outcome s; \<not> shut s;
     length (workers s) + n \<le> unat (core_pool_size s) \<rbrakk> \<Longrightarrow> x_inv outcome (start_workers n s)"
proof (induction n arbitrary: s)
  case 0
  then show ?case by (simp add: x_inv_def)
next
  case (Suc n)
  let ?s = "add_worker_locked True s"
  have pool: "x_pool ?s" using Suc.prems(1,8) by (intro x_pool_add) auto
  moreover have "wpcs s (next_worker s) = W_none" using Suc.prems(1) by (simp add: x_pool_def)
  then have "x_sleep ?s"
    by (intro x_sleep_more [OF Suc.prems(3) pool]) (auto simp: add_worker_locked_def)
  ultimately show ?case using Suc.prems unfolding start_workers.simps
    by (intro Suc.IH) (auto simp: x_done_add, auto simp: add_worker_locked_def x_await_def
        is_terminated_locked_def x_fifo_def x_futures_def)
qed

lemma x_inv_init: "x_inv outcome (ThreadPoolExecutor core_size max_size)"
  unfolding ThreadPoolExecutor_def
  by (rule start_workers_inv)
    (auto simp: x_pool_def indexed_def x_done_def busy_def x_sleep_def x_await_def
      is_terminated_locked_def x_fifo_def x_futures_def)

lemma start_workers_size [simp]:
  "max_pool_size (start_workers n s) = max_pool_size s" "core_pool_size (start_workers n s) = core_pool_size s"
  by (induction n arbitrary: s) (simp_all add: add_worker_locked_def)

lemma sizes_step:
  "exe_step outcome e s = Some s' \<Longrightarrow>
     max_pool_size s' = max_pool_size s \<and> core_pool_size s' = core_pool_size s"
proof (elim step_cases)
  assume "client_step e s = Some s'"
  then show ?thesis by (cases e) (auto simp: exe_defs split: if_splits cpc.splits)
next
  assume "worker_step e s = Some s'"
  then show ?thesis
    by (cases e) (auto simp: exe_defs exit_worker_def remove_self_locked_def split: if_splits)
qed (auto simp: exe_defs)

lemma reachable_exe:
  assumes "runs (exe_step outcome) es (ThreadPoolExecutor core_size max_size) = Some s"
  shows "x_inv outcome s" "max_pool_size s = max_size" "core_pool_size s = core_size"
proof -
  show "x_inv outcome s" using exei.runs_inv [OF x_inv_init assms] .
  have "max_pool_size s = max_pool_size (ThreadPoolExecutor core_size max_size :: 'a exe)"
    "core_pool_size s = core_pool_size (ThreadPoolExecutor core_size max_size :: 'a exe)"
    using exei.runs_const [OF _ x_inv_init assms, of max_pool_size]
      exei.runs_const [OF _ x_inv_init assms, of core_pool_size] sizes_step by blast+
  then show "max_pool_size s = max_size" "core_pool_size s = core_size"
    by (simp_all add: ThreadPoolExecutor_def)
qed

end
