(* ===== verification/Executor_Properties.thy ===== *)
theory Executor_Properties
  imports Executor
begin

text \<open>
  The properties of \<open>ThreadPoolExecutor\<close>: what holds in every schedule (the pool, the order of the
  tasks, the futures, termination), the single-thread executor, and the schedules in which a task is
  stranded or the executor hangs.
\<close>

section \<open>Every schedule\<close>

lemma busy_workers: "x_pool s \<Longrightarrow> busy (wpcs s) \<subseteq> set (workers s)"
  by (auto simp: busy_def x_pool_def)

text \<open>
  C5: the pool is well managed.  In every schedule of clients and workers no worker uses an index
  outside the vector, every worker's index is its position (so \<open>remove_self_locked\<close> removes the
  caller and nobody else), the pool never exceeds the larger of the two sizes (so the reserved vectors
  are not reallocated), and \<open>active_count\<close> is at most the pool size, so \<open>idle_workers\<close> does not
  wrap around.
\<close>

theorem exe_pool_safe:
  assumes "runs (exe_step outcome) es (ThreadPoolExecutor core_size max_size) = Some s"
  shows "\<not> faulted s \<and> (\<forall>i < length (workers s). worker_index (worker_info s (workers s ! i)) = i) \<and>
    length (workers s) \<le> max (unat core_size) (unat max_size) \<and>
    unat (active_count s) \<le> length (workers s)"
proof -
  note r = reachable_exe [OF assms]
  have p: "x_pool s" and d: "x_done s" using r(1) by (simp_all add: x_inv_def)
  have "unat (active_count s) \<le> card (busy (wpcs s))"
    using d by (simp add: x_done_def unat_of_nat take_bit_nat_less_eq_self)
  also have "\<dots> \<le> card (set (workers s))"
    using busy_workers [OF p] by (intro card_mono) auto
  also have "\<dots> \<le> length (workers s)" by (rule card_length)
  finally show ?thesis using p r(2,3) by (auto simp: x_pool_def indexed_def)
qed

theorem exe_pool_safe_witness:
  "\<exists>s :: unit exe. runs (exe_step (\<lambda>_. Inr ())) [E_submit 0 (Task 7), E_insert 0 0, E_top 1, E_run 1]
     (ThreadPoolExecutor 1 4) = Some s \<and> unat (active_count s) \<le> length (workers s)"
proof -
  let ?es = "[E_submit 0 (Task 7), E_insert 0 0, E_top 1, E_run 1]"
  have "runs (exe_step (\<lambda>_. Inr ())) ?es (ThreadPoolExecutor 1 4 :: unit exe) \<noteq> None" by code_simp
  then obtain s where s: "runs (exe_step (\<lambda>_. Inr ())) ?es (ThreadPoolExecutor 1 4 :: unit exe) = Some s"
    by blast
  with exe_pool_safe [OF s] show ?thesis by blast
qed

text \<open>
  C1: tasks are started in the order in which they were inserted, each exactly once; the started
  tasks are the finished ones and the ones a worker is executing now; and every future of a finished
  task holds what its callable returned or threw, every other future nothing.
\<close>

theorem exe_tasks_once_in_order:
  assumes "runs (exe_step outcome) es (ThreadPoolExecutor core_size max_size) = Some s"
  shows "started s @ task_queue s = inserted s \<and>
    mset (started s) = mset (finished s) + (\<Sum>w \<in> busy (wpcs s). task_of (wpcs s w)) \<and>
    (\<forall>i. futures s i = (if Task i \<in> set (finished s) then Some (outcome i) else None))"
  using reachable_exe(1) [OF assms]
  by (simp add: x_inv_def x_fifo_def x_done_def x_futures_def)

theorem exe_tasks_once_in_order_witness:
  "\<exists>s :: unit exe. runs (exe_step (\<lambda>_. Inl 5)) [E_submit 0 (Task 7), E_insert 0 0, E_top 1, E_run 1]
     (ThreadPoolExecutor 1 4) = Some s \<and> started s @ task_queue s = inserted s"
proof -
  let ?es = "[E_submit 0 (Task 7), E_insert 0 0, E_top 1, E_run 1]"
  have "runs (exe_step (\<lambda>_. Inl 5)) ?es (ThreadPoolExecutor 1 4 :: unit exe) \<noteq> None" by code_simp
  then obtain s where s: "runs (exe_step (\<lambda>_. Inl 5)) ?es (ThreadPoolExecutor 1 4 :: unit exe) = Some s"
    by blast
  with exe_tasks_once_in_order [OF s] show ?thesis by blast
qed

text \<open>
  C6: no task waits for a sleeping worker.  While tasks are queued, some worker is blocked on the
  condition variable, and no thread has deadlocked itself holding \<open>main_lock\<close> in
  \<open>await_termination_until\<close> (\<open>\<not> stuck\<close>), there are at least as many workers about to look into
  the queue as there are tasks, and each of them can make its next step now and takes the first
  task with it.
\<close>

theorem exe_no_sleeping_on_tasks:
  assumes "runs (exe_step outcome) es (ThreadPoolExecutor core_size max_size) = Some s"
    and "cv_waiters s \<noteq> []" "task_queue s \<noteq> []" "\<not> stuck s"
  shows "length (task_queue s) \<le> card (ready s) \<and>
    (\<forall>w \<in> ready s. \<exists>s'.
      (exe_step outcome (E_top w) s = Some s' \<or> exe_step outcome (E_retest w) s = Some s') \<and>
      wpcs s' w = W_running (hd (task_queue s)))"
proof -
  have inv: "x_pool s" "x_sleep s" using reachable_exe(1) [OF assms(1)] by (simp_all add: x_inv_def)
  then have le: "length (task_queue s) \<le> card (ready s)" using assms(2) by (simp add: x_sleep_def)
  have f: "\<not> faulted s" using inv(1) by (simp add: x_pool_def)
  have "\<exists>s'. (exe_step outcome (E_top w) s = Some s' \<or> exe_step outcome (E_retest w) s = Some s') \<and>
      wpcs s' w = W_running (hd (task_queue s))" if "w \<in> ready s" for w
    using that f assms(3,4)
    by (auto simp: ready_def locked_step_def run_top_def fetch_retest_def take_task_def)
  with le show ?thesis by blast
qed

theorem exe_no_sleeping_on_tasks_witness:
  "\<exists>s :: unit exe. runs (exe_step (\<lambda>_. Inr ())) [E_top 1, E_top 2, E_submit 0 (Task 7), E_insert 0 0]
     (ThreadPoolExecutor 2 4) = Some s \<and> length (task_queue s) \<le> card (ready s) \<and>
     2 \<in> ready s \<and> (\<exists>s'. wpcs s' 2 = W_running (Task 7) \<and>
       (exe_step (\<lambda>_. Inr ()) (E_top 2) s = Some s' \<or> exe_step (\<lambda>_. Inr ()) (E_retest 2) s = Some s'))"
proof -
  let ?es = "[E_top 1, E_top 2, E_submit 0 (Task 7), E_insert 0 0]"
  have "map_option (\<lambda>s. (cv_waiters s, task_queue s, stuck s, wpcs s 2))
      (runs (exe_step (\<lambda>_. Inr ())) ?es (ThreadPoolExecutor 2 4 :: unit exe))
    = Some ([1], [Task 7], False, W_waiting)"
    by code_simp
  then obtain s where s: "runs (exe_step (\<lambda>_. Inr ())) ?es (ThreadPoolExecutor 2 4 :: unit exe) = Some s"
    "cv_waiters s = [1]" "task_queue s = [Task 7]" "\<not> stuck s" "wpcs s 2 = W_waiting"
    by (elim map_option_SomeE) auto
  have q: "cv_waiters s \<noteq> []" "task_queue s \<noteq> []" using s by simp_all
  have "2 \<in> ready s" using s(2,5) by (simp add: ready_def)
  with exe_no_sleeping_on_tasks [OF s(1) q s(4)] s(1,3) show ?thesis
    by (metis list.sel(1))
qed

text \<open>
  C22: termination means what it says.  When \<open>is_terminated\<close> answers true, every task that was ever
  inserted has been executed to its end, no worker is left, no thread is asleep in
  \<open>await_termination\<close>, and the destructor, which joins the dead workers next, leaves no thread behind.
\<close>

theorem exe_terminated_means_done:
  assumes "runs (exe_step outcome) es (ThreadPoolExecutor core_size max_size) = Some s"
    and "is_terminated_locked s"
  shows "mset (finished s) = mset (inserted s) \<and> get_pool_size s = 0 \<and> get_active_count s = 0 \<and>
    wait_cv_waiters s = [] \<and> (\<forall>w. wpcs (reap_dead_workers_locked s) w = W_none)"
proof -
  have inv: "x_pool s" "x_fifo s" "x_done s" "x_await s"
    using reachable_exe(1) [OF assms(1)] by (simp_all add: x_inv_def)
  have e: "task_queue s = []" "workers s = []" using assms(2) by (simp_all add: is_terminated_locked_def)
  then have "busy (wpcs s) = {}" using busy_workers [OF inv(1)] by simp
  moreover have "wpcs (reap_dead_workers_locked s) w = W_none" for w
  proof -
    have "\<not> living (wpcs s w)" using inv(1) e(2) by (auto simp: x_pool_def)
    moreover have "w \<in> set (dead_workers s) \<longleftrightarrow> wpcs s w = W_dead" using inv(1) by (simp add: x_pool_def)
    ultimately show ?thesis by (auto simp: living_def reap_dead_workers_locked_def)
  qed
  ultimately show ?thesis using inv e assms(2)
    by (simp add: x_fifo_def x_done_def x_await_def get_pool_size_def get_active_count_def)
qed

theorem exe_terminated_means_done_witness:
  "\<exists>s :: unit exe. runs (exe_step (\<lambda>_. Inr ()))
     [E_submit 0 (Task 7), E_insert 0 0, E_shutdown 0, E_await 0, E_await_lock 0, E_top 1, E_run 1,
      E_after_task 1, E_top 1, E_exit 1] (ThreadPoolExecutor 1 1) = Some s \<and>
     mset (finished s) = mset (inserted s) \<and> wait_cv_waiters s = []"
proof -
  let ?es = "[E_submit 0 (Task 7), E_insert 0 0, E_shutdown 0, E_await 0, E_await_lock 0, E_top 1, E_run 1,
      E_after_task 1, E_top 1, E_exit 1]"
  have "map_option is_terminated_locked
      (runs (exe_step (\<lambda>_. Inr ())) ?es (ThreadPoolExecutor 1 1 :: unit exe)) = Some True" by code_simp
  then obtain s where s: "runs (exe_step (\<lambda>_. Inr ())) ?es (ThreadPoolExecutor 1 1 :: unit exe) = Some s"
    "is_terminated_locked s" by (elim map_option_SomeE) simp
  with exe_terminated_means_done [OF s] show ?thesis by blast
qed

section \<open>One worker\<close>

definition x_serial :: "'r exe \<Rightarrow> bool" where
  "x_serial s \<longleftrightarrow> length (workers s) \<le> 1 \<and> (\<exists>ps. started s = finished s @ ps)"

text \<open>With one worker the tasks in progress are none or one.\<close>

lemma serial_pending:
  assumes inv: "x_inv outcome s" and ser: "x_serial s"
  shows "busy (wpcs s) = {} \<Longrightarrow> started s = finished s"
    "wpcs s w = W_running t \<Longrightarrow> started s = finished s @ [t]"
    "\<lbrakk> living (wpcs s w); w \<notin> busy (wpcs s) \<rbrakk> \<Longrightarrow> busy (wpcs s) = {}"
proof -
  have p: "x_pool s" and d: "x_done s" using inv by (simp_all add: x_inv_def)
  obtain ps where ps: "started s = finished s @ ps" using ser by (auto simp: x_serial_def)
  then have m: "mset ps = (\<Sum>w \<in> busy (wpcs s). task_of (wpcs s w))" using d by (simp add: x_done_def)
  then show "started s = finished s" if "busy (wpcs s) = {}" using that ps by simp
  have one: "set (workers s) \<subseteq> {w}" if "living (wpcs s w)" for w
  proof -
    have "w \<in> set (workers s)" using that p by (simp add: x_pool_def)
    then show ?thesis using ser by (cases "workers s") (auto simp: x_serial_def)
  qed
  show "busy (wpcs s) = {}" if "living (wpcs s w)" "w \<notin> busy (wpcs s)"
    using one [OF that(1)] busy_workers [OF p] that(2) by auto
  show "started s = finished s @ [t]" if w: "wpcs s w = W_running t"
  proof -
    have "busy (wpcs s) = {w}" using one [of w] busy_workers [OF p] w by (auto simp: busy_def)
    then have "mset ps = {#t#}" using m w by simp
    then show ?thesis using ps by simp
  qed
qed

lemma x_serial_step:
  assumes inv: "x_inv outcome s" and ser: "x_serial s" and step: "exe_step outcome e s = Some s'"
    and size: "length (workers s') \<le> 1"
  shows "x_serial s'"
  using step
proof (cases rule: step_cases)
  case client
  then have "started s' = started s \<and> finished s' = finished s"
    by (cases e) (auto simp: exe_defs split: if_splits cpc.splits)
  with ser size show ?thesis by (simp add: x_serial_def)
next
  case work
  have "started s' = started s \<or> (\<exists>w. living (wpcs s w) \<and> w \<notin> busy (wpcs s) \<and>
      started s' = started s @ [hd (task_queue s)])"
  proof (cases e)
    case (E_top w)
    with work(1) show ?thesis by (auto simp: exe_defs busy_def split: if_splits intro!: exI [of _ w])
  next
    case (E_retest w)
    with work(1) show ?thesis by (auto simp: exe_defs busy_def split: if_splits intro!: exI [of _ w])
  qed (use work(1) in \<open>auto simp: exe_defs exit_worker_frame split: if_splits\<close>)
  moreover have "finished s' = finished s" using futures_worker [OF work(1)] by simp
  ultimately show ?thesis using ser size serial_pending(1,3) [OF inv ser] by (auto simp: x_serial_def)
next
  case (run w t)
  with size serial_pending(2) [OF inv ser, of w t] show ?thesis
    by (auto simp: x_serial_def run_task_def)
qed (use ser in \<open>auto simp: x_serial_def to_cpc_def\<close>)

text \<open>
  C39: the single-thread executor runs tasks strictly one after the other: the tasks finish in the
  order in which they were inserted.
\<close>

theorem single_thread_executor_serial:
  assumes "runs (exe_step outcome) es make_single_thread_executor = Some s"
  shows "(\<exists>rest. inserted s = finished s @ rest) \<and> card (busy (wpcs s)) \<le> 1"
proof -
  have inv: "x_inv outcome s \<and> x_serial s"
    using assms
  proof (induction es arbitrary: s rule: rev_induct)
    case Nil
    then have "s = make_single_thread_executor" by simp
    then show ?case using x_inv_init [of outcome 1 1]
      by (simp add: make_single_thread_executor_def x_serial_def ThreadPoolExecutor_def
          add_worker_locked_def)
  next
    case (snoc e es)
    then obtain u where u: "runs (exe_step outcome) es make_single_thread_executor = Some u"
      "exe_step outcome e u = Some s" unfolding runs_snoc_iff by blast
    note iu = snoc.IH [OF u(1)]
    have "length (workers s) \<le> 1"
      using exe_pool_safe [OF snoc.prems [unfolded make_single_thread_executor_def]] by simp
    with iu u(2) show ?case by (blast intro: x_inv_step x_serial_step)
  qed
  then have "card (busy (wpcs s)) \<le> card (set (workers s))"
    using busy_workers [of s] by (intro card_mono) (auto simp: x_inv_def)
  also have "\<dots> \<le> 1" using inv card_length [of "workers s"] by (auto simp: x_serial_def)
  finally have "card (busy (wpcs s)) \<le> 1" .
  moreover have "\<exists>rest. inserted s = finished s @ rest"
    using inv by (auto simp: x_serial_def x_inv_def x_fifo_def) (metis append.assoc)
  ultimately show ?thesis by blast
qed

theorem single_thread_executor_serial_witness:
  "\<exists>s rest. runs (exe_step (\<lambda>_. Inr ())) [E_submit 0 (Task 7), E_insert 0 0, E_top 1, E_run 1]
     make_single_thread_executor = Some s \<and> inserted s = finished s @ rest"
proof -
  let ?es = "[E_submit 0 (Task 7), E_insert 0 0, E_top 1, E_run 1]"
  have "runs (exe_step (\<lambda>_. Inr ())) ?es make_single_thread_executor \<noteq> None" by code_simp
  then obtain s where s: "runs (exe_step (\<lambda>_. Inr ())) ?es make_single_thread_executor = Some s" by blast
  with single_thread_executor_serial [OF s] show ?thesis by blast
qed

section \<open>Where it goes wrong\<close>

text \<open>
  After shutdown, with a task left, no worker and nobody past the test in \<open>submit\<close>, nothing can move.
\<close>

definition abandoned :: "'r exe \<Rightarrow> bool" where
  "abandoned s \<longleftrightarrow> shut s \<and> task_queue s \<noteq> [] \<and> workers s = [] \<and> (\<forall>w. \<not> living (wpcs s w)) \<and>
     (\<forall>c t. cpcs s c \<noteq> C_submitting t)"

lemma abandoned_step:
  assumes a: "abandoned s" and step: "exe_step outcome e s = Some s'"
  shows "abandoned s'"
  using step
proof (cases rule: step_cases)
  case client
  with a show ?thesis
    by (cases e) (auto simp: abandoned_def exe_defs split: if_splits cpc.splits)
next
  case work
  then have "\<exists>w. living (wpcs s w)"
    by (cases e) (auto split: if_splits dest!: arg_cong [of _ _ living])
  with a show ?thesis by (simp add: abandoned_def)
next
  case (run w t)
  then have "living (wpcs s w)" by simp
  with a show ?thesis by (simp add: abandoned_def)
qed (use a in \<open>auto simp: abandoned_def\<close>)

interpretation exea: inv_system "exe_step outcome" abandoned for outcome
  by unfold_locales (rule abandoned_step)

text \<open>The race of \<open>submit\<close> with \<open>shutdown\<close> on a pool whose only worker is idle.\<close>

definition shutdown_race :: "xevent list" where
  "shutdown_race = [E_top 1, E_submit 0 (Task 7), E_shutdown 1, E_retest 1, E_insert 0 0, E_exit 1]"

lemma inserted_step: "exe_step outcome e s = Some s' \<Longrightarrow> set (inserted s) \<subseteq> set (inserted s')"
proof (elim step_cases)
  assume "client_step e s = Some s'"
  then show ?thesis by (cases e) (auto simp: exe_defs split: if_splits cpc.splits)
next
  assume "worker_step e s = Some s'"
  then show ?thesis by (cases e) (auto simp: exe_defs exit_worker_frame split: if_splits)
qed (auto simp: exe_defs)

lemma inserted_grows:
  "runs (exe_step outcome) es s = Some s' \<Longrightarrow> set (inserted s) \<subseteq> set (inserted s')"
  by (induction es arbitrary: s) (auto dest!: inserted_step)

lemma shutdown_race_abandons:
  assumes "runs (exe_step outcome) shutdown_race make_single_thread_executor = Some s"
  shows "abandoned s"
proof -
  have "wpcs s = (\<lambda>w. if w = 1 then W_dead else W_none) \<and> cpcs s = (\<lambda>_. C_out) \<and> shut s \<and>
      task_queue s = [Task 7] \<and> workers s = []"
    using assms
    by (auto simp: shutdown_race_def make_single_thread_executor_def ThreadPoolExecutor_def exe_defs
        locked_step_def exit_worker_def remove_self_locked_def)
  then show ?thesis by (auto simp: abandoned_def)
qed

text \<open>
  C40: a task submitted while the executor shuts down can be stranded and the executor never terminates.
  \<open>submit\<close> tests \<open>shut\<close> before it takes the lock; the idle worker decides to exit, the task is
  inserted (the exiting worker still counts as idle, so no worker is added), the worker leaves.  From
  there on, whatever is called, \<open>is_terminated\<close> stays false, so \<open>await_termination\<close> and the
  destructor block for ever.
\<close>

theorem exe_shutdown_race_hangs:
  assumes "runs (exe_step outcome) (shutdown_race @ es) make_single_thread_executor = Some s"
  shows "\<not> is_terminated_locked s \<and> Task 7 \<in> set (inserted s) \<and> (\<forall>w. \<not> living (wpcs s w))"
proof -
  obtain u where u: "runs (exe_step outcome) shutdown_race make_single_thread_executor = Some u"
    "runs (exe_step outcome) es u = Some s"
    using assms by (auto simp: runs_append)
  have "abandoned s" using exea.runs_inv [OF shutdown_race_abandons [OF u(1)] u(2)] .
  moreover have "Task 7 \<in> set (inserted s)"
  proof -
    have "Task 7 \<in> set (inserted u)" using u(1)
      by (auto simp: shutdown_race_def make_single_thread_executor_def ThreadPoolExecutor_def exe_defs
          locked_step_def exit_worker_def remove_self_locked_def)
    then show ?thesis using inserted_grows [OF u(2)] by blast
  qed
  ultimately show ?thesis by (auto simp: abandoned_def is_terminated_locked_def)
qed

theorem exe_shutdown_race_hangs_witness:
  "\<exists>s. runs (exe_step (\<lambda>_. Inr ())) (shutdown_race @ [E_await 0, E_await_lock 0])
     make_single_thread_executor = Some s \<and> \<not> is_terminated_locked s"
proof -
  have "runs (exe_step (\<lambda>_. Inr ())) (shutdown_race @ [E_await 0, E_await_lock 0])
      make_single_thread_executor \<noteq> None" by code_simp
  then obtain s where s: "runs (exe_step (\<lambda>_. Inr ())) (shutdown_race @ [E_await 0, E_await_lock 0])
      make_single_thread_executor = Some s" by blast
  with exe_shutdown_race_hangs [OF s] show ?thesis by blast
qed

text \<open>
  A worker that timed out still counts as idle until it has removed itself.  With no core threads
  a task inserted in that window is queued without a new worker, and is left without any worker when
  the old one has gone, although the pool may grow.
\<close>

lemma exe_timed_out_worker_strands_task:
  "map_option (\<lambda>s :: unit exe. (task_queue s, workers s, wpcs s 1, shut s, get_active_count s))
     (runs (exe_step (\<lambda>_. Inr ()))
       [E_submit 0 (Task 1), E_insert 0 0, E_top 1, E_run 1, E_after_task 1, E_top 1, E_wake 1, E_timeout 1,
        E_submit 0 (Task 2), E_insert 0 0, E_exit 1]
       (ThreadPoolExecutor 0 4))
   = Some ([Task 2], [], W_dead, False, 0)"
  by code_simp

text \<open>
  The pool does not grow when it should.  Two tasks submitted before the only worker has fetched
  the first both see an idle worker; the worker takes the first, and the second waits behind it with one
  worker in a pool that may have 1024, even if the first task waits for the second.
\<close>

lemma exe_cached_pool_does_not_grow:
  "map_option (\<lambda>s :: unit exe. (task_queue s, workers s, wpcs s 1, unat (max_pool_size s)))
     (runs (exe_step (\<lambda>_. Inr ()))
       [E_submit 0 (Task 1), E_insert 0 0, E_submit 0 (Task 2), E_insert 0 0, E_top 1]
       make_cached_thread_pool)
   = Some ([Task 2], [1], W_running (Task 1), 1024)"
  by code_simp

text \<open>
  \<open>await_termination_until\<close> deadlocks the whole executor.  Its wait predicate is
  \<open>is_terminated()\<close>, which locks \<open>main_lock\<close> while the caller holds it: on an executor that has
  not terminated the call gets stuck with the lock, and no section under the lock, of a worker or of a
  client, runs any more.
\<close>

lemma exe_await_until_deadlocks:
  assumes "cpcs s c = C_until_lock" "\<not> is_terminated_locked s" "\<not> stuck s" "\<not> faulted s"
  shows "\<exists>s'. exe_step outcome (E_until_lock c) s = Some s' \<and> cpcs s' c = C_stuck \<and>
    (\<forall>es s''. runs (exe_step outcome) es s' = Some s'' \<longrightarrow>
       workers s'' = workers s \<and> task_queue s'' = task_queue s \<and> shut s'' = shut s)"
proof -
  let ?s = "to_cpc c C_stuck (s\<lparr>stuck := True\<rparr>)"
  have frozen: "stuck t' \<and> workers t' = workers t \<and> task_queue t' = task_queue t \<and> shut t' = shut t"
    if "stuck t" "exe_step outcome e t = Some t'" for e and t t' :: "'a exe"
    using that(2) by (cases rule: step_cases) (use that(1) in \<open>auto simp: to_cpc_def run_task_def\<close>)
  have "stuck t \<Longrightarrow> runs (exe_step outcome) es t = Some t' \<Longrightarrow>
      workers t' = workers t \<and> task_queue t' = task_queue t \<and> shut t' = shut t" for es and t t' :: "'a exe"
  proof (induction es arbitrary: t)
    case (Cons e es)
    then obtain u where u: "exe_step outcome e t = Some u" "runs (exe_step outcome) es u = Some t'" by auto
    from frozen [OF Cons.prems(1) u(1)] Cons.IH [OF _ u(2)] show ?case by simp
  qed simp
  from this [of ?s] have "\<forall>es s''. runs (exe_step outcome) es ?s = Some s'' \<longrightarrow>
      workers s'' = workers s \<and> task_queue s'' = task_queue s \<and> shut s'' = shut s"
    by (simp add: to_cpc_def)
  moreover have "exe_step outcome (E_until_lock c) s = Some ?s"
    using assms by (simp add: locked_step_def)
  ultimately show ?thesis by (simp add: to_cpc_def)
qed

lemma exe_await_until_deadlocks_instance:
  "\<exists>s s'. runs (exe_step (\<lambda>_. Inr ())) [E_await_until 0] make_single_thread_executor = Some s \<and>
     exe_step (\<lambda>_. Inr ()) (E_until_lock 0) s = Some s' \<and> cpcs s' 0 = C_stuck"
proof -
  have "map_option (\<lambda>s. (cpcs s 0, is_terminated_locked s, stuck s, faulted s))
      (runs (exe_step (\<lambda>_. Inr ())) [E_await_until 0] make_single_thread_executor)
      = Some (C_until_lock, False, False, False)" by code_simp
  then obtain s where s: "runs (exe_step (\<lambda>_. Inr ())) [E_await_until 0] make_single_thread_executor = Some s"
    "cpcs s 0 = C_until_lock" "\<not> is_terminated_locked s" "\<not> stuck s" "\<not> faulted s"
    by (elim map_option_SomeE) auto
  from exe_await_until_deadlocks [OF s(2-5)] s(1) show ?thesis by blast
qed

end
