(* ===== verification/Executor_Shutdown.thy ===== *)
theory Executor_Shutdown
  imports Executor_Properties
begin

text \<open>
  Shutting down \<open>ThreadPoolExecutor\<close>: once \<open>shut\<close> is set the workers execute what is queued and leave,
  in a bounded number of steps, and \<open>await_termination\<close> returns, provided the queue is not left to
  workers that have all decided to exit already.
\<close>

fun worker_event :: "xevent \<Rightarrow> bool" where
  "worker_event (E_top w) = True"
| "worker_event (E_wake w) = True"
| "worker_event (E_retest w) = True"
| "worker_event (E_timeout w) = True"
| "worker_event (E_run w) = True"
| "worker_event (E_after_task w) = True"
| "worker_event (E_exit w) = True"
| "worker_event _ = False"

text \<open>The steps a worker can still make by itself; a queued task makes for at most four.\<close>

fun worker_rank :: "wpc \<Rightarrow> nat" where
  "worker_rank W_none = 0"
| "worker_rank W_top = 2"
| "worker_rank W_waiting = 2"
| "worker_rank (W_running t) = 4"
| "worker_rank W_ran = 3"
| "worker_rank W_exiting = 1"
| "worker_rank W_dead = 0"

definition drain_work :: "wid set \<Rightarrow> 'r exe \<Rightarrow> nat" where
  "drain_work T s = 4 * length (task_queue s) + (\<Sum>w\<in>T. worker_rank (wpcs s w))"

definition drains :: "'r exe \<Rightarrow> bool" where
  "drains s \<longleftrightarrow> task_queue s = [] \<or> (\<exists>w. living (wpcs s w) \<and> wpcs s w \<noteq> W_exiting)"

text \<open>What a worker does after \<open>shutdown\<close>.\<close>

lemma shut_worker_cases:
  assumes inv: "x_inv outcome s" and sh: "shut s" and e: "worker_event e"
    and step: "exe_step outcome e s = Some s'"
  obtains (leave) w where "wpcs s w = W_top \<or> wpcs s w = W_waiting" "task_queue s = []" "s' = leave_loop w s"
    | (take) w where "wpcs s w = W_top \<or> wpcs s w = W_waiting" "task_queue s \<noteq> []" "s' = take_task w s"
    | (run) w t where "wpcs s w = W_running t" "s' = run_task outcome w t s"
    | (again) w where "wpcs s w = W_ran" "s' = after_task w s"
    | (ends) w where "wpcs s w = W_exiting" "s' = exit_worker w s"
proof -
  have cv: "cv_waiters s = []" using inv sh by (simp add: x_inv_def x_sleep_def)
  show ?thesis
  proof (cases e)
    case (E_top w)
    then show ?thesis using step sh leave [of w] take [of w]
      by (auto simp: locked_step_def run_top_def split: if_splits)
  next
    case (E_retest w)
    then show ?thesis using step sh leave [of w] take [of w]
      by (auto simp: locked_step_def fetch_retest_def split: if_splits)
  next
    case (E_run w)
    then show ?thesis using step run by (auto split: wpc.splits)
  next
    case (E_after_task w)
    then show ?thesis using step again by (auto simp: locked_step_def split: if_splits)
  next
    case (E_exit w)
    then show ?thesis using step ends by (auto simp: locked_step_def split: if_splits)
  qed (use step sh cv e in \<open>auto simp: locked_step_def split: if_splits\<close>)
qed

lemma rank_move:
  assumes "finite T" "w \<in> T" "\<And>u. u \<noteq> w \<Longrightarrow> worker_rank (wpcs s' u) = worker_rank (wpcs s u)"
    and "4 * length (task_queue s') + worker_rank (wpcs s' w) < 4 * length (task_queue s) + worker_rank (wpcs s w)"
  shows "drain_work T s' < drain_work T s"
  using sum_change_one [OF assms(1,2), of "\<lambda>u. worker_rank (wpcs s' u)" "\<lambda>u. worker_rank (wpcs s u)"] assms(3,4)
  by (simp add: drain_work_def)

lemma exit_fields:
  assumes "x_pool s" "wpcs s w = W_exiting"
  shows "task_queue (exit_worker w s) = task_queue s" "wpcs (exit_worker w s) = (wpcs s)(w := W_dead)"
    "shut (exit_worker w s) = shut s" "stuck (exit_worker w s) = stuck s" "inserted (exit_worker w s) = inserted s"
proof -
  have "w \<in> set (workers s)" "indexed (worker_info s) (workers s)" using assms by (auto simp: x_pool_def)
  then obtain info ws where "remove_self_locked w s =
       Some (s\<lparr>worker_info := info, dead_workers := dead_workers s @ [w], workers := ws\<rparr>)"
    using remove_self_spec by metis
  then show "task_queue (exit_worker w s) = task_queue s" "wpcs (exit_worker w s) = (wpcs s)(w := W_dead)"
    "shut (exit_worker w s) = shut s" "stuck (exit_worker w s) = stuck s" "inserted (exit_worker w s) = inserted s"
    by (simp_all add: exit_worker_def)
qed

lemma after_fields:
  "task_queue (after_task w s) = task_queue s" "shut (after_task w s) = shut s" "stuck (after_task w s) = stuck s"
  "inserted (after_task w s) = inserted s"
  "wpcs (after_task w s) = (\<lambda>u. if u = w then W_top else if u \<in> set (dead_workers s) then W_none else wpcs s u)"
  by (auto simp: after_task_def reap_dead_workers_locked_def Let_def)

lemma drain_step:
  assumes inv: "x_inv outcome s" and sh: "shut s" and T: "finite T" "{w. living (wpcs s w)} \<subseteq> T"
    and d: "drains s" and e: "worker_event e" and step: "exe_step outcome e s = Some s'"
  shows "drain_work T s' < drain_work T s \<and> shut s' \<and> stuck s' = stuck s \<and> inserted s' = inserted s \<and>
    {w. living (wpcs s' w)} \<subseteq> T \<and> drains s'"
  using inv sh e step
proof (cases rule: shut_worker_cases)
  case (leave w)
  then have "w \<in> T" using T(2) by auto
  with leave show ?thesis using T sh rank_move [OF T(1), of w s' s]
    by (auto simp: leave_loop_def drains_def)
next
  case (take w)
  then have w: "w \<in> T" using T(2) by auto
  obtain t q where "task_queue s = t # q" using take(2) by (cases "task_queue s") auto
  with take w show ?thesis using T sh rank_move [OF T(1), of w s' s]
    by (auto simp: take_task_def drains_def)
next
  case (run w t)
  then have w: "w \<in> T" using T(2) by auto
  with run show ?thesis using T sh d rank_move [OF T(1), of w s' s]
    by (auto simp: run_task_def drains_def)
next
  case (again w)
  then have w: "w \<in> T" using T(2) by auto
  have dead: "wpcs s u = W_dead" if "u \<in> set (dead_workers s)" for u
    using inv that by (auto simp: x_inv_def x_pool_def)
  have "drain_work T s' < drain_work T s"
    by (rule rank_move [OF T(1) w]) (use again dead in \<open>auto simp: after_fields\<close>)
  moreover have "{u. living (wpcs s' u)} \<subseteq> T" using T(2) w again(2) by (auto simp: after_fields split: if_splits)
  moreover have "living (wpcs s' w) \<and> wpcs s' w \<noteq> W_exiting" by (simp add: again(2) after_fields)
  ultimately show ?thesis using sh again(2) unfolding drains_def by (auto simp: after_fields)
next
  case (ends w)
  have p: "x_pool s" using inv by (simp add: x_inv_def)
  note f = exit_fields [OF p ends(1)]
  have w: "w \<in> T" using ends T(2) by auto
  have "drain_work T s' < drain_work T s"
    by (rule rank_move [OF T(1) w]) (use ends f in auto)
  with ends d show ?thesis using T sh unfolding drains_def by (auto simp: f)
qed

lemma drain_runs:
  assumes T: "finite T"
  shows "\<lbrakk> x_inv outcome s; shut s; \<not> stuck s; drains s; {w. living (wpcs s w)} \<subseteq> T; list_all worker_event fs;
     runs (exe_step outcome) fs s = Some s' \<rbrakk> \<Longrightarrow>
     length fs + drain_work T s' \<le> drain_work T s \<and> shut s' \<and> \<not> stuck s' \<and> drains s' \<and>
     inserted s' = inserted s \<and> x_inv outcome s'"
proof (induction fs arbitrary: s)
  case Nil
  then show ?case by simp
next
  case (Cons e fs)
  from Cons.prems(7) obtain u where u: "exe_step outcome e s = Some u" "runs (exe_step outcome) fs u = Some s'" by auto
  have e: "worker_event e" "list_all worker_event fs" using Cons.prems(6) by simp_all
  note st = drain_step [OF Cons.prems(1,2) T Cons.prems(5,4) e(1) u(1)]
  have "x_inv outcome u" using x_inv_step [OF Cons.prems(1) u(1)] .
  then show ?case using Cons.IH [of u] st u(2) e(2) Cons.prems(3) by simp
qed

text \<open>While a worker lives, some worker can step.\<close>

lemma worker_progress:
  assumes inv: "x_inv outcome s" and sh: "shut s" and st: "\<not> stuck s" and w: "living (wpcs s w)"
  shows "\<exists>e. worker_event e \<and> exe_step outcome e s \<noteq> None"
proof -
  have cv: "cv_waiters s = []" and f: "\<not> faulted s" using inv sh by (simp_all add: x_inv_def x_sleep_def x_pool_def)
  show ?thesis
  proof (cases "wpcs s w")
    case W_top
    then show ?thesis using st f by (intro exI [of _ "E_top w"]) (simp add: locked_step_def)
  next
    case W_waiting
    then show ?thesis using st f cv by (intro exI [of _ "E_retest w"]) (simp add: locked_step_def)
  next
    case (W_running t)
    then show ?thesis by (intro exI [of _ "E_run w"]) simp
  next
    case W_ran
    then show ?thesis using st f by (intro exI [of _ "E_after_task w"]) (simp add: locked_step_def)
  next
    case W_exiting
    then show ?thesis using st f by (intro exI [of _ "E_exit w"]) (simp add: locked_step_def)
  qed (use w in auto)
qed

lemma drain_work_bound: "drain_work (set ws) s \<le> 4 * length (task_queue s) + 4 * length ws"
proof -
  have r: "worker_rank p \<le> 4" for p by (cases p) auto
  have "(\<Sum>w\<in>set ws. worker_rank (wpcs s w)) \<le> (\<Sum>w\<in>set ws. 4)" by (rule sum_mono) (rule r)
  also have "\<dots> \<le> 4 * length ws" using card_length [of ws] by simp
  finally show ?thesis by (simp add: drain_work_def)
qed

text \<open>Where no worker can step, and the queue is not abandoned, the executor has terminated.\<close>

lemma drained_terminated:
  assumes inv: "x_inv outcome s" and sh: "shut s" and st: "\<not> stuck s" and d: "drains s"
    and idle: "\<forall>e. worker_event e \<longrightarrow> exe_step outcome e s = None"
  shows "is_terminated_locked s \<and> mset (finished s) = mset (inserted s) \<and> wait_cv_waiters s = []"
proof -
  have p: "x_pool s" "x_fifo s" "x_done s" "x_await s" using inv by (simp_all add: x_inv_def)
  have dead: "\<not> living (wpcs s w)" for w using worker_progress [OF inv sh st, of w] idle by auto
  have "set (workers s) = {}" using p(1) dead by (auto simp: x_pool_def)
  moreover from this have "busy (wpcs s) = {}" using busy_workers [OF p(1)] by simp
  moreover have "task_queue s = []" using d dead by (auto simp: drains_def)
  ultimately show ?thesis using p(2-4) sh by (simp add: is_terminated_locked_def x_fifo_def x_done_def x_await_def)
qed

lemma no_workers_idle:
  assumes "x_pool s" "workers s = []" "cv_waiters s = []" "worker_event e"
  shows "exe_step outcome e s = None"
proof -
  have n: "\<not> living (wpcs s w)" for w using assms(1,2) by (auto simp: x_pool_def)
  have "wpcs s w \<notin> {W_top, W_waiting, W_ran, W_exiting}" "wpcs s w \<noteq> W_running t" for w t
    using n [of w] by auto
  with assms(3,4) show ?thesis by (cases e) (auto simp: locked_step_def split: wpc.splits)
qed

text \<open>
  C7: shutting down ends.  Once \<open>shut\<close> is set, as long as the tasks still queued have not been left
  to workers that are all on their way out, and as long as no thread has deadlocked itself holding
  \<open>main_lock\<close> in \<open>await_termination_until\<close> (\<open>\<not> stuck\<close>: after that no worker could take the lock,
  \<open>exe_await_until_deadlocks\<close>), the workers can make at most four steps per queued task and
  four per worker, whatever the schedule; and when none of them can make another one the executor has
  terminated, every inserted task has been executed and nobody sleeps in \<open>await_termination\<close>.
\<close>

theorem exe_shutdown_drains:
  assumes "runs (exe_step outcome) es (ThreadPoolExecutor core_size max_size) = Some s"
    and "shut s" "\<not> stuck s" "task_queue s = [] \<or> (\<exists>w \<in> set (workers s). wpcs s w \<noteq> W_exiting)"
    and "list_all worker_event fs" "runs (exe_step outcome) fs s = Some s'"
  shows "length fs \<le> 4 * length (task_queue s) + 4 * length (workers s) \<and>
    ((\<forall>e. worker_event e \<longrightarrow> exe_step outcome e s' = None) \<longrightarrow>
      is_terminated_locked s' \<and> mset (finished s') = mset (inserted s) \<and> wait_cv_waiters s' = [])"
proof -
  have inv: "x_inv outcome s" using reachable_exe(1) [OF assms(1)] .
  then have T: "{w. living (wpcs s w)} \<subseteq> set (workers s)" and d: "drains s"
    using assms(4) by (auto simp: x_inv_def x_pool_def drains_def)
  note dr = drain_runs [OF finite_set inv assms(2,3) d T assms(5,6)]
  then show ?thesis using drain_work_bound [of "workers s" s] drained_terminated [of outcome s'] by auto
qed

theorem exe_shutdown_drains_witness:
  "\<exists>s s' :: unit exe. runs (exe_step (\<lambda>_. Inr ())) [E_submit 0 (Task 7), E_insert 0 0, E_shutdown 0, E_await 0,
       E_await_lock 0] (ThreadPoolExecutor 1 1) = Some s \<and>
     runs (exe_step (\<lambda>_. Inr ())) [E_top 1, E_run 1, E_after_task 1, E_top 1, E_exit 1] s = Some s' \<and>
     wait_cv_waiters s = [0] \<and> is_terminated_locked s' \<and> finished s' = [Task 7] \<and> wait_cv_waiters s' = []"
proof -
  let ?step = "exe_step (\<lambda>_. Inr ()) :: xevent \<Rightarrow> unit exe \<Rightarrow> unit exe option"
  let ?es = "[E_submit 0 (Task 7), E_insert 0 0, E_shutdown 0, E_await 0, E_await_lock 0]"
  let ?fs = "[E_top 1, E_run 1, E_after_task 1, E_top 1, E_exit 1]"
  have "map_option (\<lambda>s. (shut s, stuck s, task_queue s, inserted s, workers s, wpcs s 1 = W_top, wait_cv_waiters s,
        map_option (\<lambda>s'. (workers s', cv_waiters s')) (runs ?step ?fs s)))
      (runs ?step ?es (ThreadPoolExecutor 1 1))
    = Some (True, False, [Task 7], [Task 7], [1], True, [0], Some ([], []))" by code_simp
  then obtain s where s: "runs ?step ?es (ThreadPoolExecutor 1 1) = Some s"
    "shut s" "\<not> stuck s" "inserted s = [Task 7]" "workers s = [1]" "wpcs s 1 = W_top" "wait_cv_waiters s = [0]"
    "map_option (\<lambda>s'. (workers s', cv_waiters s')) (runs ?step ?fs s) = Some ([], [])"
    by (elim map_option_SomeE) blast
  from s(8) obtain s' where s': "runs ?step ?fs s = Some s'" "workers s' = []" "cv_waiters s' = []"
    by (elim map_option_SomeE) blast
  have "runs ?step (?es @ ?fs) (ThreadPoolExecutor 1 1) = Some s'" using s(1) s'(1) by (simp only: runs_append bind.bind_lunit)
  then have "x_pool s'" using reachable_exe(1) [of "\<lambda>_. Inr ()"] unfolding x_inv_def by blast
  then have idle: "\<forall>e. worker_event e \<longrightarrow> ?step e s' = None" using no_workers_idle [OF _ s'(2,3)] by blast
  have "task_queue s = [] \<or> (\<exists>w \<in> set (workers s). wpcs s w \<noteq> W_exiting)" using s(5,6) by simp
  from exe_shutdown_drains [OF s(1-3) this _ s'(1)] idle
  have t: "is_terminated_locked s'" "mset (finished s') = mset (inserted s)" "wait_cv_waiters s' = []" by auto
  then have "finished s' = [Task 7]" using s(4) by simp
  with t s(1,7) s'(1) show ?thesis by blast
qed

end
