(* ===== verification/Executor_Lifecycle.thy ===== *)
theory Executor_Lifecycle
  imports Executor_Properties
begin

text \<open>
  The life of a \<open>ThreadPoolExecutor\<close> as a client sees it through \<open>is_shutdown\<close> and \<open>is_terminated\<close>:
  it accepts tasks, drains its queue, has terminated.  The phases are ordered, and the order is the
  one the executor goes through, unless a submission that was admitted before the shutdown arrives
  late: then an executor that has reported its termination starts a worker again.
\<close>

section \<open>Phases\<close>

datatype phase = Accepting | Draining | Finished

text \<open>The order of the phases, by their rank.\<close>

fun phase_rank :: "phase \<Rightarrow> nat" where
  "phase_rank Accepting = 0"
| "phase_rank Draining = 1"
| "phase_rank Finished = 2"

lemma phase_rank_inject: "phase_rank a = phase_rank b \<Longrightarrow> a = b"
  by (cases a; cases b) simp_all

instantiation phase :: linorder
begin

definition less_eq_phase :: "phase \<Rightarrow> phase \<Rightarrow> bool" where
  "a \<le> b \<longleftrightarrow> phase_rank a \<le> phase_rank b"

definition less_phase :: "phase \<Rightarrow> phase \<Rightarrow> bool" where
  "a < b \<longleftrightarrow> phase_rank a < phase_rank b"

instance
  by standard (auto simp: less_eq_phase_def less_phase_def intro: phase_rank_inject)

end

lemma phase_order [simp]:
  "Accepting \<le> p" "p \<le> Finished" "Draining \<le> p \<longleftrightarrow> p \<noteq> Accepting" "Finished \<le> p \<longleftrightarrow> p = Finished"
  by (cases p; simp add: less_eq_phase_def)+

definition phase :: "'r exe \<Rightarrow> phase" where
  "phase s = (if is_terminated_locked s then Finished else if is_shutdown s then Draining else Accepting)"

lemma phase_iff [simp]:
  "phase s = Finished \<longleftrightarrow> is_terminated_locked s" "phase s = Accepting \<longleftrightarrow> \<not> is_shutdown s"
  by (auto simp: phase_def is_terminated_locked_def is_shutdown_def)

section \<open>The order of the phases\<close>

text \<open>Only the insertion of an admitted task takes a step back, and only from termination.\<close>

lemma shut_step: "\<lbrakk> exe_step outcome e s = Some s'; shut s \<rbrakk> \<Longrightarrow> shut s'"
proof (elim step_cases)
  assume "client_step e s = Some s'" "shut s"
  then show ?thesis by (cases e) (auto simp: exe_defs split: if_splits cpc.splits)
next
  assume "worker_step e s = Some s'" "shut s"
  then show ?thesis by (cases e) (auto simp: exe_defs exit_worker_frame split: if_splits)
qed (auto simp: exe_defs)

lemma terminated_no_worker:
  assumes "x_pool s" "is_terminated_locked s"
  shows "\<not> living (wpcs s w)" "worker_step e s = None"
proof -
  show dead: "\<not> living (wpcs s w)" for w using assms by (auto simp: x_pool_def is_terminated_locked_def)
  show "worker_step e s = None"
  proof (rule ccontr)
    assume "worker_step e s \<noteq> None"
    then have "\<exists>w. living (wpcs s w)"
      by (cases e) (auto split: if_splits dest!: arg_cong [of _ _ living])
    with dead show False by blast
  qed
qed

lemma terminated_step:
  assumes p: "x_pool s" and t: "is_terminated_locked s" and step: "exe_step outcome e s = Some s'"
    and e: "\<forall>c i t. e = E_insert c i \<longrightarrow> cpcs s c \<noteq> C_submitting t"
  shows "is_terminated_locked s' \<and> started s' = started s \<and> finished s' = finished s"
  using step
proof (cases rule: step_cases)
  case client
  with t e show ?thesis by (cases e) (auto simp: exe_defs split: if_splits cpc.splits)
next
  case (run w t)
  then have "living (wpcs s w)" by simp
  with terminated_no_worker(1) [OF p t] show ?thesis by simp
qed (use t terminated_no_worker(2) [OF p t] in \<open>auto simp: exe_defs\<close>)

lemma phase_step:
  assumes "x_pool s" "exe_step outcome e s = Some s'"
    and "is_terminated_locked s \<Longrightarrow> \<forall>c i t. e = E_insert c i \<longrightarrow> cpcs s c \<noteq> C_submitting t"
  shows "phase s \<le> phase s'"
proof (cases "phase s")
  case Draining
  then have "shut s" by (auto simp: phase_def is_shutdown_def split: if_splits)
  with shut_step [OF assms(2)] Draining show ?thesis by (simp add: is_shutdown_def)
next
  case Finished
  then have "is_terminated_locked s" by simp
  with terminated_step [OF assms(1) _ assms(2)] assms(3) have "is_terminated_locked s'" by blast
  then show ?thesis by (simp add: phase_def)
next
  case Accepting
  show ?thesis unfolding Accepting by (rule phase_order)
qed

text \<open>After the shutdown nobody is admitted any more.\<close>

definition closed :: "(nat \<Rightarrow> nat + 'r) \<Rightarrow> 'r exe \<Rightarrow> bool" where
  "closed outcome s \<longleftrightarrow> x_inv outcome s \<and> is_shutdown s \<and> (\<forall>c t. cpcs s c \<noteq> C_submitting t)"

lemma closed_pool: "closed outcome s \<Longrightarrow> x_pool s"
  by (simp add: closed_def x_inv_def)

lemma closed_step:
  assumes c: "closed outcome s" and step: "exe_step outcome e s = Some s'"
  shows "closed outcome s' \<and> inserted s' = inserted s"
proof -
  have "x_inv outcome s'" "is_shutdown s'"
    using c step by (auto simp: closed_def is_shutdown_def intro: x_inv_step shut_step)
  moreover have "(\<forall>c t. cpcs s' c \<noteq> C_submitting t) \<and> inserted s' = inserted s"
    using step
  proof (cases rule: step_cases)
    case client
    with c show ?thesis by (cases e) (auto simp: closed_def exe_defs split: if_splits cpc.splits)
  next
    case work
    with c show ?thesis
      by (cases e) (auto simp: closed_def exe_defs exit_worker_frame split: if_splits)
  qed (use c in \<open>auto simp: closed_def is_shutdown_def exe_defs\<close>)
  ultimately show ?thesis by (simp add: closed_def)
qed

interpretation exec: inv_system "exe_step outcome" "closed outcome" for outcome
  by unfold_locales (simp add: closed_step)

lemma ended_step:
  assumes "closed outcome s" "is_terminated_locked s" "exe_step outcome e s = Some s'"
  shows "is_terminated_locked s' \<and> started s' = started s \<and> finished s' = finished s"
  by (rule terminated_step [OF closed_pool [OF assms(1)] assms(2,3)]) (use assms(1) in \<open>simp add: closed_def\<close>)

interpretation exet: inv_system "exe_step outcome" "\<lambda>s. closed outcome s \<and> is_terminated_locked s" for outcome
  by unfold_locales (blast dest: closed_step ended_step)

text \<open>
  C31: the life of the executor runs one way.  From a state where it is shut down and no \<open>submit\<close> or
  \<open>execute\<close> is still on its way from the test of \<open>shut\<close> to the queue, whatever is called and
  however it interleaves, the phase never goes back and no task is inserted any more; and from
  termination on no task starts or ends, and no worker comes back.
\<close>

theorem exe_lifecycle:
  assumes "runs (exe_step outcome) es (ThreadPoolExecutor core_size max_size) = Some s"
    and "runs (exe_step outcome) es' s = Some s'"
    and "is_shutdown s" and "\<forall>c t. cpcs s c \<noteq> C_submitting t"
  shows "phase s \<le> phase s' \<and> inserted s' = inserted s \<and>
    (phase s = Finished \<longrightarrow>
       started s' = started s \<and> finished s' = finished s \<and> get_pool_size s' = 0)"
proof -
  have c: "closed outcome s" using assms reachable_exe(1) [OF assms(1)] by (simp add: closed_def)
  have "phase s \<le> phase s'"
    by (rule exec.runs_mono [OF phase_step c assms(2)]) (auto simp: closed_pool, auto simp: closed_def)
  moreover have "inserted s' = inserted s"
    by (rule exec.runs_const [OF _ c assms(2)]) (simp add: closed_step)
  moreover have "started s' = started s \<and> finished s' = finished s \<and> get_pool_size s' = 0"
    if t: "is_terminated_locked s"
  proof -
    have "(started s', finished s') = (started s, finished s)"
      by (rule exet.runs_const [OF _ _ assms(2)]) (use c t ended_step in auto)
    moreover have "is_terminated_locked s'" using exet.runs_inv [OF _ assms(2)] c t by blast
    ultimately show ?thesis by (simp add: is_terminated_locked_def get_pool_size_def)
  qed
  ultimately show ?thesis by simp
qed

definition lifecycle_demo :: "xevent list" where
  "lifecycle_demo = [E_submit 0 (Task 7), E_insert 0 0, E_shutdown 0]"

definition lifecycle_demo_end :: "xevent list" where
  "lifecycle_demo_end =
     [E_submit 1 (Task 8), E_top 1, E_run 1, E_after_task 1, E_top 1, E_exit 1, E_await 0]"

theorem exe_lifecycle_witness:
  "\<exists>s s' :: unit exe. runs (exe_step (\<lambda>_. Inr ())) lifecycle_demo (ThreadPoolExecutor 1 1) = Some s \<and>
     runs (exe_step (\<lambda>_. Inr ())) lifecycle_demo_end s = Some s' \<and>
     phase s = Draining \<and> phase s \<le> phase s' \<and> inserted s' = inserted s"
proof -
  have "map_option (\<lambda>s. (phase s, is_shutdown s))
      (runs (exe_step (\<lambda>_. Inr ())) lifecycle_demo (ThreadPoolExecutor 1 1 :: unit exe)) = Some (Draining, True)"
    by code_simp
  then obtain s where s: "runs (exe_step (\<lambda>_. Inr ())) lifecycle_demo (ThreadPoolExecutor 1 1 :: unit exe) = Some s"
    "phase s = Draining" "is_shutdown s" by (elim map_option_SomeE) auto
  have "runs (exe_step (\<lambda>_. Inr ())) (lifecycle_demo @ lifecycle_demo_end) (ThreadPoolExecutor 1 1 :: unit exe)
      \<noteq> None" by code_simp
  then obtain s' where s': "runs (exe_step (\<lambda>_. Inr ())) lifecycle_demo_end s = Some s'"
    using s(1) by (auto simp: runs_append)
  have "\<forall>c t. cpcs s c \<noteq> C_submitting t"
    using s(1) by (auto simp: lifecycle_demo_def ThreadPoolExecutor_def exe_defs locked_step_def)
  from exe_lifecycle [OF s(1) s' s(3) this] s s' show ?thesis by blast
qed

text \<open>
  Without that condition termination is not final.  A submission is admitted, the executor is shut
  down, its worker leaves, \<open>is_terminated\<close> answers true and \<open>await_termination\<close> returns; then the
  admitted task arrives, a new worker starts, and the executor is draining again.
\<close>

lemma exe_termination_revoked:
  "map_option (\<lambda>s :: unit exe. (phase s, cpcs s 0))
     (runs (exe_step (\<lambda>_. Inr ()))
       [E_submit 1 (Task 7), E_shutdown 0, E_top 1, E_exit 1, E_await 0] (ThreadPoolExecutor 1 1))
     = Some (Finished, C_out) \<and>
   map_option (\<lambda>s :: unit exe. (phase s, workers s, task_queue s))
     (runs (exe_step (\<lambda>_. Inr ()))
       [E_submit 1 (Task 7), E_shutdown 0, E_top 1, E_exit 1, E_await 0, E_insert 1 0] (ThreadPoolExecutor 1 1))
     = Some (Draining, [2], [Task 7])"
  by (rule conjI; code_simp)

end
