(* ===== verification/Latch.thy ===== *)
theory Latch
  imports Event_System
begin

text \<open>
  \<open>Latch\<close> of \<^verbatim>\<open>concurrency/latch.h\<close>.  The counter is an \<open>atomic<ptrdiff_t>\<close>, a 64-bit
  word read with \<open>sint\<close>; \<open>count_down\<close> decrements it without the mutex, so every load, every
  \<open>fetch_sub\<close>, every lock, unlock and notification is an event of its own.  \<open>l_cvq\<close> are the
  threads blocked on the condition variable; \<open>l_counted\<close>, \<open>l_crossed\<close> and \<open>l_returned\<close> are
  histories: the sum of all decrements, how often the branch that notifies was taken, and the threads
  that returned from \<open>wait\<close>.
\<close>

section \<open>State and steps\<close>

datatype lpc =
    L_out
  | L_counting
  | L_wait_test
  | L_wait_lock
  | L_check
  | L_pred
  | L_park
  | L_blocked
  | L_sync bool
  | L_synced bool
  | L_notify bool

record latch =
  l_value :: u64
  l_mtx :: "tid option"
  l_cvq :: "tid list"
  lpcs :: "tid \<Rightarrow> lpc"
  l_counted :: nat
  l_crossed :: nat
  l_returned :: "tid list"

definition Latch_init :: "u64 \<Rightarrow> latch" where
  "Latch_init v = \<lparr>l_value = v, l_mtx = None, l_cvq = [], lpcs = (\<lambda>_. L_out), l_counted = 0,
     l_crossed = 0, l_returned = []\<rparr>"

definition at_pc :: "tid \<Rightarrow> lpc \<Rightarrow> latch \<Rightarrow> latch" where
  "at_pc t c s = s\<lparr>lpcs := (lpcs s)(t := c)\<rparr>"

definition is_ready :: "latch \<Rightarrow> bool" where
  "is_ready s \<longleftrightarrow> sint (l_value s) \<le> 0"

text \<open>After \<open>count_down\<close>: \<open>count_down_and_wait\<close> goes on to \<open>wait\<close>.\<close>

definition after_count :: "bool \<Rightarrow> lpc" where
  "after_count waits = (if waits then L_wait_test else L_out)"

definition count_down :: "tid \<Rightarrow> u64 \<Rightarrow> bool \<Rightarrow> latch \<Rightarrow> latch" where
  "count_down t n waits s =
     (let v = l_value s; s = s\<lparr>l_value := v - n, l_counted := l_counted s + unat n\<rparr>
      in if 0 < sint v \<and> sint v \<le> sint n
         then at_pc t (L_sync waits) (s\<lparr>l_crossed := Suc (l_crossed s)\<rparr>)
         else at_pc t (after_count waits) s)"

definition return_from_wait :: "tid \<Rightarrow> latch \<Rightarrow> latch" where
  "return_from_wait t s = at_pc t L_out (s\<lparr>l_returned := l_returned s @ [t]\<rparr>)"

definition take_mtx :: "tid \<Rightarrow> lpc \<Rightarrow> latch \<Rightarrow> latch option" where
  "take_mtx t c s = (if l_mtx s = None then Some (at_pc t c (s\<lparr>l_mtx := Some t\<rparr>)) else None)"

text \<open>One step of a thread inside a member function.\<close>

fun latch_go :: "tid \<Rightarrow> lpc \<Rightarrow> latch \<Rightarrow> latch option" where
  "latch_go t L_out s = None"
| "latch_go t L_counting s = Some (count_down t 1 True s)"
| "latch_go t L_wait_test s =
     Some (if is_ready s then return_from_wait t s else at_pc t L_wait_lock s)"
| "latch_go t L_wait_lock s = take_mtx t L_check s"
| "latch_go t L_check s =
     Some (if is_ready s then return_from_wait t (s\<lparr>l_mtx := None\<rparr>) else at_pc t L_pred s)"
| "latch_go t L_pred s =
     Some (if is_ready s then return_from_wait t (s\<lparr>l_mtx := None\<rparr>) else at_pc t L_park s)"
| "latch_go t L_park s = Some (at_pc t L_blocked (s\<lparr>l_mtx := None, l_cvq := t # l_cvq s\<rparr>))"
| "latch_go t L_blocked s = (if t \<in> set (l_cvq s) then None else take_mtx t L_pred s)"
| "latch_go t (L_sync w) s = take_mtx t (L_synced w) s"
| "latch_go t (L_synced w) s = Some (at_pc t (L_notify w) (s\<lparr>l_mtx := None\<rparr>))"
| "latch_go t (L_notify w) s = Some (at_pc t (after_count w) (s\<lparr>l_cvq := []\<rparr>))"

datatype levent =
    L_count_down tid u64
  | L_count_down_and_wait tid
  | L_wait tid
  | L_go tid
  | L_wake tid

fun latch_step :: "levent \<Rightarrow> latch \<Rightarrow> latch option" where
  "latch_step (L_count_down t n) s =
     (if lpcs s t = L_out then Some (count_down t n False s) else None)"
| "latch_step (L_count_down_and_wait t) s =
     (if lpcs s t = L_out then Some (if is_ready s then s else at_pc t L_counting s) else None)"
| "latch_step (L_wait t) s = (if lpcs s t = L_out then Some (at_pc t L_wait_test s) else None)"
| "latch_step (L_go t) s = latch_go t (lpcs s t) s"
| "latch_step (L_wake t) s =
     (if t \<in> set (l_cvq s) then Some (s\<lparr>l_cvq := removeAll t (l_cvq s)\<rparr>) else None)"

section \<open>The counter\<close>

lemma sint_of_small_int:
  assumes "- (2 ^ 63) \<le> k" "k < 2 ^ 63" shows "sint (word_of_int k :: u64) = k"
proof -
  have "signed_take_bit 63 k = k"
    using assms by (subst signed_take_bit_int_eq_self_iff) simp
  then show ?thesis by (simp add: signed_of_int)
qed

lemma sint_small64:
  assumes "unat (n :: u64) < 2 ^ 63" shows "sint n = int (unat n)"
proof -
  have "int (unat n) < 2 ^ 63" using assms by (metis of_nat_less_iff of_nat_numeral of_nat_power)
  then have "sint (word_of_int (int (unat n)) :: u64) = int (unat n)"
    by (intro sint_of_small_int) (simp_all add: order_trans [of _ 0] del: of_nat_unat)
  then show ?thesis by simp
qed

text \<open>The books: the counter is the initial value minus everything counted.\<close>

definition l_books :: "u64 \<Rightarrow> latch \<Rightarrow> bool" where
  "l_books v s \<longleftrightarrow> l_value s = v - of_nat (l_counted s)"

definition l_fits :: "latch \<Rightarrow> bool" where
  "l_fits s \<longleftrightarrow> l_counted s < 2 ^ 63"

lemma l_value_exact:
  assumes "l_books v s" "l_fits s" "0 \<le> sint v" shows "sint (l_value s) = sint v - int (l_counted s)"
proof -
  have "int (l_counted s) < 2 ^ 63"
    using assms(2) unfolding l_fits_def by (metis of_nat_less_iff of_nat_numeral of_nat_power)
  moreover have "sint v < 2 ^ 63" using sint_lt [of v] by simp
  ultimately have "sint (word_of_int (sint v - int (l_counted s)) :: u64) = sint v - int (l_counted s)"
    using assms(3) by (intro sint_of_small_int) auto
  moreover have "(word_of_int (sint v - int (l_counted s)) :: u64) = v - of_nat (l_counted s)"
    by simp
  ultimately show ?thesis using assms(1) by (simp add: l_books_def)
qed

lemmas latch_defs = count_down_def at_pc_def return_from_wait_def take_mtx_def after_count_def Let_def

lemma l_books_go: "\<lbrakk> l_books v s; latch_go t c s = Some s' \<rbrakk> \<Longrightarrow> l_books v s'"
  by (cases c) (auto simp: l_books_def latch_defs algebra_simps split: if_splits)

lemma l_books_step: "\<lbrakk> l_books v s; latch_step e s = Some s' \<rbrakk> \<Longrightarrow> l_books v s'"
proof (cases e)
  case (L_go t)
  assume "l_books v s" "latch_step e s = Some s'"
  with L_go l_books_go [of v s t "lpcs s t" s'] show ?thesis by simp
qed (auto simp: latch_defs algebra_simps l_books_def split: if_splits)

interpretation lbk: inv_system latch_step "l_books v" for v
  by unfold_locales (rule l_books_step)

lemma counted_go: "latch_go t c s = Some s' \<Longrightarrow> l_counted s \<le> l_counted s'"
  by (cases c) (auto simp: latch_defs split: if_splits)

lemma counted_step: "latch_step e s = Some s' \<Longrightarrow> l_counted s \<le> l_counted s'"
  by (cases e) (auto simp: latch_defs split: if_splits dest: counted_go)

lemma l_fits_step: "\<lbrakk> latch_step e s = Some s'; l_fits s' \<rbrakk> \<Longrightarrow> l_fits s"
  using counted_step [of e s s'] by (simp add: l_fits_def)

section \<open>Mutex, waiters and notifiers\<close>

definition holder :: "lpc \<Rightarrow> bool" where
  "holder c \<longleftrightarrow> c = L_check \<or> c = L_pred \<or> c = L_park \<or> (\<exists>w. c = L_synced w)"

definition l_excl :: "latch \<Rightarrow> bool" where
  "l_excl s \<longleftrightarrow> (\<forall>t. l_mtx s = Some t \<longleftrightarrow> holder (lpcs s t)) \<and>
     (\<forall>t \<in> set (l_cvq s). lpcs s t = L_blocked)"

definition notifier :: "lpc \<Rightarrow> bool" where
  "notifier c \<longleftrightarrow> (\<exists>w. c = L_sync w \<or> c = L_synced w \<or> c = L_notify w)"

text \<open>
  Once the counter is down: a thread about to block still holds the mutex the notifier has to take
  first, and a blocked thread has a notifier on its way.
\<close>

definition l_alert :: "latch \<Rightarrow> bool" where
  "l_alert s \<longleftrightarrow> (is_ready s \<longrightarrow>
     (\<forall>t. lpcs s t = L_park \<longrightarrow> (\<exists>u w. lpcs s u = L_sync w)) \<and>
     (l_cvq s \<noteq> [] \<longrightarrow> (\<exists>u. notifier (lpcs s u))))"

text \<open>The notifying branch is taken once, when the counter gets to zero; nobody returns before.\<close>

definition l_once :: "u64 \<Rightarrow> latch \<Rightarrow> bool" where
  "l_once v s \<longleftrightarrow> (l_returned s \<noteq> [] \<longrightarrow> is_ready s) \<and>
     l_crossed s = (if 0 < sint v \<and> is_ready s then 1 else 0)"

lemma holder_simps [simp]:
  "\<not> holder L_out" "\<not> holder L_counting" "\<not> holder L_wait_test" "\<not> holder L_wait_lock" "holder L_check"
  "holder L_pred" "holder L_park" "\<not> holder L_blocked" "\<not> holder (L_sync w)" "holder (L_synced w)"
  "\<not> holder (L_notify w)" "\<not> holder (after_count w)"
  by (simp_all add: holder_def after_count_def)

lemma notifier_simps [simp]:
  "\<not> notifier L_out" "\<not> notifier L_counting" "\<not> notifier L_wait_test" "\<not> notifier L_wait_lock"
  "\<not> notifier L_check" "\<not> notifier L_pred" "\<not> notifier L_park" "\<not> notifier L_blocked"
  "notifier (L_sync w)" "notifier (L_synced w)" "notifier (L_notify w)" "\<not> notifier (after_count w)"
  by (simp_all add: notifier_def after_count_def)

lemma l_excl_frame [simp]:
  "l_excl (s\<lparr>l_value := v\<rparr>) = l_excl s" "l_excl (s\<lparr>l_counted := n\<rparr>) = l_excl s"
  "l_excl (s\<lparr>l_crossed := n\<rparr>) = l_excl s" "l_excl (s\<lparr>l_returned := ts\<rparr>) = l_excl s"
  by (simp_all add: l_excl_def)

lemma excl_move:
  "\<lbrakk> l_excl s; holder (lpcs s t) = holder c; t \<notin> set (l_cvq s) \<rbrakk> \<Longrightarrow> l_excl (at_pc t c s)"
  by (auto simp: l_excl_def at_pc_def)

lemma excl_take:
  "\<lbrakk> l_excl s; l_mtx s = None; holder c; t \<notin> set (l_cvq s) \<rbrakk> \<Longrightarrow>
     l_excl (at_pc t c (s\<lparr>l_mtx := Some t\<rparr>))"
  by (auto simp: l_excl_def at_pc_def)

lemma excl_not_waiting: "\<lbrakk> l_excl s; lpcs s t \<noteq> L_blocked \<rbrakk> \<Longrightarrow> t \<notin> set (l_cvq s)"
  by (auto simp: l_excl_def)

lemma excl_release:
  assumes "l_excl s" "holder (lpcs s t)" "\<not> holder c"
  shows "l_excl (at_pc t c (s\<lparr>l_mtx := None\<rparr>))"
proof -
  have "l_mtx s = Some t" using assms(1,2) by (simp add: l_excl_def)
  then have "\<forall>u. holder (lpcs s u) \<longleftrightarrow> u = t" using assms(1) by (auto simp: l_excl_def)
  moreover have "t \<notin> set (l_cvq s)" using assms(2) by (intro excl_not_waiting [OF assms(1)]) auto
  ultimately show ?thesis using assms by (auto simp: l_excl_def at_pc_def)
qed

lemma excl_count:
  assumes "l_excl s" "\<not> holder (lpcs s t)" "t \<notin> set (l_cvq s)" shows "l_excl (count_down t n w s)"
proof -
  have "l_excl (at_pc t c (s\<lparr>l_value := v, l_counted := k, l_crossed := m\<rparr>))" if "\<not> holder c" for c v k m
    using assms that by (intro excl_move) auto
  from this [where m = "l_crossed s"] this show ?thesis by (auto simp: count_down_def Let_def)
qed

lemma excl_return:
  assumes "l_excl s" "lpcs s t \<noteq> L_blocked"
  shows "\<not> holder (lpcs s t) \<Longrightarrow> l_excl (return_from_wait t s)"
    "holder (lpcs s t) \<Longrightarrow> l_excl (return_from_wait t (s\<lparr>l_mtx := None\<rparr>))"
proof -
  assume "\<not> holder (lpcs s t)"
  then show "l_excl (return_from_wait t s)"
    using assms excl_not_waiting [OF assms] excl_move [of "s\<lparr>l_returned := l_returned s @ [t]\<rparr>" t L_out]
    by (simp add: return_from_wait_def)
next
  assume "holder (lpcs s t)"
  then show "l_excl (return_from_wait t (s\<lparr>l_mtx := None\<rparr>))"
    using assms excl_release [of "s\<lparr>l_returned := l_returned s @ [t]\<rparr>" t L_out]
    by (simp add: return_from_wait_def at_pc_def l_excl_def)
qed

lemma l_excl_go:
  assumes x: "l_excl s" and c: "lpcs s t = c" and go: "latch_go t c s = Some s'" shows "l_excl s'"
proof -
  have nw: "c \<noteq> L_blocked \<Longrightarrow> t \<notin> set (l_cvq s)" using excl_not_waiting [OF x] c by auto
  show ?thesis
  proof (cases c)
    case L_park
    have "l_excl (at_pc t L_blocked (s\<lparr>l_mtx := None\<rparr>))"
      by (rule excl_release [OF x]) (use c L_park in simp_all)
    then show ?thesis using go L_park by (auto simp: l_excl_def at_pc_def)
  next
    case (L_notify w)
    have "l_excl (at_pc t (after_count w) s)" by (rule excl_move [OF x]) (use c L_notify nw in simp_all)
    then show ?thesis using go L_notify by (auto simp: l_excl_def at_pc_def)
  next
    case L_wait_lock
    then show ?thesis using go nw x by (auto simp: take_mtx_def excl_take split: if_splits)
  next
    case L_blocked
    then show ?thesis using go x by (auto simp: take_mtx_def excl_take split: if_splits)
  next
    case (L_sync w)
    then show ?thesis using go nw x by (auto simp: take_mtx_def excl_take split: if_splits)
  next
    case (L_synced w)
    then show ?thesis using go x c by (auto intro!: excl_release)
  qed (use x c go nw in \<open>auto simp: excl_count excl_return split: if_splits intro!: excl_move\<close>)
qed

lemma l_excl_step:
  assumes x: "l_excl s" and step: "latch_step e s = Some s'" shows "l_excl s'"
proof (cases e)
  case (L_go t)
  then show ?thesis using l_excl_go [OF x refl, of t s'] step by simp
next
  case (L_wake t)
  then show ?thesis using x step by (auto simp: l_excl_def split: if_splits)
qed (use x step excl_not_waiting [OF x] in \<open>auto simp: excl_count split: if_splits intro!: excl_move\<close>)

section \<open>Opening the latch\<close>

definition crosses :: "latch \<Rightarrow> u64 \<Rightarrow> bool" where
  "crosses s n \<longleftrightarrow> 0 < sint (l_value s) \<and> sint (l_value s) \<le> sint n"

lemma count_down_fields [simp]:
  "l_value (count_down t n w s) = l_value s - n"
  "l_counted (count_down t n w s) = l_counted s + unat n"
  "l_cvq (count_down t n w s) = l_cvq s" "l_returned (count_down t n w s) = l_returned s"
  "l_crossed (count_down t n w s) = (if crosses s n then Suc (l_crossed s) else l_crossed s)"
  "lpcs (count_down t n w s) =
     (lpcs s)(t := if crosses s n then L_sync w else after_count w)"
  by (simp_all add: count_down_def at_pc_def Let_def crosses_def)

text \<open>While the sum of the decrements fits, the counter is down exactly after the crossing one.\<close>

lemma ready_after_count:
  assumes b: "l_books v s" and v: "0 \<le> sint v" and n: "unat n < 2 ^ 63"
    and f: "l_fits (count_down t n w s)"
  shows "is_ready (count_down t n w s) \<longleftrightarrow> is_ready s \<or> crosses s n"
proof -
  have f': "l_fits s" using f by (simp add: l_fits_def)
  have b': "l_books v (count_down t n w s)" using b by (simp add: l_books_def)
  have "sint (l_value s - n) = sint (l_value s) - int (unat n)"
    using l_value_exact [OF b f' v] l_value_exact [OF b' f v] by simp
  then show ?thesis
    by (auto simp: is_ready_def crosses_def sint_small64 [OF n] intro: order_trans [OF _ uint_ge_0])
qed

fun l_small :: "levent \<Rightarrow> bool" where
  "l_small (L_count_down t n) = (unat n < 2 ^ 63)"
| "l_small _ = True"

definition l_inv :: "u64 \<Rightarrow> latch \<Rightarrow> bool" where
  "l_inv v s \<longleftrightarrow> l_books v s \<and> l_excl s \<and> (l_fits s \<longrightarrow> l_alert s \<and> l_once v s)"

lemma alert_move:
  assumes a: "l_alert s" and p: "lpcs s' = (lpcs s)(t := c)" and q: "l_cvq s' = l_cvq s"
    and r: "is_ready s' = is_ready s" and c: "c = L_park \<Longrightarrow> \<not> is_ready s" "\<not> notifier (lpcs s t)"
  shows "l_alert s'"
proof -
  have keep: "\<exists>u. Q (lpcs s' u)" if "\<exists>u. Q (lpcs s u)" "\<not> Q (lpcs s t)" for Q
    using that by (auto simp: p)
  have park: "\<exists>u w. lpcs s' u = L_sync w" if "is_ready s" "lpcs s' x = L_park" for x
  proof -
    have "lpcs s x = L_park" using that c(1) by (auto simp: p split: if_splits)
    then have "\<exists>u. (\<exists>w. lpcs s u = L_sync w)" using a that(1) by (auto simp: l_alert_def)
    then show ?thesis by (rule keep) (use c(2) in auto)
  qed
  have "\<exists>u. notifier (lpcs s' u)" if "is_ready s" "l_cvq s' \<noteq> []"
    by (rule keep) (use a that c(2) q in \<open>auto simp: l_alert_def\<close>)
  with park show ?thesis by (auto simp: l_alert_def r)
qed

lemma alert_count:
  assumes "l_alert s" "\<not> notifier (lpcs s t)"
    "is_ready (count_down t n w s) \<longleftrightarrow> is_ready s \<or> crosses s n"
  shows "l_alert (count_down t n w s)"
proof (cases "crosses s n")
  case True
  then show ?thesis by (auto simp: l_alert_def)
next
  case False
  with assms show ?thesis
    by (intro alert_move [OF assms(1), of _ t "after_count w"]) (auto simp: after_count_def split: if_splits)
qed

lemma once_count:
  assumes "l_once v s" "is_ready (count_down t n w s) \<longleftrightarrow> is_ready s \<or> crosses s n" "crosses s n \<Longrightarrow> 0 < sint v"
  shows "l_once v (count_down t n w s)"
  using assms by (auto simp: l_once_def crosses_def is_ready_def split: if_splits)

lemma alert_stay: "\<lbrakk> l_alert s; lpcs s' = lpcs s; l_cvq s' = l_cvq s; l_value s' = l_value s \<rbrakk> \<Longrightarrow> l_alert s'"
  by (simp add: l_alert_def is_ready_def)

lemma l_alert_wake: "l_alert s \<Longrightarrow> l_alert (s\<lparr>l_cvq := removeAll t (l_cvq s)\<rparr>)"
  by (simp add: l_alert_def is_ready_def) (metis removeAll.simps(1))

lemma at_pc_fields [simp]:
  "l_value (at_pc t c s) = l_value s" "l_mtx (at_pc t c s) = l_mtx s" "l_cvq (at_pc t c s) = l_cvq s"
  "l_counted (at_pc t c s) = l_counted s" "l_crossed (at_pc t c s) = l_crossed s"
  "l_returned (at_pc t c s) = l_returned s" "lpcs (at_pc t c s) = (lpcs s)(t := c)"
  by (simp_all add: at_pc_def)

text \<open>Parking keeps a counting thread on its way to the notification; notifying empties the queue.\<close>

lemma l_alert_park:
  assumes a: "l_alert s" and c: "lpcs s t = L_park" and go: "latch_go t L_park s = Some s'"
  shows "l_alert s'"
proof -
  have r: "is_ready s' = is_ready s" using go by (auto simp: is_ready_def)
  have "(\<exists>u w. lpcs s' u = L_sync w) \<and> (\<exists>u. notifier (lpcs s' u))" if r': "is_ready s"
  proof -
    obtain u w where "lpcs s u = L_sync w" using c r' a unfolding l_alert_def by blast
    then have "lpcs s' u = L_sync w" using go c by auto
    then show ?thesis by (metis notifier_simps(9))
  qed
  with r show ?thesis by (simp add: l_alert_def)
qed

lemma l_alert_notify:
  assumes a: "l_alert s" and c: "lpcs s t = L_notify w" and go: "latch_go t (L_notify w) s = Some s'"
  shows "l_alert s'"
proof -
  have s': "s' = at_pc t (after_count w) (s\<lparr>l_cvq := []\<rparr>)" using go by simp
  have "\<exists>u w. lpcs s' u = L_sync w" if "is_ready s" "lpcs s' x = L_park" for x
  proof -
    have "lpcs s x = L_park" using that(2) by (auto simp: s' after_count_def split: if_splits)
    then obtain u w' where u: "lpcs s u = L_sync w'" using a \<open>is_ready s\<close> unfolding l_alert_def by blast
    then have "u \<noteq> t" using c by auto
    with u have "lpcs s' u = L_sync w'" by (simp add: s')
    then show ?thesis by blast
  qed
  then show ?thesis by (auto simp: s' l_alert_def is_ready_def)
qed

lemma alert_go:
  assumes x: "l_excl s" and a: "l_alert s" and c: "lpcs s t = c" "c \<noteq> L_counting"
    and go: "latch_go t c s = Some s'"
  shows "l_alert s'"
proof (cases "notifier c \<or> c = L_park")
  case False
  show ?thesis
    by (rule alert_move [OF a, of _ t "lpcs s' t"])
      (use False go c in \<open>cases c; auto simp: take_mtx_def return_from_wait_def is_ready_def split: if_splits\<close>)+
next
  case True
  have no_park: "lpcs s u \<noteq> L_park" if "l_mtx s = None" for u
    using x that unfolding l_excl_def by (metis holder_simps(7) option.distinct(1))
  show ?thesis
  proof (cases c)
    case L_park
    with a c go show ?thesis by (auto intro: l_alert_park)
  next
    case (L_sync w)
    then show ?thesis using a go c no_park
      by (auto simp: l_alert_def is_ready_def take_mtx_def split: if_splits)
  next
    case (L_synced w)
    then have m: "l_mtx s = Some t" using x c by (auto simp: l_excl_def)
    have "lpcs s u \<noteq> L_park" for u
    proof
      assume "lpcs s u = L_park"
      then have "l_mtx s = Some u" using x by (auto simp: l_excl_def)
      with m \<open>lpcs s u = L_park\<close> c L_synced show False by simp
    qed
    with L_synced show ?thesis using a go c by (auto simp: l_alert_def is_ready_def split: if_splits)
  next
    case (L_notify w)
    with a c go show ?thesis by (auto intro: l_alert_notify)
  qed (use True in auto)
qed

lemma once_go:
  assumes "l_once v s" "c \<noteq> L_counting" "latch_go t c s = Some s'" shows "l_once v s'"
  using assms by (cases c)
    (auto simp: l_once_def is_ready_def take_mtx_def return_from_wait_def split: if_splits)

lemma l_inv_init: "0 \<le> sint v \<Longrightarrow> l_inv v (Latch_init v)"
  by (auto simp: l_inv_def l_books_def l_excl_def l_alert_def l_once_def is_ready_def Latch_init_def)

lemma l_inv_count:
  assumes i: "l_inv v s" and v: "0 \<le> sint v" and n: "unat n < 2 ^ 63"
    and c: "lpcs s t = L_out \<or> lpcs s t = L_counting"
  shows "l_inv v (count_down t n w s)"
proof -
  have "t \<notin> set (l_cvq s)" using i c by (intro excl_not_waiting) (auto simp: l_inv_def)
  with i c have x: "l_excl (count_down t n w s)" "l_books v (count_down t n w s)"
    by (auto simp: l_inv_def l_books_def intro!: excl_count)
  have "l_alert (count_down t n w s) \<and> l_once v (count_down t n w s)" if f: "l_fits (count_down t n w s)"
  proof -
    have f': "l_fits s" and b: "l_books v s" using f i by (simp_all add: l_fits_def l_inv_def)
    have "crosses s n \<Longrightarrow> 0 < sint v" using l_value_exact [OF b f' v] by (simp add: crosses_def)
    then show ?thesis
      using alert_count [of s t n w] once_count [of v s t n w] ready_after_count [OF b v n f] i f' c
      by (auto simp: l_inv_def)
  qed
  with x show ?thesis by (simp add: l_inv_def)
qed

lemma l_inv_step:
  assumes v: "0 \<le> sint v" and i: "l_inv v s" and g: "l_small e" and step: "latch_step e s = Some s'"
  shows "l_inv v s'"
proof (cases "\<exists>t n w. s' = count_down t n w s \<and> unat n < 2 ^ 63 \<and> (lpcs s t = L_out \<or> lpcs s t = L_counting)")
  case True
  with l_inv_count [OF i v] show ?thesis by auto
next
  case count: False
  have x: "l_excl s'" "l_books v s'" using i step by (auto simp: l_inv_def intro: l_excl_step l_books_step)
  have "l_alert s' \<and> l_once v s'" if "l_fits s'"
  proof -
    have a: "l_alert s" "l_once v s" using i l_fits_step [OF step that] by (simp_all add: l_inv_def)
    show ?thesis
    proof (cases e)
      case (L_go t)
      then have "lpcs s t \<noteq> L_counting" using count step by force
      with L_go step a i show ?thesis
        by (auto simp: l_inv_def intro: alert_go [OF _ _ refl] once_go)
    next
      case (L_wake t)
      then show ?thesis using step a by (auto simp: l_once_def is_ready_def l_alert_wake split: if_splits)
    next
      case (L_count_down t n)
      then show ?thesis using count step g by (fastforce split: if_splits)
    next
      case (L_wait t)
      then have "s' = at_pc t L_wait_test s" "lpcs s t = L_out" using step by (auto split: if_splits)
      then show ?thesis using a alert_move [OF a(1), of s' t L_wait_test]
        by (simp add: l_once_def is_ready_def)
    next
      case (L_count_down_and_wait t)
      then consider "s' = s" | "s' = at_pc t L_counting s" "lpcs s t = L_out"
        using step by (auto split: if_splits)
      then show ?thesis
      proof cases
        case 2
        then show ?thesis using a alert_move [OF a(1), of s' t L_counting]
          by (simp add: l_once_def is_ready_def)
      qed (use a in simp)
    qed
  qed
  with x show ?thesis by (simp add: l_inv_def)
qed

text \<open>The guarded system needs \<open>0 \<le> v\<close>; the invariant carries it.\<close>

interpretation lsm: guarded_system latch_step l_small "\<lambda>s. 0 \<le> sint v \<and> l_inv v s" for v
  by unfold_locales (auto intro: l_inv_step)

section \<open>Nobody stays behind an open latch\<close>

text \<open>How many steps a thread inside a member function can still make once the counter is down.\<close>

fun steps_left :: "lpc \<Rightarrow> nat" where
  "steps_left L_out = 0"
| "steps_left L_counting = 6"
| "steps_left L_wait_test = 2"
| "steps_left L_wait_lock = 3"
| "steps_left L_check = 2"
| "steps_left L_pred = 1"
| "steps_left L_park = 4"
| "steps_left L_blocked = 2"
| "steps_left (L_sync w) = 5"
| "steps_left (L_synced w) = 4"
| "steps_left (L_notify w) = 3"

definition latch_work :: "tid set \<Rightarrow> latch \<Rightarrow> nat" where
  "latch_work T s = (\<Sum>t\<in>T. steps_left (lpcs s t)) + length (l_cvq s)"

fun l_inner :: "levent \<Rightarrow> bool" where
  "l_inner (L_go t) = True"
| "l_inner (L_wake t) = True"
| "l_inner _ = False"

lemma l_inner_small [simp]: "l_inner e \<Longrightarrow> l_small e"
  by (cases e) auto

lemma work_move:
  assumes T: "finite T" "t \<in> T" and p: "lpcs s' = (lpcs s)(t := c)"
    and less: "steps_left c + length (l_cvq s') < steps_left (lpcs s t) + length (l_cvq s)"
  shows "latch_work T s' < latch_work T s"
proof -
  have "(\<Sum>u\<in>T. steps_left (lpcs s' u)) + steps_left (lpcs s t) = (\<Sum>u\<in>T. steps_left (lpcs s u)) + steps_left c"
    using sum_change_one [OF T, of "\<lambda>u. steps_left (lpcs s' u)" "\<lambda>u. steps_left (lpcs s u)"] by (simp add: p)
  then show ?thesis using less unfolding latch_work_def by linarith
qed

lemma work_go:
  assumes T: "finite T" "t \<in> T" and r: "is_ready s" and c: "lpcs s t = c"
    and go: "latch_go t c s = Some s'"
  shows "latch_work T s' < latch_work T s"
proof -
  have "\<not> crosses s 1" using r by (simp add: crosses_def is_ready_def)
  with r c go show ?thesis
    by (intro work_move [OF T, of s' s "lpcs s' t"])
      (cases c; auto simp: take_mtx_def return_from_wait_def after_count_def is_ready_def split: if_splits)+
qed

lemma work_step:
  assumes T: "finite T" "{t. lpcs s t \<noteq> L_out} \<subseteq> T" and r: "is_ready s" and e: "l_inner e"
    and step: "latch_step e s = Some s'"
  shows "latch_work T s' < latch_work T s \<and> {t. lpcs s' t \<noteq> L_out} \<subseteq> T"
proof (cases e)
  case (L_go t)
  then have t: "t \<in> T" and go: "latch_go t (lpcs s t) s = Some s'" using T step by auto
  have "lpcs s' u = lpcs s u" if "u \<noteq> t" for u
    using go that by (cases "lpcs s t") (auto simp: take_mtx_def return_from_wait_def split: if_splits)
  then show ?thesis using work_go [OF T(1) t r refl go] T(2) t by fastforce
next
  case (L_wake t)
  then have s': "s' = s\<lparr>l_cvq := removeAll t (l_cvq s)\<rparr>" "t \<in> set (l_cvq s)"
    using step by (auto split: if_splits)
  then have "length (removeAll t (l_cvq s)) < length (l_cvq s)" by (simp add: length_removeAll_less)
  with s' T show ?thesis by (simp add: latch_work_def)
qed (use e in auto)

lemma ready_step:
  assumes "0 \<le> sint v" "l_books v s" "l_small e" "latch_step e s = Some s'" "l_fits s'" "is_ready s"
  shows "is_ready s'"
proof (cases "\<exists>t n w. s' = count_down t n w s \<and> unat n < 2 ^ 63")
  case True
  then show ?thesis using assms ready_after_count by blast
next
  case False
  have "l_value s' = l_value s"
  proof (cases e)
    case (L_go t)
    then have "lpcs s t \<noteq> L_counting" using False assms(4) by force
    with L_go assms(4) show ?thesis
      by (cases "lpcs s t") (auto simp: take_mtx_def return_from_wait_def split: if_splits)
  next
    case (L_count_down t n)
    then show ?thesis using False assms by (fastforce split: if_splits)
  qed (use assms in \<open>auto split: if_splits\<close>)
  with assms(6) show ?thesis by (simp add: is_ready_def)
qed

lemma latch_progress:
  assumes x: "l_excl s" and a: "l_alert s" and r: "is_ready s" and t: "lpcs s t \<noteq> L_out"
  shows "\<exists>u. latch_step (L_go u) s \<noteq> None"
proof (cases "l_mtx s")
  case (Some h)
  then have "holder (lpcs s h)" using x by (auto simp: l_excl_def)
  then have "latch_step (L_go h) s \<noteq> None" by (auto simp: holder_def)
  then show ?thesis ..
next
  case None
  have notif: "latch_step (L_go u) s \<noteq> None" if "notifier (lpcs s u)" for u
    using that None by (auto simp: notifier_def take_mtx_def)
  show ?thesis
  proof (cases "lpcs s t = L_blocked \<and> t \<in> set (l_cvq s)")
    case True
    then have "l_cvq s \<noteq> []" by auto
    with a r notif show ?thesis unfolding l_alert_def by blast
  next
    case False
    then have "latch_step (L_go t) s \<noteq> None"
      using t None by (cases "lpcs s t") (auto simp: take_mtx_def)
    then show ?thesis ..
  qed
qed

lemma counted_runs: "runs latch_step es s = Some s' \<Longrightarrow> l_counted s \<le> l_counted s'"
proof (induction es arbitrary: s)
  case (Cons e es)
  from Cons.prems obtain u where "latch_step e s = Some u" "runs latch_step es u = Some s'" by auto
  with Cons.IH [of u] counted_step [of e s u] show ?case by simp
qed simp

lemma latch_drain:
  assumes T: "finite T" and v: "0 \<le> sint v"
  shows "\<lbrakk> l_inv v s; is_ready s; {t. lpcs s t \<noteq> L_out} \<subseteq> T; list_all l_inner fs;
     runs latch_step fs s = Some s'; l_fits s' \<rbrakk> \<Longrightarrow>
     length fs + latch_work T s' \<le> latch_work T s \<and> is_ready s' \<and> l_inv v s'"
proof (induction fs arbitrary: s)
  case Nil
  then show ?case by simp
next
  case (Cons e fs)
  from Cons.prems(5) obtain u where step: "latch_step e s = Some u" and run: "runs latch_step fs u = Some s'"
    by auto
  have e: "l_inner e" using Cons.prems(4) by simp
  have f: "l_fits u" using counted_runs [OF run] Cons.prems(6) by (simp add: l_fits_def)
  have i: "l_inv v u" by (rule l_inv_step [OF v Cons.prems(1) l_inner_small [OF e] step])
  have "l_books v s" using Cons.prems(1) by (simp add: l_inv_def)
  then have r: "is_ready u" using ready_step [OF v _ l_inner_small [OF e] step f] Cons.prems(2) by simp
  have w: "latch_work T u < latch_work T s" "{t. lpcs u t \<noteq> L_out} \<subseteq> T"
    using work_step [OF T Cons.prems(3,2) e step] by simp_all
  show ?case using Cons.IH [OF i r w(2) _ run Cons.prems(6)] Cons.prems(4) w(1) by simp
qed

text \<open>A thread none of whose events occur in the schedule is not inside the latch.\<close>

fun l_tid :: "levent \<Rightarrow> tid" where
  "l_tid (L_count_down t n) = t"
| "l_tid (L_count_down_and_wait t) = t"
| "l_tid (L_wait t) = t"
| "l_tid (L_go t) = t"
| "l_tid (L_wake t) = t"

lemma pcs_other: "\<lbrakk> latch_step e s = Some s'; l_tid e \<noteq> u \<rbrakk> \<Longrightarrow> lpcs s' u = lpcs s u"
proof (cases e)
  case (L_go t)
  assume "latch_step e s = Some s'" "l_tid e \<noteq> u"
  with L_go show ?thesis
    by (cases "lpcs s t") (auto simp: take_mtx_def return_from_wait_def split: if_splits)
qed (auto split: if_splits)

lemma pcs_other_runs:
  "\<lbrakk> runs latch_step es s = Some s'; u \<notin> l_tid ` set es \<rbrakk> \<Longrightarrow> lpcs s' u = lpcs s u"
proof (induction es arbitrary: s)
  case (Cons e es)
  from Cons.prems(1) obtain m where "latch_step e s = Some m" "runs latch_step es m = Some s'" by auto
  with Cons.IH [of m] Cons.prems(2) pcs_other [of e s m u] show ?case by simp
qed simp

lemma inside_tids:
  assumes "runs latch_step es (Latch_init v) = Some s" shows "{t. lpcs s t \<noteq> L_out} \<subseteq> l_tid ` set es"
  using pcs_other_runs [OF assms] by (auto simp: Latch_init_def)

section \<open>Properties\<close>

text \<open>
  C19: as long as the decrements are not negative and their sum fits into 63 bits, the counter is the
  initial value minus their sum, nobody has returned from \<open>wait\<close> before it is down, and the branch of
  \<open>count_down\<close> that locks and notifies has been taken exactly once when the latch has opened and
  never before, whatever the schedule.
\<close>

theorem latch_opens_once:
  assumes "0 \<le> sint v" "list_all l_small es" "runs latch_step es (Latch_init v) = Some s"
    "l_counted s < 2 ^ 63"
  shows "sint (l_value s) = sint v - int (l_counted s) \<and>
    (l_returned s \<noteq> [] \<longrightarrow> sint v \<le> int (l_counted s)) \<and>
    l_crossed s = (if 0 < sint v \<and> sint v \<le> int (l_counted s) then 1 else 0)"
proof -
  have i: "l_inv v s" using lsm.runs_inv [of v "Latch_init v" es s] assms(1-3) l_inv_init by simp
  have f: "l_fits s" using assms(4) by (simp add: l_fits_def)
  have "sint (l_value s) = sint v - int (l_counted s)"
    using l_value_exact [OF _ f assms(1)] i by (simp add: l_inv_def)
  moreover from this have "is_ready s \<longleftrightarrow> sint v \<le> int (l_counted s)" by (auto simp: is_ready_def)
  ultimately show ?thesis using i f by (auto simp: l_inv_def l_once_def)
qed

text \<open>
  C4: \<open>wait\<close> returns once the counter is down: from any reachable state whose counter is at most 0,
  every sequence of steps inside the member functions (spurious wake-ups included) is at most as long
  as the work left, and a state in which no thread can step on has every thread back from its call:
  no wake-up is lost, although \<open>count_down\<close> decrements without the mutex.
\<close>

theorem latch_wait_terminates:
  assumes "0 \<le> sint v" "list_all l_small es" "runs latch_step es (Latch_init v) = Some s" "is_ready s"
    "list_all l_inner fs" "runs latch_step fs s = Some s'" "l_counted s' < 2 ^ 63"
  shows "length fs \<le> latch_work (l_tid ` set es) s \<and>
    ((\<forall>t. latch_step (L_go t) s' = None) \<longrightarrow> (\<forall>t. lpcs s' t = L_out))"
proof -
  have i: "l_inv v s" using lsm.runs_inv [of v "Latch_init v" es s] assms(1-3) l_inv_init by simp
  have f: "l_fits s'" using assms(7) by (simp add: l_fits_def)
  have d: "length fs + latch_work (l_tid ` set es) s' \<le> latch_work (l_tid ` set es) s" "is_ready s'"
    "l_inv v s'"
    using latch_drain [OF _ assms(1) i assms(4) inside_tids [OF assms(3)] assms(5,6) f] by simp_all
  have "\<forall>t. lpcs s' t = L_out" if "\<forall>t. latch_step (L_go t) s' = None"
    using latch_progress [of s'] that d(2,3) f by (auto simp: l_inv_def)
  with d(1) show ?thesis by simp
qed

text \<open>
  Thread 1 waits on a latch of 1 and gets as far as the test of the predicate; thread 0 counts down;
  thread 1 parks, thread 0 synchronises and notifies, thread 1 returns.
\<close>

definition latch_demo :: "levent list" where
  "latch_demo = [L_wait 1, L_go 1, L_go 1, L_go 1, L_go 1, L_go 1, L_count_down 0 1]"

definition latch_demo_end :: "levent list" where
  "latch_demo_end = [L_go 0, L_go 0, L_go 0, L_go 1, L_go 1]"

lemma latch_demo_runs:
  "map_option (\<lambda>s. (is_ready s, l_counted s, map (lpcs s) [0, 1]))
     (runs latch_step latch_demo (Latch_init 1)) = Some (True, 1, [L_sync False, L_blocked])"
  by code_simp

lemma latch_demo_small: "list_all l_small latch_demo" "list_all l_inner latch_demo_end" "0 \<le> sint (1 :: u64)"
  by (simp_all add: latch_demo_def latch_demo_end_def)

theorem latch_opens_once_witness:
  "\<exists>s. runs latch_step latch_demo (Latch_init 1) = Some s \<and> l_crossed s = 1 \<and> sint (l_value s) = 0"
proof -
  obtain s where s: "runs latch_step latch_demo (Latch_init 1) = Some s" "l_counted s = 1"
    using latch_demo_runs by (elim map_option_SomeE) simp
  from latch_opens_once [OF latch_demo_small(3,1) s(1)] s show ?thesis by simp
qed

theorem latch_wait_terminates_witness:
  "\<exists>s s'. runs latch_step latch_demo (Latch_init 1) = Some s \<and> is_ready s \<and>
     runs latch_step latch_demo_end s = Some s' \<and> l_returned s' = [1] \<and>
     5 \<le> latch_work (l_tid ` set latch_demo) s"
proof -
  obtain s where s: "runs latch_step latch_demo (Latch_init 1) = Some s" "is_ready s"
    using latch_demo_runs by (elim map_option_SomeE) simp
  have "map_option (\<lambda>s. (l_counted s, l_returned s))
      (runs latch_step (latch_demo @ latch_demo_end) (Latch_init 1)) = Some (1, [1])" by code_simp
  then obtain s' where s': "runs latch_step (latch_demo @ latch_demo_end) (Latch_init 1) = Some s'"
    "l_counted s' = 1" "l_returned s' = [1]" by (elim map_option_SomeE) simp
  then have run: "runs latch_step latch_demo_end s = Some s'" using s(1) by (simp add: runs_append)
  have "length latch_demo_end \<le> latch_work (l_tid ` set latch_demo) s"
    using latch_wait_terminates [OF latch_demo_small(3,1) s latch_demo_small(2) run] s'(2) by simp
  then have "5 \<le> latch_work (l_tid ` set latch_demo) s" by (simp add: latch_demo_end_def)
  with s run s' show ?thesis by blast
qed

end
