(* ===== verification/Spin_Lock.thy ===== *)
theory Spin_Lock
  imports Event_System
begin

text \<open>
  \<open>SpinLock\<close> and \<open>FairSpinLock\<close> of \<^verbatim>\<open>concurrency/spin_lock.h\<close>.  Each lock is modelled twice
  over: the waiting loop of \<open>lock\<close> as a partial function of what its probes of the atomic return (it
  returns only if some probe succeeds), and the lock shared by all threads as an event system whose
  events are the atomic accesses.  \<open>atomic_uint\<close> is 32 bits, \<open>uint_fast16_t\<close> 64 (glibc on
  x86-64).  Only the thread inside calls \<open>unlock\<close>: the client's side of the contract, a guard of
  the unlock events.
\<close>

section \<open>Waiting with patience\<close>

definition SPIN_CYCLES_BEFORE_YIELD :: u64 where
  "SPIN_CYCLES_BEFORE_YIELD = 100"

definition SPIN_CYCLES_BEFORE_YIELD_FAIR :: u64 where
  "SPIN_CYCLES_BEFORE_YIELD_FAIR = 100"

text \<open>The body of both loops: the next value of \<open>patience\<close>, and whether the thread yields.\<close>

definition lose_patience :: "u64 \<Rightarrow> u64 \<Rightarrow> u64 \<times> bool" where
  "lose_patience full patience =
     (let patience = patience - 1 in if patience = 0 then (full, True) else (patience, False))"

text \<open>
  \<open>busy i\<close> says that probe \<open>i\<close> found the lock taken; the result is the number of the probe that
  got in and the number of calls of \<open>yield\<close>, \<open>None\<close> a loop that never ends.
\<close>

partial_function (option) spin_loop ::
    "u64 \<Rightarrow> (nat \<Rightarrow> bool) \<Rightarrow> nat \<Rightarrow> u64 \<Rightarrow> nat \<Rightarrow> (nat \<times> nat) option" where
  "spin_loop full busy i patience yields =
     (if busy i
      then (case lose_patience full patience of (p, y) \<Rightarrow>
              spin_loop full busy (Suc i) p (if y then Suc yields else yields))
      else Some (i, yields))"

declare spin_loop.simps [code]

definition SpinLock_lock :: "(nat \<Rightarrow> bool) \<Rightarrow> (nat \<times> nat) option" where
  "SpinLock_lock test_and_set = spin_loop SPIN_CYCLES_BEFORE_YIELD test_and_set 0 SPIN_CYCLES_BEFORE_YIELD 0"

definition FairSpinLock_lock :: "u32 \<Rightarrow> (nat \<Rightarrow> u32) \<Rightarrow> (nat \<times> nat) option" where
  "FairSpinLock_lock ticket loads =
     spin_loop SPIN_CYCLES_BEFORE_YIELD_FAIR (\<lambda>i. loads i \<noteq> ticket) 0 SPIN_CYCLES_BEFORE_YIELD_FAIR 0"

text \<open>The patience left and the yields made after \<open>i\<close> failed probes.\<close>

lemma patience_next:
  "lose_patience 100 (of_nat (100 - i mod 100)) =
     (of_nat (100 - Suc i mod 100), Suc i div 100 = Suc (i div 100))"
proof -
  have r: "i mod 100 < 100" by simp
  have e: "(of_nat (100 - i mod 100) :: u64) - 1 = of_nat (99 - i mod 100)"
  proof -
    have "100 - i mod 100 = Suc (99 - i mod 100)" using r by linarith
    then show ?thesis by simp
  qed
  have z: "(of_nat (99 - i mod 100) :: u64) = 0 \<longleftrightarrow> i mod 100 = 99"
  proof -
    have "(of_nat m :: u64) = 0 \<longleftrightarrow> m = 0" if "m < 100" for m
    proof -
      have "unat (of_nat m :: u64) = m" using that by (simp add: unat_of_nat take_bit_nat_eq_self)
      then show ?thesis by (metis unat_eq_zero)
    qed
    from this [of "99 - i mod 100"] have "(of_nat (99 - i mod 100) :: u64) = 0 \<longleftrightarrow> 99 - i mod 100 = 0"
      using r by (simp del: of_nat_diff)
    with r show ?thesis by auto
  qed
  show ?thesis
  proof (cases "i mod 100 = 99")
    case True
    then have "Suc i mod 100 = 0" "Suc i div 100 = Suc (i div 100)"
      by (simp_all add: mod_Suc div_Suc)
    with True e z show ?thesis by (simp add: lose_patience_def Let_def)
  next
    case False
    then have "Suc i mod 100 = Suc (i mod 100)" "Suc i div 100 = i div 100"
      by (simp_all add: mod_Suc div_Suc)
    with False e z r show ?thesis by (simp add: lose_patience_def Let_def)
  qed
qed

lemma yields_next: "(if Suc i div 100 = Suc (i div 100) then Suc (i div 100) else i div 100) = Suc i div 100"
  by (auto simp: div_Suc)

lemma spin_loop_runs:
  assumes "\<not> busy n" "\<And>k. \<lbrakk> i \<le> k; k < n \<rbrakk> \<Longrightarrow> busy k" "i \<le> n"
  shows "spin_loop 100 busy i (of_nat (100 - i mod 100)) (i div 100) = Some (n, n div 100)"
  using assms(3,2)
proof (induction i rule: inc_induct)
  case base
  then show ?case using assms(1) by (simp add: spin_loop.simps)
next
  case (step k)
  then have "busy k" by simp
  moreover have "spin_loop 100 busy (Suc k) (of_nat (100 - Suc k mod 100)) (Suc k div 100) = Some (n, n div 100)"
    using step by simp
  ultimately show ?case
    by (subst spin_loop.simps) (simp only: patience_next yields_next prod.case if_True)
qed

lemma spin_loop_result:
  assumes "spin_loop full busy i p y = Some r"
  shows "i \<le> fst r \<and> \<not> busy (fst r) \<and> (\<forall>k. i \<le> k \<and> k < fst r \<longrightarrow> busy k)"
proof (rule spin_loop.raw_induct
    [where P = "\<lambda>full busy i p y r. i \<le> fst r \<and> \<not> busy (fst r) \<and> (\<forall>k. i \<le> k \<and> k < fst r \<longrightarrow> busy k)", OF _ assms])
  fix lk :: "u64 \<Rightarrow> (nat \<Rightarrow> bool) \<Rightarrow> nat \<Rightarrow> u64 \<Rightarrow> nat \<Rightarrow> (nat \<times> nat) option"
    and full :: u64 and busy :: "nat \<Rightarrow> bool" and i :: nat and p :: u64 and y :: nat and r :: "nat \<times> nat"
  assume IH: "\<And>full busy i p y r. lk full busy i p y = Some r \<Longrightarrow>
      i \<le> fst r \<and> \<not> busy (fst r) \<and> (\<forall>k. i \<le> k \<and> k < fst r \<longrightarrow> busy k)"
    and eq: "(if busy i then (case lose_patience full p of (p, y') \<Rightarrow> lk full busy (Suc i) p (if y' then Suc y else y))
      else Some (i, y)) = Some r"
  show "i \<le> fst r \<and> \<not> busy (fst r) \<and> (\<forall>k. i \<le> k \<and> k < fst r \<longrightarrow> busy k)"
  proof (cases "busy i")
    case True
    obtain p' b where pb: "lose_patience full p = (p', b)" by (cases "lose_patience full p")
    have "lk full busy (Suc i) p' (if b then Suc y else y) = Some r"
      using eq True pb by simp
    then have r: "Suc i \<le> fst r \<and> \<not> busy (fst r) \<and> (\<forall>k. Suc i \<le> k \<and> k < fst r \<longrightarrow> busy k)"
      by (rule IH)
    have "busy k" if "i \<le> k" "k < fst r" for k
      using r True that by (cases "k = i") auto
    with r show ?thesis by simp
  next
    case False
    then show ?thesis using eq by auto
  qed
qed

text \<open>The loop returns exactly when a probe succeeds, at the first one, with a yield every 100 probes.\<close>

lemma spin_loop_iff:
  "spin_loop 100 busy 0 100 0 = Some (n, y) \<longleftrightarrow>
     \<not> busy n \<and> (\<forall>k < n. busy k) \<and> y = n div 100"
proof
  assume r: "spin_loop 100 busy 0 100 0 = Some (n, y)"
  have b: "\<not> busy n" "\<forall>k < n. busy k" using spin_loop_result [OF r] by simp_all
  with spin_loop_runs [of busy n 0] r show "\<not> busy n \<and> (\<forall>k < n. busy k) \<and> y = n div 100" by simp
next
  assume "\<not> busy n \<and> (\<forall>k < n. busy k) \<and> y = n div 100"
  with spin_loop_runs [of busy n 0] show "spin_loop 100 busy 0 100 0 = Some (n, y)" by simp
qed

section \<open>Locks as event systems\<close>

text \<open>
  What both locks promise: an invariant that every step keeps and under which at most one thread is
  inside.
\<close>

locale exclusive_lock = inv_system step inv
  for step :: "'e \<Rightarrow> 's \<Rightarrow> 's option" and inv :: "'s \<Rightarrow> bool" +
  fixes inside :: "'s \<Rightarrow> 't \<Rightarrow> bool"
  assumes exclusive: "\<lbrakk> inv s; inside s t; inside s u \<rbrakk> \<Longrightarrow> t = u"
begin

lemma runs_exclusive: "\<lbrakk> inv s; runs step es s = Some s'; inside s' t; inside s' u \<rbrakk> \<Longrightarrow> t = u"
  using runs_inv exclusive by blast

end

section \<open>SpinLock\<close>

datatype spc = S_out | S_spin u64 | S_in

record spin =
  s_flag :: bool
  spcs :: "tid \<Rightarrow> spc"

definition SpinLock :: spin where
  "SpinLock = \<lparr>s_flag = False, spcs = (\<lambda>_. S_out)\<rparr>"

datatype sevent = S_lock tid | S_probe tid | S_try_lock tid | S_unlock tid

text \<open>\<open>test_and_set\<close>: the old value of the flag, which is set afterwards.\<close>

definition test_and_set :: "spin \<Rightarrow> bool \<times> spin" where
  "test_and_set s = (s_flag s, s\<lparr>s_flag := True\<rparr>)"

definition spin_probe :: "tid \<Rightarrow> u64 \<Rightarrow> spin \<Rightarrow> spin" where
  "spin_probe t patience s =
     (case test_and_set s of (was, s) \<Rightarrow>
        s\<lparr>spcs := (spcs s)(t := if was then S_spin (fst (lose_patience SPIN_CYCLES_BEFORE_YIELD patience))
                                else S_in)\<rparr>)"

definition spin_try_lock :: "tid \<Rightarrow> spin \<Rightarrow> spin" where
  "spin_try_lock t s =
     (case test_and_set s of (was, s) \<Rightarrow> if \<not> was then s\<lparr>spcs := (spcs s)(t := S_in)\<rparr> else s)"

definition spin_unlock :: "tid \<Rightarrow> spin \<Rightarrow> spin" where
  "spin_unlock t s = s\<lparr>s_flag := False, spcs := (spcs s)(t := S_out)\<rparr>"

fun spin_step :: "sevent \<Rightarrow> spin \<Rightarrow> spin option" where
  "spin_step (S_lock t) s =
     (if spcs s t = S_out then Some (s\<lparr>spcs := (spcs s)(t := S_spin SPIN_CYCLES_BEFORE_YIELD)\<rparr>) else None)"
| "spin_step (S_probe t) s = (case spcs s t of S_spin p \<Rightarrow> Some (spin_probe t p s) | _ \<Rightarrow> None)"
| "spin_step (S_try_lock t) s = (if spcs s t = S_out then Some (spin_try_lock t s) else None)"
| "spin_step (S_unlock t) s = (if spcs s t = S_in then Some (spin_unlock t s) else None)"

text \<open>The flag says whether there is an owner, and the owner is the one thread inside.\<close>

definition spin_owner :: "spin \<Rightarrow> tid option \<Rightarrow> bool" where
  "spin_owner s x \<longleftrightarrow> (s_flag s \<longleftrightarrow> x \<noteq> None) \<and> (\<forall>u. spcs s u = S_in \<longleftrightarrow> x = Some u)"

definition spin_inv :: "spin \<Rightarrow> bool" where
  "spin_inv s \<longleftrightarrow> (\<exists>x. spin_owner s x)"

fun owner_after :: "sevent \<Rightarrow> tid option \<Rightarrow> tid option" where
  "owner_after (S_lock t) x = x"
| "owner_after (S_probe t) x = (if x = None then Some t else x)"
| "owner_after (S_try_lock t) x = (if x = None then Some t else x)"
| "owner_after (S_unlock t) x = None"

lemma spin_owner_step:
  assumes o: "spin_owner s x" and step: "spin_step e s = Some s'" shows "spin_owner s' (owner_after e x)"
proof -
  have own: "s_flag s \<longleftrightarrow> x \<noteq> None" "spcs s u = S_in \<longleftrightarrow> x = Some u" for u
    using o by (simp_all add: spin_owner_def)
  show ?thesis
  proof (cases e)
    case (S_lock t)
    then have "x \<noteq> Some t" "s' = s\<lparr>spcs := (spcs s)(t := S_spin SPIN_CYCLES_BEFORE_YIELD)\<rparr>"
      using step own(2) [of t] by (simp_all split: if_splits)
    with S_lock show ?thesis by (simp add: spin_owner_def own)
  next
    case (S_probe t)
    then obtain p where p: "spcs s t = S_spin p" "s' = spin_probe t p s" using step by (auto split: spc.splits)
    then have "x \<noteq> Some t" using own(2) [of t] by simp
    with p S_probe show ?thesis
      by (cases x) (simp_all add: spin_owner_def spin_probe_def test_and_set_def own)
  next
    case (S_try_lock t)
    then have "x \<noteq> Some t" "s' = spin_try_lock t s" using step own(2) [of t] by (simp_all split: if_splits)
    with S_try_lock show ?thesis
      by (cases x) (simp_all add: spin_owner_def spin_try_lock_def test_and_set_def own)
  next
    case (S_unlock t)
    then have "x = Some t" "s' = spin_unlock t s" using step own(2) [of t] by (simp_all split: if_splits)
    with S_unlock show ?thesis by (simp add: spin_owner_def spin_unlock_def own)
  qed
qed

lemma spin_inv_step: "\<lbrakk> spin_inv s; spin_step e s = Some s' \<rbrakk> \<Longrightarrow> spin_inv s'"
  unfolding spin_inv_def using spin_owner_step by blast

lemma spin_inv_exclusive: "\<lbrakk> spin_inv s; spcs s t = S_in; spcs s u = S_in \<rbrakk> \<Longrightarrow> t = u"
  by (auto simp: spin_inv_def spin_owner_def)

interpretation spl: exclusive_lock spin_step spin_inv "\<lambda>s t. spcs s t = S_in"
  by unfold_locales (fact spin_inv_step, fact spin_inv_exclusive)

lemma spin_inv_init: "spin_inv SpinLock"
  by (auto simp: spin_inv_def spin_owner_def SpinLock_def)

section \<open>FairSpinLock\<close>

text \<open>
  Threads are named by 32-bit words, which is to say that there are at most \<open>2 ^ 32\<close> of them.
  \<open>F_spin k p\<close> holds ticket \<open>k\<close>.
\<close>

datatype fpc = F_out | F_spin u32 u64 | F_in

record fair =
  f_next :: u32
  f_active :: u32
  fpcs :: "u32 \<Rightarrow> fpc"

definition FairSpinLock :: fair where
  "FairSpinLock = \<lparr>f_next = 0, f_active = 0, fpcs = (\<lambda>_. F_out)\<rparr>"

datatype fevent = F_lock u32 | F_probe u32 | F_unlock u32

definition fair_draw :: "u32 \<Rightarrow> fair \<Rightarrow> fair" where
  "fair_draw t s =
     s\<lparr>f_next := f_next s + 1, fpcs := (fpcs s)(t := F_spin (f_next s) SPIN_CYCLES_BEFORE_YIELD_FAIR)\<rparr>"

definition fair_probe :: "u32 \<Rightarrow> u32 \<Rightarrow> u64 \<Rightarrow> fair \<Rightarrow> fair" where
  "fair_probe t ticket patience s =
     s\<lparr>fpcs := (fpcs s)(t :=
         if f_active s \<noteq> ticket
         then F_spin ticket (fst (lose_patience SPIN_CYCLES_BEFORE_YIELD_FAIR patience)) else F_in)\<rparr>"

definition fair_unlock :: "u32 \<Rightarrow> fair \<Rightarrow> fair" where
  "fair_unlock t s = s\<lparr>f_active := f_active s + 1, fpcs := (fpcs s)(t := F_out)\<rparr>"

fun fair_step :: "fevent \<Rightarrow> fair \<Rightarrow> fair option" where
  "fair_step (F_lock t) s = (if fpcs s t = F_out then Some (fair_draw t s) else None)"
| "fair_step (F_probe t) s = (case fpcs s t of F_spin k p \<Rightarrow> Some (fair_probe t k p s) | _ \<Rightarrow> None)"
| "fair_step (F_unlock t) s = (if fpcs s t = F_in then Some (fair_unlock t s) else None)"

text \<open>
  The specification: a queue of threads whose head, and only the head, can enter; unlocking removes
  it.  No tickets, no counters that wrap.
\<close>

record fifo =
  q_line :: "u32 list"
  q_inside :: bool

fun fifo_step :: "fevent \<Rightarrow> fifo \<Rightarrow> fifo option" where
  "fifo_step (F_lock t) a =
     (if t \<notin> set (q_line a) then Some (a\<lparr>q_line := q_line a @ [t]\<rparr>) else None)"
| "fifo_step (F_probe t) a =
     (case q_line a of
        [] \<Rightarrow> None
      | h # r \<Rightarrow>
          if t = h then (if q_inside a then None else Some (a\<lparr>q_inside := True\<rparr>))
          else if t \<in> set r then Some a else None)"
| "fifo_step (F_unlock t) a =
     (case q_line a of
        [] \<Rightarrow> None
      | h # r \<Rightarrow> if t = h \<and> q_inside a then Some \<lparr>q_line = r, q_inside = False\<rparr> else None)"

definition fifo_init :: fifo where
  "fifo_init = \<lparr>q_line = [], q_inside = False\<rparr>"

text \<open>
  The thread at place \<open>i\<close> of the line holds the ticket \<open>i\<close> after the active one; with at most
  \<open>2 ^ 32\<close> threads in the line the tickets are distinct although they wrap.
\<close>

definition fair_rel :: "fair \<Rightarrow> fifo \<Rightarrow> bool" where
  "fair_rel c a \<longleftrightarrow> distinct (q_line a) \<and> f_next c = f_active c + of_nat (length (q_line a)) \<and>
     (q_inside a \<longrightarrow> q_line a \<noteq> []) \<and>
     (\<forall>t. t \<notin> set (q_line a) \<longrightarrow> fpcs c t = F_out) \<and>
     (\<forall>i < length (q_line a). if i = 0 \<and> q_inside a then fpcs c (q_line a ! i) = F_in
        else \<exists>p. fpcs c (q_line a ! i) = F_spin (f_active c + of_nat i) p)"

lemma card_u32: "card (UNIV :: u32 set) = 2 ^ 32"
  by (simp add: card_word)

lemma line_bound: "distinct (xs :: u32 list) \<Longrightarrow> length xs \<le> 2 ^ 32"
  using card_mono [of UNIV "set xs"] by (simp add: distinct_card card_u32)

lemma of_nat_ticket:
  assumes "0 < i" "i < 2 ^ 32" shows "(of_nat i :: u32) \<noteq> 0"
proof -
  have "unat (of_nat i :: u32) = i" using assms by (simp add: unat_of_nat take_bit_nat_eq_self)
  with assms show ?thesis by (metis less_numeral_extra(3) unat_0)
qed

lemma fair_rel_init: "fair_rel FairSpinLock fifo_init"
  by (simp add: fair_rel_def FairSpinLock_def fifo_init_def)

text \<open>What the relation says of the pc of a thread.\<close>

lemma fair_rel_pc:
  assumes r: "fair_rel c a"
  shows "fpcs c t = F_out \<longleftrightarrow> t \<notin> set (q_line a)"
    "fpcs c t = F_in \<longleftrightarrow> q_inside a \<and> (\<exists>r. q_line a = t # r)"
    "fpcs c t = F_spin k p \<Longrightarrow> (\<exists>r. q_line a = t # r) \<longleftrightarrow> k = f_active c"
proof -
  have bound: "length (q_line a) \<le> 2 ^ 32" using r line_bound by (auto simp: fair_rel_def)
  have out: "t \<notin> set (q_line a) \<Longrightarrow> fpcs c t = F_out" using r by (simp add: fair_rel_def)
  have at: "if i = 0 \<and> q_inside a then fpcs c (q_line a ! i) = F_in
      else \<exists>p. fpcs c (q_line a ! i) = F_spin (f_active c + of_nat i) p" if "i < length (q_line a)" for i
    using r that by (simp add: fair_rel_def)
  have d: "distinct (q_line a)" "q_inside a \<longrightarrow> q_line a \<noteq> []" using r by (simp_all add: fair_rel_def)
  have hd: "(\<exists>r. q_line a = t # r) \<longleftrightarrow> q_line a \<noteq> [] \<and> q_line a ! 0 = t"
    by (cases "q_line a") auto
  show "fpcs c t = F_out \<longleftrightarrow> t \<notin> set (q_line a)"
    using out at by (fastforce simp: in_set_conv_nth split: if_splits)
  show "fpcs c t = F_in \<longleftrightarrow> q_inside a \<and> (\<exists>r. q_line a = t # r)"
  proof
    assume i: "fpcs c t = F_in"
    then have "t \<in> set (q_line a)" using out by force
    then obtain i where "i < length (q_line a)" "q_line a ! i = t" by (auto simp: in_set_conv_nth)
    with at [of i] i show "q_inside a \<and> (\<exists>r. q_line a = t # r)" unfolding hd by (auto split: if_splits)
  next
    assume "q_inside a \<and> (\<exists>r. q_line a = t # r)"
    with at [of 0] show "fpcs c t = F_in" unfolding hd by auto
  qed
  assume s: "fpcs c t = F_spin k p"
  then have "t \<in> set (q_line a)" using out by force
  then obtain i where i: "i < length (q_line a)" "q_line a ! i = t" by (auto simp: in_set_conv_nth)
  with at [OF i(1)] s have k: "k = f_active c + of_nat i" by (auto split: if_splits)
  have "q_line a ! 0 = t \<longleftrightarrow> i = 0"
  proof -
    have "0 < length (q_line a)" using i(1) by linarith
    then show ?thesis using nth_eq_iff_index_eq [OF d(1) _ i(1), of 0] i(2) by auto
  qed
  moreover have "k = f_active c \<longleftrightarrow> i = 0" using k of_nat_ticket [of i] i(1) bound by auto
  ultimately show "(\<exists>r. q_line a = t # r) \<longleftrightarrow> k = f_active c" unfolding hd using i(1) by auto
qed

text \<open>One simulation lemma for each event.\<close>

lemma fair_rel_lock:
  assumes r: "fair_rel c a"
  shows "rel_option fair_rel (fair_step (F_lock t) c) (fifo_step (F_lock t) a)"
proof (cases "t \<in> set (q_line a)")
  case True
  then show ?thesis using fair_rel_pc(1) [OF r, of t] by auto
next
  case False
  then have o: "fpcs c t = F_out" using fair_rel_pc(1) [OF r, of t] by simp
  have n: "\<And>i. i < length (q_line a) \<Longrightarrow> q_line a ! i \<noteq> t" using False by (metis nth_mem)
  have "fair_rel (fair_draw t c) (a\<lparr>q_line := q_line a @ [t]\<rparr>)"
    using r False n unfolding fair_rel_def
    by (auto simp: fair_draw_def nth_append less_Suc_eq)
  then show ?thesis using False o by simp
qed

lemma fair_rel_probe_spin:
  assumes r: "fair_rel c a" and s: "fpcs c t = F_spin k p"
  shows "rel_option fair_rel (fair_step (F_probe t) c) (fifo_step (F_probe t) a)"
proof (cases "k = f_active c")
  case True
  then obtain q where q: "q_line a = t # q" using fair_rel_pc(3) [OF r s] by auto
  then have n: "\<not> q_inside a" using fair_rel_pc(2) [OF r, of t] s by simp
  have "fair_rel (fair_probe t k p c) (a\<lparr>q_inside := True\<rparr>)"
    using r q n True by (auto simp: fair_rel_def fair_probe_def nth_Cons split: nat.splits)
  with q n show ?thesis using s by simp
next
  case False
  have "t \<in> set (q_line a)" using fair_rel_pc(1) [OF r, of t] s by simp
  with False obtain h q where q: "q_line a = h # q" "t \<noteq> h" "t \<in> set q"
    using fair_rel_pc(3) [OF r s] by (cases "q_line a") auto
  have "fair_rel (fair_probe t k p c) a"
    using r q False s by (auto simp: fair_rel_def fair_probe_def)
  with q show ?thesis using s by simp
qed

lemma fair_rel_probe:
  assumes r: "fair_rel c a"
  shows "rel_option fair_rel (fair_step (F_probe t) c) (fifo_step (F_probe t) a)"
proof (cases "fpcs c t")
  case F_out
  then show ?thesis using fair_rel_pc(1) [OF r, of t] by (cases "q_line a") auto
next
  case F_in
  then show ?thesis using fair_rel_pc(2) [OF r, of t] by auto
qed (rule fair_rel_probe_spin [OF r])

lemma fair_rel_unlock:
  assumes r: "fair_rel c a"
  shows "rel_option fair_rel (fair_step (F_unlock t) c) (fifo_step (F_unlock t) a)"
proof (cases "fpcs c t = F_in")
  case True
  then obtain q where q: "q_line a = t # q" "q_inside a" using fair_rel_pc(2) [OF r, of t] by auto
  have "fair_rel (fair_unlock t c) \<lparr>q_line = q, q_inside = False\<rparr>"
    using r q by (auto simp: fair_rel_def fair_unlock_def nth_Cons algebra_simps split: nat.splits)
  with q True show ?thesis by simp
next
  case False
  then have "fifo_step (F_unlock t) a = None"
    using fair_rel_pc(2) [OF r, of t] by (cases "q_line a") auto
  with False show ?thesis by simp
qed

lemma fair_rel_step: "fair_rel c a \<Longrightarrow> rel_option fair_rel (fair_step e c) (fifo_step e a)"
  by (cases e) (simp_all only: fair_rel_lock fair_rel_probe fair_rel_unlock)

interpretation fqr: bisim_system fair_step fifo_step fair_rel
  by unfold_locales (rule fair_rel_step)

lemma fair_reach:
  assumes "runs fair_step es FairSpinLock = Some s"
  obtains a where "runs fifo_step es fifo_init = Some a" "fair_rel s a"
  using fqr.runs_forth [OF fair_rel_init assms] by blast

section \<open>How many threads are ahead\<close>

definition ahead :: "u32 \<Rightarrow> fifo \<Rightarrow> nat" where
  "ahead t a = length (takeWhile (\<lambda>u. u \<noteq> t) (q_line a))"

fun unlocks :: "fevent list \<Rightarrow> nat" where
  "unlocks [] = 0"
| "unlocks (F_unlock t # es) = Suc (unlocks es)"
| "unlocks (e # es) = unlocks es"

lemma ahead_step:
  "\<lbrakk> fifo_step e a = Some a'; t \<in> set (q_line a); e \<noteq> F_unlock t \<rbrakk> \<Longrightarrow>
     t \<in> set (q_line a') \<and> ahead t a = ahead t a' + unlocks [e]"
  by (cases e) (auto simp: ahead_def split: list.splits if_splits)

lemma unlocks_Cons: "unlocks (e # es) = unlocks [e] + unlocks es"
  by (cases e) simp_all

lemma ahead_runs:
  "\<lbrakk> runs fifo_step es a = Some a'; t \<in> set (q_line a); F_unlock t \<notin> set es \<rbrakk> \<Longrightarrow>
     t \<in> set (q_line a') \<and> ahead t a = ahead t a' + unlocks es"
proof (induction es arbitrary: a)
  case Nil
  then show ?case by simp
next
  case (Cons e es)
  from Cons.prems(1) obtain m where m: "fifo_step e a = Some m" "runs fifo_step es m = Some a'" by auto
  have "e \<noteq> F_unlock t" using Cons.prems(3) by auto
  from ahead_step [OF m(1) Cons.prems(2) this] Cons.IH [OF m(2)] Cons.prems(3)
  show ?case by (simp add: unlocks_Cons [of e es])
qed

lemma takeWhile_place:
  "\<lbrakk> i < length xs; xs ! i = t; distinct xs \<rbrakk> \<Longrightarrow> length (takeWhile (\<lambda>u. u \<noteq> t) xs) = i"
proof (induction xs arbitrary: i)
  case (Cons x xs)
  then show ?case by (cases i) auto
qed simp

text \<open>The distance from the active ticket to a thread's own is the number of threads ahead of it.\<close>

lemma ahead_ticket:
  assumes r: "fair_rel c a" and s: "fpcs c t = F_spin k p"
  shows "unat (k - f_active c) = ahead t a" "t \<in> set (q_line a)"
proof -
  have d: "distinct (q_line a)" using r by (simp add: fair_rel_def)
  have bound: "length (q_line a) \<le> 2 ^ 32" by (rule line_bound [OF d])
  show "t \<in> set (q_line a)" using fair_rel_pc(1) [OF r, of t] s by simp
  then obtain i where i: "i < length (q_line a)" "q_line a ! i = t" by (auto simp: in_set_conv_nth)
  have "if i = 0 \<and> q_inside a then fpcs c (q_line a ! i) = F_in
      else \<exists>p. fpcs c (q_line a ! i) = F_spin (f_active c + of_nat i) p"
    using r i(1) by (simp add: fair_rel_def)
  then have "k = f_active c + of_nat i" using s i(2) by (auto split: if_splits)
  moreover have "unat (of_nat i :: u32) = i" using i(1) bound by (simp add: unat_of_nat take_bit_nat_eq_self)
  ultimately show "unat (k - f_active c) = ahead t a"
    using takeWhile_place [OF i d] by (simp add: ahead_def)
qed

section \<open>Properties\<close>

text \<open>
  C33: \<open>SpinLock::lock\<close> and \<open>FairSpinLock::lock\<close> return exactly when one of their probes finds the lock
  free, at the first such probe, having yielded once per 100 failed ones; when none does they do not
  return.
\<close>

theorem spin_loops_return:
  "(SpinLock_lock taken = Some (n, y) \<longleftrightarrow> \<not> taken n \<and> (\<forall>k < n. taken k) \<and> y = n div 100) \<and>
   (FairSpinLock_lock ticket loads = Some (n, y) \<longleftrightarrow>
      loads n = ticket \<and> (\<forall>k < n. loads k \<noteq> ticket) \<and> y = n div 100) \<and>
   (SpinLock_lock taken = None \<longleftrightarrow> (\<forall>k. taken k))"
proof -
  have iff: "SpinLock_lock taken = Some (n, y) \<longleftrightarrow> \<not> taken n \<and> (\<forall>k < n. taken k) \<and> y = n div 100" for n y
    by (simp add: SpinLock_lock_def SPIN_CYCLES_BEFORE_YIELD_def spin_loop_iff)
  have "SpinLock_lock taken \<noteq> None" if "\<not> taken m" for m
  proof -
    have "\<not> taken (LEAST k. \<not> taken k)" by (rule LeastI [of "\<lambda>k. \<not> taken k", OF that])
    moreover have "\<forall>k < (LEAST k. \<not> taken k). taken k" by (auto dest: not_less_Least)
    ultimately show ?thesis using iff by blast
  qed
  moreover have "SpinLock_lock taken = None" if "\<forall>k. taken k"
    using that iff by (cases "SpinLock_lock taken") auto
  ultimately have "SpinLock_lock taken = None \<longleftrightarrow> (\<forall>k. taken k)" by blast
  with iff show ?thesis
    by (simp add: FairSpinLock_lock_def SPIN_CYCLES_BEFORE_YIELD_FAIR_def spin_loop_iff)
qed

text \<open>
  C32: \<open>SpinLock\<close> is a mutex: after any interleaving of \<open>lock\<close>, its probes, \<open>try_lock\<close> and \<open>unlock\<close> at
  most one thread is inside, and the flag is set exactly when one is.
\<close>

theorem spin_lock_exclusive:
  assumes "runs spin_step es SpinLock = Some s"
  shows "(spcs s t = S_in \<and> spcs s u = S_in \<longrightarrow> t = u) \<and> (s_flag s \<longleftrightarrow> (\<exists>v. spcs s v = S_in))"
proof -
  have "spin_inv s" by (rule spl.runs_inv [OF spin_inv_init assms])
  then have "s_flag s \<longleftrightarrow> (\<exists>v. spcs s v = S_in)" by (auto simp: spin_inv_def spin_owner_def)
  with spl.runs_exclusive [OF spin_inv_init assms] show ?thesis by blast
qed

text \<open>
  C11: with at most \<open>2 ^ 32\<close> threads the ticket lock is a first-in first-out queue: every schedule runs on
  \<open>FairSpinLock\<close> exactly when it runs on the queue, into related states, for ever, although both ticket
  counters wrap.
\<close>

theorem fair_spin_refines_fifo:
  "rel_option fair_rel (runs fair_step es FairSpinLock) (runs fifo_step es fifo_init)"
  by (rule fqr.runs_bisim [OF fair_rel_init])

text \<open>
  The ticket lock excludes and hands over: at most one thread is inside, and while some thread has a
  ticket there is always one that is inside or that holds the active ticket, so that its next probe
  succeeds.
\<close>

lemma fair_spin_handover:
  assumes "runs fair_step es FairSpinLock = Some s"
  shows "(fpcs s t = F_in \<and> fpcs s u = F_in \<longrightarrow> t = u) \<and>
    (fpcs s t \<noteq> F_out \<longrightarrow> (\<exists>v. fpcs s v = F_in \<or>
       (\<exists>s'. fair_step (F_probe v) s = Some s' \<and> fpcs s' v = F_in)))"
proof -
  obtain a where r: "fair_rel s a" using fair_reach [OF assms] by blast
  have ex: "fpcs s t = F_in \<and> fpcs s u = F_in \<longrightarrow> t = u" using fair_rel_pc(2) [OF r] by auto
  have "\<exists>v. fpcs s v = F_in \<or> (\<exists>s'. fair_step (F_probe v) s = Some s' \<and> fpcs s' v = F_in)"
    if "fpcs s t \<noteq> F_out"
  proof -
    have "t \<in> set (q_line a)" using fair_rel_pc(1) [OF r, of t] that by simp
    then obtain v q where q: "q_line a = v # q" by (cases "q_line a") auto
    show ?thesis
    proof (cases "fpcs s v")
      case F_out
      then show ?thesis using fair_rel_pc(1) [OF r, of v] q by simp
    next
      case (F_spin k p)
      then have "k = f_active s" using fair_rel_pc(3) [OF r F_spin] q by simp
      with F_spin have "fair_step (F_probe v) s = Some (fair_probe v k p s)" "fpcs (fair_probe v k p s) v = F_in"
        by (simp_all add: fair_probe_def)
      then show ?thesis by blast
    qed blast
  qed
  with ex show ?thesis by blast
qed

text \<open>
  C30: nobody overtakes: from the moment thread \<open>t\<close> has drawn ticket \<open>k\<close>, the number of unlocks until it
  gets in is exactly the distance from the active ticket to \<open>k\<close>, whatever the other threads do.
\<close>

theorem fair_spin_fifo:
  assumes "runs fair_step es FairSpinLock = Some s" "fpcs s t = F_spin k p"
    "runs fair_step fs s = Some s'" "F_unlock t \<notin> set fs"
  shows "unat (k - f_active s) =
    unlocks fs + (case fpcs s' t of F_spin k' p' \<Rightarrow> unat (k' - f_active s') | _ \<Rightarrow> 0)"
proof -
  obtain a where r: "fair_rel s a" using fair_reach [OF assms(1)] by blast
  obtain a' where a': "runs fifo_step fs a = Some a'" "fair_rel s' a'"
    using fqr.runs_forth [OF r assms(3)] by blast
  have t: "unat (k - f_active s) = ahead t a" "t \<in> set (q_line a)" using ahead_ticket [OF r assms(2)] by simp_all
  have n: "t \<in> set (q_line a')" "ahead t a = ahead t a' + unlocks fs"
    using ahead_runs [OF a'(1) t(2) assms(4)] by simp_all
  have "ahead t a' = (case fpcs s' t of F_spin k' p' \<Rightarrow> unat (k' - f_active s') | _ \<Rightarrow> 0)"
  proof (cases "fpcs s' t")
    case F_out
    then show ?thesis using fair_rel_pc(1) [OF a'(2), of t] n(1) by simp
  next
    case F_in
    then show ?thesis using fair_rel_pc(2) [OF a'(2), of t] by (auto simp: ahead_def)
  next
    case (F_spin k' p')
    then show ?thesis using ahead_ticket(1) [OF a'(2)] by simp
  qed
  with n(2) t(1) show ?thesis by simp
qed

theorem spin_loops_return_witness:
  "SpinLock_lock (\<lambda>i. i < 150) = Some (150, 1) \<and> FairSpinLock_lock 7 (\<lambda>i. if i < 4 then 6 else 7) = Some (4, 0)
   \<and> SpinLock_lock (\<lambda>_. True) = None"
proof -
  from spin_loops_return [of "\<lambda>i. i < 150" 150 1]
    spin_loops_return [of "\<lambda>i. i < 150" 4 0 7 "\<lambda>i. if i < 4 then 6 else 7"] spin_loops_return [of "\<lambda>_. True"]
  show ?thesis by simp
qed

definition spin_demo :: "sevent list" where
  "spin_demo = [S_lock 0, S_probe 0, S_lock 1, S_probe 1, S_try_lock 2, S_unlock 0, S_probe 1]"

theorem spin_lock_exclusive_witness:
  "\<exists>s. runs spin_step spin_demo SpinLock = Some s \<and> spcs s 1 = S_in \<and> s_flag s \<and> spcs s 2 \<noteq> S_in"
proof -
  have "map_option (\<lambda>s. spcs s 1) (runs spin_step spin_demo SpinLock) = Some S_in" by code_simp
  then obtain s where s: "runs spin_step spin_demo SpinLock = Some s" "spcs s 1 = S_in"
    by (elim map_option_SomeE) blast
  with spin_lock_exclusive [OF s(1), of 1 2] show ?thesis by auto
qed

definition fair_demo :: "fevent list" where
  "fair_demo = [F_lock 0, F_probe 0, F_lock 1, F_lock 2, F_probe 2, F_probe 1]"

definition fair_demo_end :: "fevent list" where
  "fair_demo_end = [F_unlock 0, F_probe 2, F_probe 1, F_unlock 1, F_probe 2]"

lemma fair_demo_runs:
  "map_option (\<lambda>s. (f_active s, map (fpcs s) [0, 1, 2])) (runs fair_step fair_demo FairSpinLock) =
     Some (0, [F_in, F_spin 1 99, F_spin 2 99])"
  by code_simp

lemma fair_spin_handover_instance:
  "\<exists>s. runs fair_step fair_demo FairSpinLock = Some s \<and> fpcs s 0 = F_in \<and> fpcs s 1 \<noteq> F_in"
proof -
  obtain s where s: "runs fair_step fair_demo FairSpinLock = Some s" "fpcs s 0 = F_in"
    using fair_demo_runs by (elim map_option_SomeE) simp
  with fair_spin_handover [OF s(1), of 0 1] show ?thesis by auto
qed

theorem fair_spin_fifo_witness:
  "\<exists>s s'. runs fair_step fair_demo FairSpinLock = Some s \<and> runs fair_step fair_demo_end s = Some s' \<and>
     fpcs s' 2 = F_in \<and> unat (2 - f_active s) = unlocks fair_demo_end"
proof -
  obtain s where s: "runs fair_step fair_demo FairSpinLock = Some s" "fpcs s 2 = F_spin 2 99"
    using fair_demo_runs by (elim map_option_SomeE) simp
  have "map_option (\<lambda>s. fpcs s 2) (runs fair_step (fair_demo @ fair_demo_end) FairSpinLock) = Some F_in"
    by code_simp
  then obtain s' where s': "runs fair_step (fair_demo @ fair_demo_end) FairSpinLock = Some s'" "fpcs s' 2 = F_in"
    by (elim map_option_SomeE) blast
  then have run: "runs fair_step fair_demo_end s = Some s'" using s(1) by (simp add: runs_append)
  have "F_unlock 2 \<notin> set fair_demo_end" by (simp add: fair_demo_end_def)
  from fair_spin_fifo [OF s run this] s(1) run s'(2) show ?thesis by auto
qed

end
