(* ===== verification/Pthread_Wrapper.thy ===== *)
theory Pthread_Wrapper
  imports Event_System
begin

text \<open>
  The wrappers of \<^verbatim>\<open>pthread_wrapper/\<close>: \<open>PThreadSharedMutex\<close>, \<open>PThreadSpinLockWrapper\<close> and
  \<open>PThreadLocalPtr\<close>.  The pthread functions are not part of the repository: a wrapper of a lock is
  modelled as what it makes of the code \<open>ret\<close> that the pthread function returns (a sequence of codes
  where it calls again), and thread-specific storage as what POSIX documents of a key.
\<close>

section \<open>Return codes\<close>

text \<open>The codes the wrappers distinguish; \<open>Other\<close> is any further one.\<close>

datatype errno = OK | EAGAIN | EBUSY | EDEADLK | EINVAL | ENOMEM | EPERM | Other nat

datatype exn = Bad_alloc | Resource_unavailable_try_again | Operation_not_permitted
  | Resource_deadlock_would_occur | Assertion_failed

type_synonym 'a outcome = "exn + 'a"

text \<open>\<open>assert\<close> does nothing when \<open>NDEBUG\<close> is defined.\<close>

definition assert_ok :: "bool \<Rightarrow> errno \<Rightarrow> 'a \<Rightarrow> 'a outcome" where
  "assert_ok ndebug ret result = (if ndebug \<or> ret = OK then Inr result else Inl Assertion_failed)"

section \<open>PThreadSharedMutex\<close>

definition PThreadSharedMutex :: "bool \<Rightarrow> errno \<Rightarrow> unit outcome" where
  "PThreadSharedMutex ndebug ret =
     (if ret = ENOMEM then Inl Bad_alloc
      else if ret = EAGAIN then Inl Resource_unavailable_try_again
      else if ret = EPERM then Inl Operation_not_permitted
      else assert_ok ndebug ret ())"

definition psm_destroy :: "bool \<Rightarrow> errno \<Rightarrow> unit outcome" where
  "psm_destroy ndebug ret = assert_ok ndebug ret ()"

definition psm_lock :: "bool \<Rightarrow> errno \<Rightarrow> unit outcome" where
  "psm_lock ndebug ret =
     (if ret = EDEADLK then Inl Resource_deadlock_would_occur else assert_ok ndebug ret ())"

definition psm_unlock :: "bool \<Rightarrow> errno \<Rightarrow> unit outcome" where
  "psm_unlock ndebug ret = assert_ok ndebug ret ()"

definition psm_try_lock :: "bool \<Rightarrow> errno \<Rightarrow> bool outcome" where
  "psm_try_lock ndebug ret = (if ret = EBUSY then Inr False else assert_ok ndebug ret True)"

text \<open>The loop of \<open>lock_shared\<close>: \<open>rdlock i\<close> is what call \<open>i\<close> returns.\<close>

partial_function (option) rdlock_loop :: "(nat \<Rightarrow> errno) \<Rightarrow> nat \<Rightarrow> (nat \<times> errno) option" where
  "rdlock_loop rdlock i = (if rdlock i \<noteq> EAGAIN then Some (i, rdlock i) else rdlock_loop rdlock (Suc i))"

declare rdlock_loop.simps [code]

definition psm_lock_shared :: "bool \<Rightarrow> (nat \<Rightarrow> errno) \<Rightarrow> unit outcome option" where
  "psm_lock_shared ndebug rdlock = do {
     (i, ret) \<leftarrow> rdlock_loop rdlock 0;
     Some (if ret = EDEADLK then Inl Resource_deadlock_would_occur else assert_ok ndebug ret ()) }"

definition psm_try_lock_shared :: "bool \<Rightarrow> errno \<Rightarrow> bool outcome" where
  "psm_try_lock_shared ndebug ret =
     (if ret = EBUSY \<or> ret = EAGAIN then Inr False else assert_ok ndebug ret True)"

definition psm_unlock_shared :: "bool \<Rightarrow> errno \<Rightarrow> unit outcome" where
  "psm_unlock_shared ndebug ret = psm_unlock ndebug ret"

section \<open>PThreadSpinLockWrapper\<close>

definition PThreadSpinLockWrapper :: "bool \<Rightarrow> errno \<Rightarrow> unit outcome" where
  "PThreadSpinLockWrapper ndebug ret =
     (if ret = ENOMEM then Inl Bad_alloc
      else if ret = EAGAIN then Inl Resource_unavailable_try_again
      else assert_ok ndebug ret ())"

definition psl_destroy :: "bool \<Rightarrow> errno \<Rightarrow> unit outcome" where
  "psl_destroy ndebug ret = assert_ok ndebug ret ()"

definition psl_lock :: "bool \<Rightarrow> errno \<Rightarrow> unit outcome" where
  "psl_lock ndebug ret =
     (if ret = EDEADLK then Inl Resource_deadlock_would_occur else assert_ok ndebug ret ())"

definition psl_unlock :: "bool \<Rightarrow> errno \<Rightarrow> unit outcome" where
  "psl_unlock ndebug ret = assert_ok ndebug ret ()"

definition psl_try_lock :: "bool \<Rightarrow> errno \<Rightarrow> bool outcome" where
  "psl_try_lock ndebug ret =
     (if ret = EDEADLK \<or> ret = EBUSY then Inr False else assert_ok ndebug ret True)"

lemmas pthread_defs = assert_ok_def psm_destroy_def psm_lock_def psm_unlock_def
  psm_try_lock_def psm_try_lock_shared_def psm_unlock_shared_def psl_destroy_def
  psl_lock_def psl_unlock_def psl_try_lock_def

section \<open>PThreadLocalPtr\<close>

text \<open>
  \<open>is_valid\<close> remembers whether \<open>pthread_key_create\<close> succeeded.  With a valid key each thread has a slot,
  empty at first and emptied when the thread ends, after \<open>deleter\<close> has run on what it held.  \<open>new\<close>
  returns the address \<open>lp_fresh\<close>; \<open>lp_heap\<close> are the live objects.  \<open>lp_init\<close> is the value the bound
  constructor arguments give.
\<close>

type_synonym addr = nat

record 'v lptr =
  lp_valid :: bool
  lp_slot :: "tid \<Rightarrow> addr option"
  lp_heap :: "addr \<Rightarrow> 'v option"
  lp_fresh :: addr
  lp_init :: 'v

definition lp_is_valid :: "errno \<Rightarrow> bool" where
  "lp_is_valid ret = (let valid = False in if ret = OK then True else valid)"

definition PThreadLocalPtr :: "errno \<Rightarrow> 'v \<Rightarrow> 'v lptr" where
  "PThreadLocalPtr ret args =
     \<lparr>lp_valid = lp_is_valid ret, lp_slot = (\<lambda>_. None), lp_heap = (\<lambda>_. None), lp_fresh = 0, lp_init = args\<rparr>"

definition lp_initializer :: "'v lptr \<Rightarrow> addr \<times> 'v lptr" where
  "lp_initializer s =
     (lp_fresh s, s\<lparr>lp_heap := (lp_heap s)(lp_fresh s \<mapsto> lp_init s), lp_fresh := Suc (lp_fresh s)\<rparr>)"

text \<open>\<open>stored\<close>: whether \<open>pthread_setspecific\<close> succeeds; its return code is not looked at.\<close>

definition lp_get :: "bool \<Rightarrow> tid \<Rightarrow> 'v lptr \<Rightarrow> addr \<times> 'v lptr" where
  "lp_get stored t s =
     (case lp_slot s t of
        Some p \<Rightarrow> (p, s)
      | None \<Rightarrow> case lp_initializer s of (p, s) \<Rightarrow>
          (p, if stored then s\<lparr>lp_slot := (lp_slot s)(t \<mapsto> p)\<rparr> else s))"

text \<open>\<open>*ptr\<close> read, \<open>*ptr = v\<close>, and the end of a thread.\<close>

definition lp_read :: "bool \<Rightarrow> tid \<Rightarrow> 'v lptr \<Rightarrow> 'v option \<times> 'v lptr" where
  "lp_read stored t s = (case lp_get stored t s of (p, s) \<Rightarrow> (lp_heap s p, s))"

definition lp_write :: "bool \<Rightarrow> tid \<Rightarrow> 'v \<Rightarrow> 'v lptr \<Rightarrow> 'v lptr" where
  "lp_write stored t v s = (case lp_get stored t s of (p, s) \<Rightarrow> s\<lparr>lp_heap := (lp_heap s)(p \<mapsto> v)\<rparr>)"

definition lp_deleter :: "addr \<Rightarrow> 'v lptr \<Rightarrow> 'v lptr" where
  "lp_deleter p s = s\<lparr>lp_heap := (lp_heap s)(p := None)\<rparr>"

definition lp_exit :: "tid \<Rightarrow> 'v lptr \<Rightarrow> 'v lptr" where
  "lp_exit t s =
     (case lp_slot s t of Some p \<Rightarrow> lp_deleter p (s\<lparr>lp_slot := (lp_slot s)(t := None)\<rparr>) | None \<Rightarrow> s)"

text \<open>The destructor deletes the key, which empties the slots and runs no deleter.\<close>

definition lp_destroy :: "'v lptr \<Rightarrow> 'v lptr" where
  "lp_destroy s = s\<lparr>lp_slot := (\<lambda>_. None)\<rparr>"

text \<open>
  The boolean of an access is the success of \<open>pthread_setspecific\<close>, should it be called.  With an
  invalid key \<open>key\<close> is uninitialised and every use is undefined behaviour.
\<close>

datatype 'v lpevent = LP_read tid bool | LP_write tid 'v bool | LP_exit tid

fun lp_step :: "'v lpevent \<Rightarrow> 'v lptr \<Rightarrow> 'v lptr option" where
  "lp_step (LP_read t stored) s = (if lp_valid s then Some (snd (lp_read stored t s)) else None)"
| "lp_step (LP_write t v stored) s = (if lp_valid s then Some (lp_write stored t v s) else None)"
| "lp_step (LP_exit t) s = Some (if lp_valid s then lp_exit t s else s)"

text \<open>
  The specification: every thread has a variable of its own, if it has one yet, and a number of
  objects has been lost.  An access that cannot record its object loses it, and what it wrote.
\<close>

fun access :: "'v \<Rightarrow> tid \<Rightarrow> bool \<Rightarrow> (tid \<Rightarrow> 'v option) \<times> nat \<Rightarrow> (tid \<Rightarrow> 'v option) \<times> nat" where
  "access v t stored (a, lost) = (if stored \<or> a t \<noteq> None then (a(t \<mapsto> v), lost) else (a, Suc lost))"

definition own_value :: "'v \<Rightarrow> (tid \<Rightarrow> 'v option) \<times> nat \<Rightarrow> tid \<Rightarrow> 'v" where
  "own_value i c t = (case fst c t of Some v \<Rightarrow> v | None \<Rightarrow> i)"

fun local_step :: "'v \<Rightarrow> 'v lpevent \<Rightarrow> (tid \<Rightarrow> 'v option) \<times> nat \<Rightarrow> ((tid \<Rightarrow> 'v option) \<times> nat) option" where
  "local_step i (LP_read t stored) c = Some (access (own_value i c t) t stored c)"
| "local_step i (LP_write t v stored) c = Some (access v t stored c)"
| "local_step i (LP_exit t) c = Some ((fst c)(t := None), snd c)"

text \<open>The live objects that no thread can reach.\<close>

definition lp_lost :: "'v lptr \<Rightarrow> addr set" where
  "lp_lost s = {p. lp_heap s p \<noteq> None \<and> (\<forall>t. lp_slot s t \<noteq> Some p)}"

definition lp_wf :: "'v lptr \<Rightarrow> bool" where
  "lp_wf s \<longleftrightarrow> lp_valid s \<and> (\<forall>t p. lp_slot s t = Some p \<longrightarrow> lp_heap s p \<noteq> None) \<and>
     (\<forall>t u p. lp_slot s t = Some p \<longrightarrow> lp_slot s u = Some p \<longrightarrow> t = u) \<and>
     (\<forall>p. lp_heap s p \<noteq> None \<longrightarrow> p < lp_fresh s)"

definition lp_rel :: "'v \<Rightarrow> 'v lptr \<Rightarrow> (tid \<Rightarrow> 'v option) \<times> nat \<Rightarrow> bool" where
  "lp_rel i s c \<longleftrightarrow> lp_wf s \<and> lp_init s = i \<and> snd c = card (lp_lost s) \<and>
     (\<forall>t. fst c t = Option.bind (lp_slot s t) (lp_heap s))"

section \<open>The retry loop\<close>

lemma rdlock_loop_runs:
  assumes "rdlock n \<noteq> EAGAIN" "\<And>k. \<lbrakk> i \<le> k; k < n \<rbrakk> \<Longrightarrow> rdlock k = EAGAIN" "i \<le> n"
  shows "rdlock_loop rdlock i = Some (n, rdlock n)"
  using assms(3,2)
proof (induction i rule: inc_induct)
  case base
  then show ?case using assms(1) by (simp add: rdlock_loop.simps)
next
  case (step k)
  then have "rdlock k = EAGAIN" by simp
  with step show ?case by (subst rdlock_loop.simps) simp
qed

lemma rdlock_loop_result:
  assumes "rdlock_loop rdlock i = Some r" shows "rdlock (fst r) \<noteq> EAGAIN"
proof (rule rdlock_loop.raw_induct [where P = "\<lambda>rdlock i r. rdlock (fst r) \<noteq> EAGAIN", OF _ assms])
  fix lk :: "(nat \<Rightarrow> errno) \<Rightarrow> nat \<Rightarrow> (nat \<times> errno) option" and rdlock :: "nat \<Rightarrow> errno" and i :: nat
    and r :: "nat \<times> errno"
  assume "\<And>rdlock i r. lk rdlock i = Some r \<Longrightarrow> rdlock (fst r) \<noteq> EAGAIN"
    and "(if rdlock i \<noteq> EAGAIN then Some (i, rdlock i) else lk rdlock (Suc i)) = Some r"
  then show "rdlock (fst r) \<noteq> EAGAIN" by (auto split: if_splits)
qed

text \<open>The loop ends exactly when some call returns something else, with the first such code.\<close>

lemma psm_lock_shared_first:
  assumes "rdlock n \<noteq> EAGAIN" "\<forall>k < n. rdlock k = EAGAIN"
  shows "psm_lock_shared ndebug rdlock = Some (psm_lock ndebug (rdlock n))"
  using rdlock_loop_runs [of rdlock n 0] assms by (simp add: psm_lock_shared_def psm_lock_def)

lemma psm_lock_shared_never: "psm_lock_shared ndebug (\<lambda>_. EAGAIN) = None"
  using rdlock_loop_result [of "\<lambda>_. EAGAIN" 0] by (cases "rdlock_loop (\<lambda>_. EAGAIN) 0") (auto simp: psm_lock_shared_def)

section \<open>Every thread has its own object\<close>

lemma lp_rel_init: "lp_rel i (PThreadLocalPtr OK i) (\<lambda>_. None, 0)"
  by (simp add: lp_rel_def lp_wf_def lp_lost_def PThreadLocalPtr_def lp_is_valid_def)

lemma lp_slot_live:
  assumes "lp_wf s" "lp_slot s t = Some p"
  shows "p < lp_fresh s" "\<exists>v. lp_heap s p = Some v"
  using assms unfolding lp_wf_def by blast+

lemma lp_lost_finite: "lp_wf s \<Longrightarrow> finite (lp_lost s)"
  by (rule finite_subset [of _ "{..<lp_fresh s}"]) (auto simp: lp_lost_def lp_wf_def)

text \<open>
  An access that ends with \<open>v\<close> in the object: the thread's own one, a new one, or a new one that is
  lost at once.
\<close>

definition lp_put :: "bool \<Rightarrow> tid \<Rightarrow> 'v \<Rightarrow> 'v lptr \<Rightarrow> 'v lptr" where
  "lp_put stored t v s = (case lp_slot s t of
       Some p \<Rightarrow> s\<lparr>lp_heap := (lp_heap s)(p \<mapsto> v)\<rparr>
     | None \<Rightarrow> s\<lparr>lp_heap := (lp_heap s)(lp_fresh s \<mapsto> v), lp_fresh := Suc (lp_fresh s),
         lp_slot := (if stored then (lp_slot s)(t \<mapsto> lp_fresh s) else lp_slot s)\<rparr>)"

lemma lp_write_put: "lp_write stored t v s = lp_put stored t v s"
  by (simp add: lp_write_def lp_get_def lp_initializer_def lp_put_def split: option.split)

lemma lp_read_put:
  assumes "lp_rel i s c"
  shows "lp_read stored t s = (Some (own_value i c t), lp_put stored t (own_value i c t) s)"
proof (cases "lp_slot s t")
  case None
  then have "own_value i c t = lp_init s" using assms by (simp add: lp_rel_def own_value_def)
  with None show ?thesis by (simp add: lp_read_def lp_get_def lp_initializer_def lp_put_def)
next
  case (Some p)
  moreover have "lp_heap s p = Some (own_value i c t)"
    using assms Some lp_slot_live(2) [of s t p] by (auto simp: lp_rel_def own_value_def)
  ultimately show ?thesis by (simp add: lp_read_def lp_get_def lp_put_def fun_upd_idem)
qed

lemma lp_put_wf:
  assumes wf: "lp_wf s" shows "lp_wf (lp_put stored t v s)"
proof (cases "lp_slot s t")
  case (Some p)
  with wf show ?thesis by (auto simp: lp_wf_def lp_put_def)
next
  case None
  have "lp_slot s u \<noteq> Some (lp_fresh s)" for u using lp_slot_live(1) [OF wf, of u "lp_fresh s"] by auto
  with wf None show ?thesis
    by (auto simp: lp_wf_def lp_put_def split: if_splits intro: less_SucI)
qed

lemma lp_put_lost:
  assumes "lp_wf s"
  shows "card (lp_lost (lp_put stored t v s)) =
    (if stored \<or> lp_slot s t \<noteq> None then card (lp_lost s) else Suc (card (lp_lost s)))"
proof (cases "lp_slot s t")
  case (Some p)
  then have "lp_lost (lp_put stored t v s) = lp_lost s"
    using assms by (auto simp: lp_put_def lp_lost_def lp_wf_def split: if_splits)
  with Some show ?thesis by simp
next
  case None
  have f: "lp_heap s (lp_fresh s) = None" using assms by (auto simp: lp_wf_def)
  have g: "lp_slot s u \<noteq> Some (lp_fresh s)" for u
    using lp_slot_live(1) [OF assms, of u "lp_fresh s"] by auto
  show ?thesis
  proof (cases stored)
    case True
    have "q \<in> lp_lost (lp_put stored t v s) \<longleftrightarrow> q \<in> lp_lost s" for q
    proof -
      have "lp_slot s u = Some q \<longleftrightarrow> u \<noteq> t \<and> lp_slot s u = Some q" for u using None by auto
      with True None f show ?thesis by (cases "q = lp_fresh s") (auto simp: lp_put_def lp_lost_def)
    qed
    then have "lp_lost (lp_put stored t v s) = lp_lost s" by blast
    with True show ?thesis by simp
  next
    case False
    with None g have "lp_lost (lp_put stored t v s) = insert (lp_fresh s) (lp_lost s)"
      by (auto simp: lp_put_def lp_lost_def)
    moreover have "lp_fresh s \<notin> lp_lost s" using f by (simp add: lp_lost_def)
    ultimately show ?thesis using lp_lost_finite [OF assms] False None by simp
  qed
qed

lemma lp_put_rel:
  assumes r: "lp_rel i s c" shows "lp_rel i (lp_put stored t v s) (access v t stored c)"
proof -
  obtain a n where c: "c = (a, n)" by (cases c)
  have wf: "lp_wf s" and i: "lp_init s = i" "n = card (lp_lost s)"
    and a: "\<And>u. a u = Option.bind (lp_slot s u) (lp_heap s)" using r by (simp_all add: lp_rel_def c)
  have t: "a t = None \<longleftrightarrow> lp_slot s t = None" using a [of t] wf by (cases "lp_slot s t") (auto simp: lp_wf_def)
  have "fst (access v t stored c) u = Option.bind (lp_slot (lp_put stored t v s) u) (lp_heap (lp_put stored t v s))" for u
  proof (cases "lp_slot s u")
    case None
    then show ?thesis using a [of u] t
      by (cases "lp_slot s t") (auto simp: c lp_put_def)
  next
    case (Some q)
    then have q: "q < lp_fresh s" "u \<noteq> t \<Longrightarrow> lp_slot s t \<noteq> Some q" using wf by (auto simp: lp_wf_def)
    show ?thesis using a [of u] t q Some
      by (cases "lp_slot s t") (auto simp: c lp_put_def)
  qed
  moreover have "snd (access v t stored c) = card (lp_lost (lp_put stored t v s))"
    using lp_put_lost [OF wf, of stored t v] t i(2) by (simp add: c)
  moreover have "lp_init (lp_put stored t v s) = i" using i(1) by (simp add: lp_put_def split: option.split)
  ultimately show ?thesis using lp_put_wf [OF wf] by (simp add: lp_rel_def)
qed

lemma lp_exit_rel:
  assumes r: "lp_rel i s c" shows "lp_rel i (lp_exit t s) ((fst c)(t := None), snd c)"
proof (cases "lp_slot s t")
  case None
  then have "(fst c)(t := None) = fst c" using r by (auto simp: lp_rel_def)
  with r None show ?thesis by (simp add: lp_exit_def)
next
  case (Some p)
  have wf: "lp_wf s" using r by (simp add: lp_rel_def)
  have other: "lp_slot s u \<noteq> Some p" if "u \<noteq> t" for u using wf Some that by (auto simp: lp_wf_def)
  have e: "lp_exit t s = s\<lparr>lp_slot := (lp_slot s)(t := None), lp_heap := (lp_heap s)(p := None)\<rparr>"
    using Some by (simp add: lp_exit_def lp_deleter_def)
  have "lp_wf (lp_exit t s)" using wf other by (auto simp: e lp_wf_def split: if_splits)
  moreover have "lp_lost (lp_exit t s) = lp_lost s"
  proof (rule set_eqI)
    fix q
    have "lp_slot s u = Some q \<longleftrightarrow> u \<noteq> t \<and> lp_slot s u = Some q" if "q \<noteq> p" for u
      using Some that by auto
    then show "q \<in> lp_lost (lp_exit t s) \<longleftrightarrow> q \<in> lp_lost s"
      using Some by (cases "q = p") (auto simp: e lp_lost_def)
  qed
  moreover have "((fst c)(t := None)) u = Option.bind (lp_slot (lp_exit t s) u) (lp_heap (lp_exit t s))" for u
    using r other [of u] by (cases "lp_slot s u") (auto simp: e lp_rel_def)
  ultimately show ?thesis using r by (simp add: lp_rel_def e)
qed

lemma lp_step_rel: "lp_rel i s c \<Longrightarrow> rel_option (lp_rel i) (lp_step e s) (local_step i e c)"
proof (cases e)
  case (LP_read t stored)
  assume r: "lp_rel i s c"
  then show ?thesis using LP_read lp_put_rel [OF r] by (simp add: lp_read_put [OF r] lp_rel_def lp_wf_def)
next
  case (LP_write t v stored)
  assume r: "lp_rel i s c"
  then show ?thesis using LP_write lp_put_rel [OF r] by (simp add: lp_write_put lp_rel_def lp_wf_def)
next
  case (LP_exit t)
  assume r: "lp_rel i s c"
  then show ?thesis using LP_exit lp_exit_rel [OF r] by (simp add: lp_rel_def lp_wf_def)
qed

interpretation lpr: bisim_system lp_step "local_step i" "lp_rel i" for i
  by unfold_locales (rule lp_step_rel)

text \<open>Only a failing \<open>pthread_setspecific\<close> loses an object.\<close>

fun lp_failing :: "'v lpevent \<Rightarrow> bool" where
  "lp_failing (LP_read t stored) \<longleftrightarrow> \<not> stored"
| "lp_failing (LP_write t v stored) \<longleftrightarrow> \<not> stored"
| "lp_failing (LP_exit t) \<longleftrightarrow> False"

lemma local_lost: "local_step i e c = Some c' \<Longrightarrow> snd c' \<le> snd c + (if lp_failing e then 1 else 0)"
  by (cases e; cases c) (auto split: if_splits)

lemma local_runs_lost:
  "runs (local_step i) es c = Some c' \<Longrightarrow> snd c' \<le> snd c + length (filter lp_failing es)"
proof (induction es arbitrary: c)
  case Nil
  then show ?case by simp
next
  case (Cons e es)
  then obtain d where d: "local_step i e c = Some d" "runs (local_step i) es d = Some c'" by auto
  from Cons.IH [OF d(2)] local_lost [OF d(1)] show ?case by (simp split: if_splits)
qed

section \<open>Properties\<close>

text \<open>
  No failure of pthread passes for success while assertions are on: the wrapped locks say that they
  were constructed, locked or unlocked exactly when the code was 0; \<open>try_lock\<close> and
  \<open>try_lock_shared\<close> say no exactly for the codes that mean contention, and the exceptions are those of
  the codes.  With \<open>NDEBUG\<close> an undocumented code such as \<open>EINVAL\<close> is taken for success.
\<close>

lemma pthread_codes:
  "(\<forall>f \<in> {PThreadSharedMutex, psm_destroy, psm_lock, psm_unlock, psm_unlock_shared,
            PThreadSpinLockWrapper, psl_destroy, psl_lock, psl_unlock}.
      (f False ret = Inr () \<longleftrightarrow> ret = OK) \<and> f True EINVAL = Inr ()) \<and>
   (\<forall>f \<in> {psm_try_lock, psm_try_lock_shared, psl_try_lock}.
      (f False ret = Inr True \<longleftrightarrow> ret = OK) \<and> f False EBUSY = Inr False \<and> f True EINVAL = Inr True) \<and>
   (psm_try_lock False ret = Inr False \<longleftrightarrow> ret = EBUSY) \<and>
   (psm_try_lock_shared False ret = Inr False \<longleftrightarrow> ret = EBUSY \<or> ret = EAGAIN) \<and>
   (psl_try_lock False ret = Inr False \<longleftrightarrow> ret = EDEADLK \<or> ret = EBUSY) \<and>
   (psm_lock nd ret = Inl Resource_deadlock_would_occur \<longleftrightarrow> ret = EDEADLK) \<and>
   (psl_lock nd ret = Inl Resource_deadlock_would_occur \<longleftrightarrow> ret = EDEADLK) \<and>
   (PThreadSharedMutex nd ret = Inl Bad_alloc \<longleftrightarrow> ret = ENOMEM) \<and>
   (PThreadSpinLockWrapper nd ret = Inl Resource_unavailable_try_again \<longleftrightarrow> ret = EAGAIN)"
  by (cases ret) (auto simp: pthread_defs PThreadSharedMutex_def PThreadSpinLockWrapper_def)

text \<open>
  C38: \<open>PThreadSharedMutex::lock_shared\<close> returns exactly when some call of \<open>pthread_rwlock_rdlock\<close> does
  not report that the maximum number of readers is exceeded, with the outcome of the first such code;
  while every call does, it does not return.
\<close>

theorem psm_lock_shared_returns:
  "(psm_lock_shared nd rdlock = Some r \<longleftrightarrow>
      (\<exists>n. rdlock n \<noteq> EAGAIN \<and> (\<forall>k < n. rdlock k = EAGAIN) \<and> r = psm_lock nd (rdlock n))) \<and>
   (psm_lock_shared nd rdlock = None \<longleftrightarrow> (\<forall>k. rdlock k = EAGAIN))"
proof (cases "\<forall>k. rdlock k = EAGAIN")
  case True
  then have "rdlock = (\<lambda>_. EAGAIN)" by auto
  with psm_lock_shared_never show ?thesis by simp
next
  case False
  define n where "n = (LEAST k. rdlock k \<noteq> EAGAIN)"
  have n: "rdlock n \<noteq> EAGAIN" using False unfolding n_def by (metis (mono_tags, lifting) LeastI_ex)
  have l: "rdlock k = EAGAIN" if "k < n" for k using not_less_Least [of k "\<lambda>k. rdlock k \<noteq> EAGAIN"] that
    by (simp add: n_def)
  have first: "psm_lock_shared nd rdlock = Some (psm_lock nd (rdlock n))"
    by (rule psm_lock_shared_first) (use n l in auto)
  have "m = n" if "rdlock m \<noteq> EAGAIN" "\<forall>k < m. rdlock k = EAGAIN" for m
    using that n l by (metis nat_neq_iff)
  then have "(\<exists>m. rdlock m \<noteq> EAGAIN \<and> (\<forall>k < m. rdlock k = EAGAIN) \<and> r = psm_lock nd (rdlock m)) \<longleftrightarrow>
      r = psm_lock nd (rdlock n)" using n l by blast
  moreover have "psm_lock_shared nd rdlock = Some r \<longleftrightarrow> r = psm_lock nd (rdlock n)" using first by auto
  moreover have "psm_lock_shared nd rdlock \<noteq> None" using first by simp
  ultimately show ?thesis using False by blast
qed

text \<open>
  C34: \<open>PThreadLocalPtr\<close> is a variable of each thread's own.  Once \<open>pthread_key_create\<close> has succeeded, every
  sequence of reads, writes and thread exits, in any interleaving and whether each
  \<open>pthread_setspecific\<close> succeeds or not, leaves the state related to that of independent variables
  that start with the constructor's arguments: a read returns the thread's value, and the live objects
  are those the threads hold and as many lost ones as there were accesses that could not record theirs,
  so none is lost as long as \<open>pthread_setspecific\<close> does not fail.
\<close>

theorem pthread_local_isolated:
  assumes "runs lp_step es (PThreadLocalPtr OK i) = Some s"
  shows "\<exists>a lost. runs (local_step i) es (\<lambda>_. None, 0) = Some (a, lost) \<and>
    fst (lp_read stored t s) = Some (own_value i (a, lost) t) \<and>
    (\<forall>u. a u = None \<longleftrightarrow> lp_slot s u = None) \<and>
    finite {p. lp_heap s p \<noteq> None} \<and>
    card {p. lp_heap s p \<noteq> None \<and> (\<forall>u. lp_slot s u \<noteq> Some p)} = lost \<and>
    (\<forall>u p. lp_slot s u = Some p \<longrightarrow> lp_heap s p \<noteq> None \<and> (\<forall>w. lp_slot s w = Some p \<longrightarrow> w = u)) \<and>
    lost \<le> length (filter lp_failing es)"
proof -
  obtain a lost where a: "runs (local_step i) es (\<lambda>_. None, 0) = Some (a, lost)" "lp_rel i s (a, lost)"
    using lpr.runs_forth [OF lp_rel_init assms] by (metis surj_pair)
  have wf: "lp_wf s" using a(2) by (simp add: lp_rel_def)
  have "fst (lp_read stored t s) = Some (own_value i (a, lost) t)" by (simp add: lp_read_put [OF a(2)])
  moreover have "a u = None \<longleftrightarrow> lp_slot s u = None" for u
    using a(2) wf by (cases "lp_slot s u") (auto simp: lp_rel_def lp_wf_def)
  moreover have "finite {p. lp_heap s p \<noteq> None}"
    by (rule finite_subset [of _ "{..<lp_fresh s}"]) (use wf in \<open>auto simp: lp_wf_def\<close>)
  moreover have "lost \<le> length (filter lp_failing es)" using local_runs_lost [OF a(1)] by simp
  moreover have "lp_heap s p \<noteq> None \<and> (\<forall>w. lp_slot s w = Some p \<longrightarrow> w = u)" if "lp_slot s u = Some p" for u p
    using wf that unfolding lp_wf_def by blast
  ultimately show ?thesis using a by (simp add: lp_rel_def lp_lost_def)
qed

theorem psm_lock_shared_returns_witness:
  "psm_lock_shared False (\<lambda>i. if i < 3 then EAGAIN else OK) = Some (Inr ()) \<and>
   psm_lock_shared False (\<lambda>_. EAGAIN) = None"
proof -
  have "psm_lock False OK = Inr ()" by (simp add: psm_lock_def assert_ok_def)
  then have "\<exists>n. (\<lambda>i. if i < (3 :: nat) then EAGAIN else OK) n \<noteq> EAGAIN \<and>
      (\<forall>k < n. (\<lambda>i. if i < 3 then EAGAIN else OK) k = EAGAIN) \<and>
      Inr () = psm_lock False ((\<lambda>i. if i < 3 then EAGAIN else OK) n)"
    by (intro exI [of _ 3]) simp
  with psm_lock_shared_returns [of False "\<lambda>i. if i < 3 then EAGAIN else OK" "Inr ()"]
    psm_lock_shared_returns [of False "\<lambda>_. EAGAIN"]
  show ?thesis by simp
qed

lemma pthread_codes_instance: "psm_lock False OK = Inr () \<and> psl_try_lock False EDEADLK = Inr False"
  using pthread_codes [of OK] pthread_codes [of EDEADLK] by blast

definition lp_demo :: "nat lpevent list" where
  "lp_demo = [LP_write 0 5 True, LP_read 1 False, LP_exit 0, LP_write 1 7 True]"

theorem pthread_local_isolated_witness:
  "\<exists>s. runs lp_step lp_demo (PThreadLocalPtr OK 3) = Some s \<and> fst (lp_read True 0 s) = Some 3 \<and>
     fst (lp_read True 1 s) = Some 7 \<and> card {p. lp_heap s p \<noteq> None \<and> (\<forall>u. lp_slot s u \<noteq> Some p)} = 1"
proof -
  have "runs lp_step lp_demo (PThreadLocalPtr OK 3) \<noteq> None"
    by (simp add: lp_demo_def PThreadLocalPtr_def lp_is_valid_def lp_read_def lp_write_def lp_get_def
        lp_initializer_def lp_exit_def lp_deleter_def)
  then obtain s where s: "runs lp_step lp_demo (PThreadLocalPtr OK 3) = Some s" by blast
  have a: "runs (local_step 3) lp_demo (\<lambda>_. None, 0) = Some ((\<lambda>_. None)(0 := None, 1 \<mapsto> 7), 1)"
    by (simp add: lp_demo_def own_value_def fun_eq_iff)
  show ?thesis using pthread_local_isolated [OF s, of True 0] pthread_local_isolated [OF s, of True 1] s a
    by (auto simp: own_value_def)
qed

text \<open>When \<open>pthread_setspecific\<close> fails, each \<open>get\<close> makes an object nobody can reach again.\<close>

lemma lp_get_leaks:
  assumes "lp_slot s t = None" "lp_get False t s = (p, s')"
  shows "lp_heap s' p = Some (lp_init s) \<and> lp_slot s' t = None"
  using assms by (auto simp: lp_get_def lp_initializer_def)

text \<open>Nor does the destructor free the objects of the threads that are still running.\<close>

lemma lp_destroy_leaks:
  assumes "lp_rel i s (a, lost)" "lp_slot s t = Some p"
  shows "lp_heap (lp_destroy s) p = a t \<and> a t \<noteq> None \<and> (\<forall>u. lp_slot (lp_destroy s) u = None)"
  using assms by (auto simp: lp_destroy_def lp_rel_def lp_wf_def)

end
