(* ===== verification/Scope_Guard.thy ===== *)
theory Scope_Guard
  imports Event_System "HOL-Library.Multiset"
begin

text \<open>
  \<^verbatim>\<open>util/bits/scope_guard.h\<close>, and \<open>timed_invoke\<close> of \<^verbatim>\<open>util/bits/invoke.h\<close>, which is built on
  it.  Actions are named by values of a type \<open>'a\<close>; running one appends it to \<open>g_log\<close>.  The objects
  of the program are the list \<open>g_objs\<close>, \<open>None\<close> once destroyed.  \<open>g_made\<close> and \<open>g_dropped\<close> are
  histories: the final actions of all guards constructed, and those given up, by \<open>release\<close> or by
  assigning to the guard that had them.
\<close>

section \<open>Guards\<close>

record 'a sguard =
  g_released :: bool
  g_post :: 'a

record 'a sgworld =
  g_objs :: "'a sguard option list"
  g_pre :: "'a list"
  g_log :: "'a list"
  g_made :: "'a list"
  g_dropped :: "'a list"

definition sg_start :: "'a sgworld" where
  "sg_start = \<lparr>g_objs = [], g_pre = [], g_log = [], g_made = [], g_dropped = []\<rparr>"

definition sg_obj :: "nat \<Rightarrow> 'a sgworld \<Rightarrow> 'a sguard option" where
  "sg_obj i w = (if i < length (g_objs w) then g_objs w ! i else None)"

definition ScopeGuardImpl :: "'a \<Rightarrow> 'a sgworld \<Rightarrow> 'a sgworld" where
  "ScopeGuardImpl post w =
     w\<lparr>g_objs := g_objs w @ [Some \<lparr>g_released = False, g_post = post\<rparr>], g_made := g_made w @ [post]\<rparr>"

text \<open>The constructor with \<open>pre\<close>: when \<open>pre\<close> throws there is no object and no final action.\<close>

definition ScopeGuardImpl_pre :: "'a \<Rightarrow> bool \<Rightarrow> 'a \<Rightarrow> 'a sgworld \<Rightarrow> 'a sgworld" where
  "ScopeGuardImpl_pre pre throws post w =
     (let w = w\<lparr>g_pre := g_pre w @ [pre]\<rparr> in if throws then w else ScopeGuardImpl post w)"

definition armed :: "'a sguard option \<Rightarrow> 'a list" where
  "armed x = (case x of Some g \<Rightarrow> if g_released g then [] else [g_post g] | None \<Rightarrow> [])"

definition sg_release :: "nat \<Rightarrow> 'a sgworld \<Rightarrow> 'a sgworld option" where
  "sg_release i w = do {
     g \<leftarrow> sg_obj i w;
     Some (w\<lparr>g_objs := (g_objs w)[i := Some (g\<lparr>g_released := True\<rparr>)],
             g_dropped := g_dropped w @ armed (Some g)\<rparr>) }"

definition sg_move :: "nat \<Rightarrow> 'a sgworld \<Rightarrow> 'a sgworld option" where
  "sg_move i w = do {
     rhs \<leftarrow> sg_obj i w;
     Some (w\<lparr>g_objs := (g_objs w)[i := Some (rhs\<lparr>g_released := True\<rparr>)]
                        @ [Some \<lparr>g_released = g_released rhs, g_post = g_post rhs\<rparr>]\<rparr>) }"

text \<open>
  Move assignment: the base class first, with its assertion (which does nothing when \<open>NDEBUG\<close> is
  defined), then \<open>post\<close>.  Without the assertion, self-assignment leaves the guard released.
\<close>

definition sg_assign :: "bool \<Rightarrow> nat \<Rightarrow> nat \<Rightarrow> 'a sgworld \<Rightarrow> 'a sgworld option" where
  "sg_assign ndebug i j w = do {
     this \<leftarrow> sg_obj i w;
     rhs \<leftarrow> sg_obj j w;
     (if i = j \<and> \<not> ndebug then None
      else Some (w\<lparr>g_objs := (g_objs w)[i := Some (this\<lparr>g_released := g_released rhs, g_post := g_post rhs\<rparr>),
                                        j := Some (rhs\<lparr>g_released := True\<rparr>)],
                   g_dropped := g_dropped w @ armed (Some this)\<rparr>)) }"

definition is_released :: "'a sguard \<Rightarrow> bool" where
  [simp]: "is_released g \<longleftrightarrow> g_released g"

definition sg_destroy :: "nat \<Rightarrow> 'a sgworld \<Rightarrow> 'a sgworld option" where
  "sg_destroy i w = do {
     g \<leftarrow> sg_obj i w;
     Some (w\<lparr>g_objs := (g_objs w)[i := None],
             g_log := (if \<not> is_released g then g_log w @ [g_post g] else g_log w)\<rparr>) }"

datatype 'a sgevent =
    SG_make 'a
  | SG_make_pre 'a bool 'a
  | SG_release nat
  | SG_move nat
  | SG_assign nat nat
  | SG_destroy nat

fun sg_step :: "bool \<Rightarrow> 'a sgevent \<Rightarrow> 'a sgworld \<Rightarrow> 'a sgworld option" where
  "sg_step ndebug (SG_make post) w = Some (ScopeGuardImpl post w)"
| "sg_step ndebug (SG_make_pre pre throws post) w = Some (ScopeGuardImpl_pre pre throws post w)"
| "sg_step ndebug (SG_release i) w = sg_release i w"
| "sg_step ndebug (SG_move i) w = sg_move i w"
| "sg_step ndebug (SG_assign i j) w = sg_assign ndebug i j w"
| "sg_step ndebug (SG_destroy i) w = sg_destroy i w"

section \<open>The account of the final actions\<close>

definition pending :: "'a sgworld \<Rightarrow> 'a multiset" where
  "pending w = mset (concat (map armed (g_objs w)))"

definition sg_books :: "'a sgworld \<Rightarrow> bool" where
  "sg_books w \<longleftrightarrow> mset (g_made w) = mset (g_log w) + pending w + mset (g_dropped w)"

lemma concat_update:
  "i < length xs \<Longrightarrow>
     mset (concat (map f (xs[i := y]))) + mset (f (xs ! i)) = mset (concat (map f xs)) + mset (f y)"
proof (induction xs arbitrary: i)
  case (Cons x xs)
  show ?case
  proof (cases i)
    case (Suc j)
    then have "mset (concat (map f (xs[j := y]))) + mset (f (xs ! j)) = mset (concat (map f xs)) + mset (f y)"
      using Cons by simp
    then show ?thesis using Suc by (simp add: add.assoc)
  qed simp
qed simp

text \<open>Replacing an object replaces what it has armed.\<close>

lemma pending_update:
  assumes "sg_obj i w = Some g"
  shows "mset (concat (map armed ((g_objs w)[i := y]))) + mset (armed (Some g)) = pending w + mset (armed y)"
  using assms concat_update [of i "g_objs w" armed y]
  by (auto simp: sg_obj_def pending_def split: if_splits)

lemma sg_books_assign:
  assumes b: "sg_books w" and st: "sg_assign nd i j w = Some w'" shows "sg_books w'"
proof -
  obtain x g where g: "sg_obj i w = Some x" "sg_obj j w = Some g"
    "w' = w\<lparr>g_objs := (g_objs w)[i := Some (x\<lparr>g_released := g_released g, g_post := g_post g\<rparr>),
        j := Some (g\<lparr>g_released := True\<rparr>)], g_dropped := g_dropped w @ armed (Some x)\<rparr>"
    using st by (auto simp: sg_assign_def split: if_splits)
  let ?x = "Some (x\<lparr>g_released := g_released g, g_post := g_post g\<rparr>)"
  let ?w = "w\<lparr>g_objs := (g_objs w)[i := ?x]\<rparr>"
  have same: "armed ?x = armed (Some g)" by (simp add: armed_def)
  have "sg_obj j ?w = Some g" using g(1,2) by (cases "i = j") (auto simp: sg_obj_def split: if_splits)
  from pending_update [OF this, of "Some (g\<lparr>g_released := True\<rparr>)"]
  have "pending w' + mset (armed (Some g)) = pending ?w" by (simp add: g(3) pending_def armed_def)
  moreover have "pending ?w + mset (armed (Some x)) = pending w + mset (armed (Some g))"
    using pending_update [OF g(1), of ?x] same by (simp add: pending_def)
  ultimately have "pending w' + mset (armed (Some x)) = pending w"
    by (metis (no_types, lifting) add.assoc add.commute add_right_cancel)
  with b show ?thesis by (simp add: sg_books_def g(3) ac_simps)
qed

lemma sg_books_step:
  assumes b: "sg_books w" and st: "sg_step nd e w = Some w'" shows "sg_books w'"
proof (cases e)
  case (SG_make post)
  with st b show ?thesis by (auto simp: sg_books_def ScopeGuardImpl_def pending_def armed_def)
next
  case (SG_make_pre pre throws post)
  with st b show ?thesis
    by (auto simp: sg_books_def ScopeGuardImpl_pre_def ScopeGuardImpl_def pending_def armed_def Let_def)
next
  case (SG_release i)
  then obtain g where g: "sg_obj i w = Some g"
    "w' = w\<lparr>g_objs := (g_objs w)[i := Some (g\<lparr>g_released := True\<rparr>)], g_dropped := g_dropped w @ armed (Some g)\<rparr>"
    using st by (auto simp: sg_release_def)
  have "pending w' + mset (armed (Some g)) = pending w"
    using pending_update [OF g(1), of "Some (g\<lparr>g_released := True\<rparr>)"] by (simp add: g(2) pending_def armed_def)
  with b show ?thesis by (simp add: sg_books_def g(2) ac_simps)
next
  case (SG_move i)
  then obtain g where g: "sg_obj i w = Some g"
    "w' = w\<lparr>g_objs := (g_objs w)[i := Some (g\<lparr>g_released := True\<rparr>)]
        @ [Some \<lparr>g_released = g_released g, g_post = g_post g\<rparr>]\<rparr>"
    using st by (auto simp: sg_move_def)
  have "pending w' = pending w"
    using pending_update [OF g(1), of "Some (g\<lparr>g_released := True\<rparr>)"]
    by (simp add: g(2) pending_def armed_def split: if_splits)
  with b show ?thesis by (simp add: sg_books_def g(2))
next
  case (SG_assign i j)
  with st show ?thesis using sg_books_assign [OF b] by simp
next
  case (SG_destroy i)
  then obtain g where g: "sg_obj i w = Some g"
    "w' = w\<lparr>g_objs := (g_objs w)[i := None], g_log := (if \<not> g_released g then g_log w @ [g_post g] else g_log w)\<rparr>"
    using st by (auto simp: sg_destroy_def)
  have "pending w' + mset (armed (Some g)) = pending w"
    using pending_update [OF g(1), of None] by (simp add: g(2) pending_def armed_def)
  with b show ?thesis by (auto simp: sg_books_def g(2) armed_def ac_simps split: if_splits)
qed

interpretation sgb: inv_system "sg_step nd" sg_books for nd
  by unfold_locales (rule sg_books_step)

section \<open>Timing a call\<close>

text \<open>
  \<open>timed_invoke\<close>: a clock, the duration the caller passed by pointer, and a callable that returns or
  throws.  The guard's final action writes the duration when the scope is left, by either way.
\<close>

datatype ('r, 'x) outcome = Returned 'r | Threw 'x

record 's clocked =
  steady_now :: int
  time_elapsed :: int
  rest :: 's

definition TimerEndFunctor :: "'s clocked \<Rightarrow> int" where
  "TimerEndFunctor s = steady_now s"

definition timer_end :: "(int \<Rightarrow> int) \<Rightarrow> int \<Rightarrow> 's clocked \<Rightarrow> 's clocked" where
  "timer_end duration_cast begin_time s = s\<lparr>time_elapsed := duration_cast (steady_now s - begin_time)\<rparr>"

definition timed_invoke ::
    "(int \<Rightarrow> int) \<Rightarrow> ('s clocked \<Rightarrow> ('r, 'x) outcome \<times> 's clocked) \<Rightarrow> 's clocked \<Rightarrow>
     ('r, 'x) outcome \<times> 's clocked" where
  "timed_invoke duration_cast callable s =
     (let begin_time = TimerEndFunctor s; (r, s) = callable s
      in (r, timer_end duration_cast begin_time s))"

section \<open>Properties\<close>

text \<open>
  C35: the final action of every guard constructed is accounted for exactly once: it has run, or it is
  armed in one live object, or it was given up by \<open>release\<close> or by assigning to its guard (assertions
  on or off, even by assigning the guard to itself when they are off); once all
  objects are gone and none was given up, each has run exactly once.
\<close>

theorem scope_guard_runs_once:
  assumes "runs (sg_step ndebug) es sg_start = Some w"
  shows "mset (g_made w) = mset (g_log w) + pending w + mset (g_dropped w) \<and>
    (set (g_objs w) \<subseteq> {None} \<and> g_dropped w = [] \<longrightarrow> mset (g_log w) = mset (g_made w))"
proof -
  have "sg_books w"
    by (rule sgb.runs_inv [OF _ assms]) (simp add: sg_books_def sg_start_def pending_def)
  then have b: "mset (g_made w) = mset (g_log w) + pending w + mset (g_dropped w)" by (simp add: sg_books_def)
  have "pending w = {#}" if "set (g_objs w) \<subseteq> {None}"
  proof -
    have "armed x = []" if "x \<in> set (g_objs w)" for x
      using that \<open>set (g_objs w) \<subseteq> {None}\<close> by (auto simp: armed_def)
    then show ?thesis by (simp add: pending_def)
  qed
  with b show ?thesis by simp
qed

text \<open>A guard is made, moved and destroyed at both places; the start of another one throws.\<close>

definition sg_demo :: "nat sgevent list" where
  "sg_demo = [SG_make_pre 1 False 2, SG_make_pre 3 True 4, SG_move 0, SG_destroy 1, SG_destroy 0]"

theorem scope_guard_runs_once_witness:
  "\<exists>w. runs (sg_step True) sg_demo sg_start = Some w \<and> mset (g_log w) = {#2#} \<and> g_pre w = [1, 3]"
proof -
  have "map_option (\<lambda>w. (g_objs w, g_dropped w, g_made w, g_pre w)) (runs (sg_step True) sg_demo sg_start)
      = Some ([None, None], [], [2], [1, 3])"
    by (simp add: sg_demo_def sg_start_def ScopeGuardImpl_pre_def ScopeGuardImpl_def sg_move_def sg_destroy_def
        sg_obj_def Let_def del: bind_Some_iff)
  then obtain w where w: "runs (sg_step True) sg_demo sg_start = Some w" "g_objs w = [None, None]"
    "g_dropped w = []" "g_made w = [2]" "g_pre w = [1, 3]" by (elim map_option_SomeE Pair_inject) blast
  have "mset (g_log w) = {#2#}" using scope_guard_runs_once [OF w(1), THEN conjunct2] w(2-4) by simp
  with w(1,5) show ?thesis by blast
qed

text \<open>Self-assignment: the assertion fails; without it the guard gives up its own final action.\<close>

lemma sg_self_assign:
  "runs (sg_step False) [SG_make 7, SG_assign 0 0] (sg_start :: nat sgworld) = None"
  "map_option (\<lambda>w. (g_log w, g_dropped w))
     (runs (sg_step True) [SG_make 7, SG_assign 0 0, SG_destroy 0] (sg_start :: nat sgworld)) = Some ([], [7])"
  by code_simp+

end
