(* ===== verification/Util_Bits.thy ===== *)
theory Util_Bits
  imports Prelude
begin

text \<open>
  The remaining headers of \<^verbatim>\<open>util/bits\<close>: the overload set behind \<open>invoke\<close>
  (\<^verbatim>\<open>invoke.h\<close>), \<open>RValueWrapper\<close> and \<open>rval\<close> (\<^verbatim>\<open>rvalue_wrapper.h\<close>) and \<open>make_unique\<close>
  (\<^verbatim>\<open>make_unique.h\<close>).  Templates are decided by types, so the model of \<open>invoke\<close> computes on
  (decayed) types: each overload is its \<open>enable_if\<close> condition together with the validity of the
  expression in its return type.
\<close>

section \<open>invoke\<close>

text \<open>\<open>RefWrap t\<close> is \<open>std::reference_wrapper<t>\<close>, a class like those numbered by \<open>Class\<close>.\<close>

datatype ty = Class nat | RefWrap ty | Ptr ty | Scalar

text \<open>
  The classes of the program, about which nothing is assumed: \<open>derives b d\<close> says that \<open>b\<close> is a base of
  \<open>d\<close>, \<open>accessible b d\<close> that it is a public and unambiguous one, and \<open>star c\<close> is the type of \<open>*e\<close>, if
  that compiles, for an \<open>e\<close> of class \<open>c\<close>: by an \<open>operator*\<close> of \<open>c\<close>, or by a conversion to a pointer,
  which is what \<open>std::reference_wrapper\<close> of a pointer has.
\<close>

record classes =
  derives :: "ty \<Rightarrow> ty \<Rightarrow> bool"
  accessible :: "ty \<Rightarrow> ty \<Rightarrow> bool"
  star :: "ty \<Rightarrow> ty option"

datatype member = Function | Data

text \<open>
  What is invoked: a pointer to a member of a class, or anything else.  The flag says whether it accepts
  the further arguments.
\<close>

datatype callable = Member member ty bool | Plain bool

fun is_class :: "ty \<Rightarrow> bool" where
  "is_class (Class c) = True"
| "is_class (RefWrap t) = True"
| "is_class _ = False"

definition is_base_of :: "classes \<Rightarrow> ty \<Rightarrow> ty \<Rightarrow> bool" where
  "is_base_of E base t \<longleftrightarrow> is_class base \<and> is_class t \<and> (base = t \<or> derives E base t)"

fun is_reference_wrapper :: "ty \<Rightarrow> bool" where
  "is_reference_wrapper (RefWrap t) = True"
| "is_reference_wrapper _ = False"

fun get_type :: "ty \<Rightarrow> ty option" where
  "get_type (RefWrap t) = Some t"
| "get_type _ = None"

fun deref_type :: "classes \<Rightarrow> ty \<Rightarrow> ty option" where
  "deref_type E (Ptr t) = Some t"
| "deref_type E Scalar = None"
| "deref_type E c = star E c"

text \<open>Does \<open>e.*pm\<close> compile for an \<open>e\<close> of the type, if it has one?  The base must be accessible.\<close>

definition dot_ok :: "classes \<Rightarrow> ty \<Rightarrow> ty option \<Rightarrow> bool" where
  "dot_ok E base t = (case t of
     Some u \<Rightarrow> is_base_of E base u \<and> (base = u \<or> accessible E base u) | None \<Rightarrow> False)"

text \<open>
  The seven overloads of \<open>detail::_invoke\<close> in the order of the header, for a first argument of type
  \<open>ref\<close> and \<open>n\<close> further ones; the overloads for data members take none.
\<close>

fun invoke_overload :: "nat \<Rightarrow> classes \<Rightarrow> callable \<Rightarrow> ty \<Rightarrow> nat \<Rightarrow> bool" where
  "invoke_overload 0 E (Member k base accepts) ref n =
     (k = Function \<and> is_base_of E base ref \<and> dot_ok E base (Some ref) \<and> accepts)"
| "invoke_overload (Suc 0) E (Member k base accepts) ref n =
     (k = Function \<and> is_reference_wrapper ref \<and> dot_ok E base (get_type ref) \<and> accepts)"
| "invoke_overload (Suc (Suc 0)) E (Member k base accepts) ref n =
     (k = Function \<and> \<not> is_reference_wrapper ref \<and> \<not> is_base_of E base ref \<and>
      dot_ok E base (deref_type E ref) \<and> accepts)"
| "invoke_overload (Suc (Suc (Suc 0))) E (Member k base accepts) ref n =
     (k \<noteq> Function \<and> n = 0 \<and> is_base_of E base ref \<and> dot_ok E base (Some ref))"
| "invoke_overload (Suc (Suc (Suc (Suc 0)))) E (Member k base accepts) ref n =
     (k \<noteq> Function \<and> n = 0 \<and> is_reference_wrapper ref \<and> dot_ok E base (get_type ref))"
| "invoke_overload (Suc (Suc (Suc (Suc (Suc 0))))) E (Member k base accepts) ref n =
     (k \<noteq> Function \<and> n = 0 \<and> \<not> is_reference_wrapper ref \<and> \<not> is_base_of E base ref \<and>
      dot_ok E base (deref_type E ref))"
| "invoke_overload (Suc (Suc (Suc (Suc (Suc (Suc 0)))))) E (Plain accepts) ref n = accepts"
| "invoke_overload _ _ _ _ _ = False"

datatype how = Dot | Get_dot | Deref_dot | Apply

fun overload_body :: "nat \<Rightarrow> how" where
  "overload_body i = (if i = 6 then Apply else if i mod 3 = 0 then Dot else if i mod 3 = 1 then Get_dot else Deref_dot)"

text \<open>
  Overload resolution: the parameter lists of the templates do not order them, so a call is well-formed
  exactly when one of them is viable.
\<close>

datatype resolution = No_viable | Ambiguous | Selected how

definition invoke :: "classes \<Rightarrow> callable \<Rightarrow> ty \<Rightarrow> nat \<Rightarrow> resolution" where
  "invoke E c ref n =
     (case List.filter (\<lambda>i. invoke_overload i E c ref n) [0, 1, 2, 3, 4, 5, 6] of
        [] \<Rightarrow> No_viable | [i] \<Rightarrow> Selected (overload_body i) | _ \<Rightarrow> Ambiguous)"

text \<open>The standard's \<open>INVOKE\<close>: an ordered choice, of an expression that must then compile.\<close>

definition well_formed :: "bool \<Rightarrow> how \<Rightarrow> resolution" where
  "well_formed b h = (if b then Selected h else No_viable)"

definition std_invoke :: "classes \<Rightarrow> callable \<Rightarrow> ty \<Rightarrow> nat \<Rightarrow> resolution" where
  "std_invoke E c ref n =
     (case c of
        Plain accepts \<Rightarrow> well_formed accepts Apply
      | Member k base accepts \<Rightarrow>
          if (case k of Function \<Rightarrow> accepts | Data \<Rightarrow> n = 0)
          then if is_base_of E base ref then well_formed (dot_ok E base (Some ref)) Dot
               else if is_reference_wrapper ref then well_formed (dot_ok E base (get_type ref)) Get_dot
               else well_formed (dot_ok E base (deref_type E ref)) Deref_dot
          else No_viable)"

section \<open>RValueWrapper\<close>

text \<open>An object holds a value until it is moved from.\<close>

datatype 'a slot = Full 'a | Moved

definition rval_move :: "'a slot \<Rightarrow> 'a slot \<times> 'a slot" where
  "rval_move t = (t, Moved)"

definition rval_copy :: "'a slot \<Rightarrow> 'a slot \<times> 'a slot" where
  "rval_copy t = (let copied = t in (fst (rval_move copied), t))"

text \<open>\<open>operator()\<close> hands out an rvalue reference, which the function called moves from or not.\<close>

definition rvalue_call :: "bool \<Rightarrow> 'a slot \<Rightarrow> 'a slot \<times> 'a slot" where
  "rvalue_call moves t = (t, if moves then Moved else t)"

text \<open>A wrapped value reaches the first call that takes it, and only that; the source of a copy keeps its own.\<close>

lemma rval_once:
  "fst (rvalue_call True (fst (rval_move (Full v)))) = Full v"
  "fst (rvalue_call True (snd (rvalue_call True (fst (rval_move (Full v)))))) = Moved"
  "fst (rvalue_call True (fst (rval_copy (Full v)))) = Full v" "snd (rval_copy (Full v)) = Full v"
  by (simp_all add: rval_move_def rval_copy_def rvalue_call_def)

section \<open>make_unique\<close>

datatype shape = Object | Array_unknown nat | Array_known nat

datatype 'v cell = Holds 'v | Indeterminate

text \<open>
  \<open>construct args\<close> is the constructor called for a single object; \<open>dflt\<close> the default constructor of
  the element type if it has one, else elements without an initialiser have indeterminate values.
\<close>

definition default_init :: "'v option \<Rightarrow> 'v cell" where
  "default_init dflt = (case dflt of Some v \<Rightarrow> Holds v | None \<Rightarrow> Indeterminate)"

fun make_unique :: "shape \<Rightarrow> 'v \<Rightarrow> 'v option \<Rightarrow> 'v cell list option" where
  "make_unique Object made dflt = Some [Holds made]"
| "make_unique (Array_unknown n) made dflt = Some (replicate n (default_init dflt))"
| "make_unique (Array_known n) made dflt = None"

text \<open>C++14 value-initialises the elements: \<open>new U[n]()\<close>; a scalar becomes \<open>zero\<close>.\<close>

fun std_make_unique :: "'v \<Rightarrow> shape \<Rightarrow> 'v \<Rightarrow> 'v option \<Rightarrow> 'v cell list option" where
  "std_make_unique zero Object made dflt = Some [Holds made]"
| "std_make_unique zero (Array_unknown n) made dflt =
     Some (replicate n (Holds (case dflt of Some v \<Rightarrow> v | None \<Rightarrow> zero)))"
| "std_make_unique zero (Array_known n) made dflt = None"

section \<open>Properties\<close>

lemma dot_ok_None [simp]: "dot_ok E b None = False"
  by (simp add: dot_ok_def)

lemma dot_ok_base: "dot_ok E b (Some u) \<Longrightarrow> is_base_of E b u"
  by (simp add: dot_ok_def)

lemma overload_index: "[0, 1, 2, 3, 4, 5, 6] = [0, Suc 0, Suc (Suc 0), Suc (Suc (Suc 0)), Suc (Suc (Suc (Suc 0))),
   Suc (Suc (Suc (Suc (Suc 0)))), Suc (Suc (Suc (Suc (Suc (Suc 0)))))]"
  by simp

text \<open>
  The one case in which the conditions of the overloads do not exclude one another: a pointer to a member
  of a class that both a \<open>reference_wrapper\<close> and what it refers to are, or derive from.  The first overload
  then still needs the base to be accessible in the wrapper.
\<close>

fun wrapper_and_referent :: "classes \<Rightarrow> callable \<Rightarrow> ty \<Rightarrow> nat \<Rightarrow> bool" where
  "wrapper_and_referent E (Member k base accepts) (RefWrap t) n \<longleftrightarrow>
     is_base_of E base (RefWrap t) \<and> dot_ok E base (Some t) \<and> (case k of Function \<Rightarrow> accepts | Data \<Rightarrow> n = 0)"
| "wrapper_and_referent E _ _ n \<longleftrightarrow> False"

fun member_of :: "classes \<Rightarrow> callable \<Rightarrow> ty \<Rightarrow> bool" where
  "member_of E (Member k base accepts) t \<longleftrightarrow> dot_ok E base (Some t)"
| "member_of E (Plain accepts) t \<longleftrightarrow> False"

lemma not_wrapper: "\<not> is_reference_wrapper ref \<Longrightarrow> \<not> wrapper_and_referent E c ref n"
  by (cases "(E, c, ref, n)" rule: wrapper_and_referent.cases) auto

lemmas resolution_defs = invoke_def std_invoke_def overload_index well_formed_def

text \<open>
  C37: the overload set of \<open>invoke\<close> against the standard's ordered choice, for any classes, callable,
  first argument and number of further arguments.  Except for one case, a call is never ambiguous,
  \<open>invoke\<close> selects what \<open>std::invoke\<close> does and is ill-formed where that is; in particular an argument that
  both derives from the class and has an \<open>operator*\<close> is not ambiguous, and a \<open>reference_wrapper\<close> of a
  pointer is not dereferenced.  The exception is a pointer to a member of a class that a
  \<open>reference_wrapper\<close> is or derives from, and its referent too: the call is then ambiguous if the
  base is accessible in the wrapper, and otherwise goes to the referent where \<open>std::invoke\<close> is
  ill-formed.
\<close>

theorem invoke_is_std_invoke:
  "invoke E c ref n =
     (if wrapper_and_referent E c ref n
      then if member_of E c ref then Ambiguous else Selected Get_dot
      else std_invoke E c ref n)"
proof (cases c)
  case (Plain a)
  then show ?thesis by (simp add: resolution_defs del: One_nat_def)
next
  case (Member k base a)
  show ?thesis
  proof (cases "is_reference_wrapper ref")
    case True
    then obtain t where "ref = RefWrap t" by (cases ref) auto
    with Member dot_ok_base [of E base ref] show ?thesis
      by (cases k; cases "is_base_of E base ref") (auto simp: resolution_defs simp del: One_nat_def)
  next
    case False
    with Member dot_ok_base [of E base ref] not_wrapper [OF False, of E c n] show ?thesis
      by (cases k; cases "is_base_of E base ref") (auto simp: resolution_defs simp del: One_nat_def)
  qed
qed

text \<open>
  The cases the negative conditions of the pointer overloads are there for, and the ambiguous one: a class
  1 that derives from class 0 and has an \<open>operator*\<close> to class 0, a \<open>reference_wrapper\<close> of a pointer, and
  a class 2 that derives from \<open>std::reference_wrapper\<close> of itself.
\<close>

definition demo_classes :: classes where
  "demo_classes = \<lparr>derives = (\<lambda>b d. (b, d) \<in> {(Class 0, Class 1), (RefWrap (Class 2), Class 2)}),
     accessible = (\<lambda>b d. True),
     star = (\<lambda>c. if c = Class 1 then Some (Class 0) else if c = RefWrap (Ptr (Class 0)) then Some (Class 0) else None)\<rparr>"

lemma invoke_instances:
  "invoke demo_classes (Member Function (Class 0) True) (Class 1) 2 = Selected Dot"
  "invoke demo_classes (Member Data (Class 0) True) (RefWrap (Ptr (Class 0))) 0 = No_viable"
  "invoke demo_classes (Member Data (Class 0) True) (Ptr (Class 1)) 0 = Selected Deref_dot"
  "invoke demo_classes (Member Function (RefWrap (Class 2)) True) (RefWrap (Class 2)) 0 = Ambiguous"
  by code_simp+

text \<open>
  \<open>make_unique\<close> agrees with C++14's except for a non-empty array of a type without a default
  constructor, whose elements it leaves indeterminate where the standard zero-initialises them.
\<close>

lemma make_unique_vs_std:
  "make_unique shape made dflt = std_make_unique zero shape made dflt \<longleftrightarrow>
     \<not> (\<exists>n. shape = Array_unknown (Suc n) \<and> dflt = None)"
proof (cases shape)
  case (Array_unknown n)
  then show ?thesis by (cases n) (auto simp: default_init_def split: option.splits)
qed auto

end
