(* ===== verification/Spec2Isabelle.thy ===== *)
theory Spec2Isabelle
  imports Blocking_Lru Guarded_Progress Shared_Lock Executor_Shutdown Executor_Lifecycle Latch Spin_Lock
    Pthread_Wrapper Scope_Guard Util_Bits
begin

text \<open>
  Verification of concurrency-cpp11, a header-only C++11 library of synchronisers, a thread pool, a
  least-recently-used cache and a few utilities.

  \<^bold>\<open>The program and its parts.\<close>  The headers under \<^verbatim>\<open>concurrency/\<close> are independent of one another
  except that \<^verbatim>\<open>executor.h\<close> uses the utilities and \<open>SharedLock\<close>, \<open>SemaphoreGuard\<close> and
  \<open>SemaphoreTimedLockableAdapter\<close> are templates over the locks and semaphores beside them.
  \<open>BlockingLRUCache\<close> wraps \<open>LRUCache\<close> in a mutex.  \<open>timed_invoke\<close> is built on the scope guard.

  \<^bold>\<open>How concurrency is modelled.\<close>  A component is an event system (theory \<^verbatim>\<open>Event_System\<close>): a record of
  its data members, a program counter for every thread, and a step function from events to state
  transformers; \<open>None\<close> means that the thread is not enabled there.  One event is one section under the
  component's mutex, or one access to an atomic; notifications made after unlocking are events of
  their own.  A property of all event lists is a property of all schedules.  A condition variable is
  the list of the threads blocked on it: \<open>notify_one\<close> removes any member, \<open>notify_all\<close> all of them,
  a spurious wake-up or the end of a timed wait is an event that may always happen to a member; who
  is no longer in the list tests its predicate again.  Atomics are sequentially consistent: the code
  uses acquire and release orders for flags that are also protected by a mutex or by the
  read-modify-write itself.  Clocks are the freedom to time out.  Fields called histories (logs of
  what arrived, was granted, returned) are written by the model and never read by it.

  \<^bold>\<open>Integers.\<close>  \<open>int\<close>, \<open>unsigned\<close> and \<open>uint32_t\<close> are 32-bit words, \<open>size_t\<close>, \<open>ptrdiff_t\<close> and glibc's
  \<open>uint_fast16_t\<close> and \<open>uint_fast32_t\<close> 64-bit words; signed readings are \<open>sint\<close>.
  Natural numbers stand for the counts that cannot leave their type: sizes of containers, the node count and
  \<open>cur_queue_capacity\<close> of the wait queue, and the counts of the request record, which are bounded by the
  number of nodes that fit into memory or of threads that wait.  Bounds are hypotheses
  only where the code needs them: fewer than \<open>2 ^ 31\<close> permits free at any moment (\<open>fits\<close>, the range of the
  \<open>atomic_int\<close>; for programs that only use scopes it is proved, not assumed),
  fewer than \<open>2 ^ 31 - 1\<close> threads at a shared mutex (its 31-bit reader count), decrements of a latch that
  sum up to less than \<open>2 ^ 63\<close>, at most \<open>2 ^ 32\<close> threads at a ticket lock.  No fuel is used: loops over
  linked structures recurse over the structure, loops that may not end are \<open>partial_function (option)\<close>,
  waiting loops are events that repeat.

  \<^bold>\<open>Theories and what they model.\<close>

  \<^item> \<^verbatim>\<open>Prelude\<close>, \<^verbatim>\<open>Event_System\<close>, \<^verbatim>\<open>Linked_List\<close>: shared vocabulary; runs of event systems with the locales
    \<open>guarded_system\<close>, \<open>inv_system\<close> and \<open>bisim_system\<close> that every component interprets; doubly linked
    lists over pointer maps with the effect of linking and unlinking a node.
  \<^item> \<^verbatim>\<open>Lru_Cache\<close>, \<^verbatim>\<open>Lru_Refinement\<close>, \<^verbatim>\<open>Lru_Sessions\<close>, \<^verbatim>\<open>Blocking_Lru\<close> (\<^verbatim>\<open>util/lru_cache.h\<close>): the cache with its
    intrusive list of entries inside the map, pointer by pointer; its refinement of an abstract
    most-recently-used list; sessions of operations and what is resident after them; the blocking
    wrapper and its linearisation.
  \<^item> \<^verbatim>\<open>Wait_Queue\<close>, \<^verbatim>\<open>Permit_Ledger\<close>, \<^verbatim>\<open>Queued_Semaphore\<close>, \<^verbatim>\<open>Queued_Properties\<close>
    (\<^verbatim>\<open>concurrency/semaphore.h\<close>): the linked queue of wait nodes with its node cache on an explicit heap;
    the books of permits; \<open>QueuedSemaphore\<close>, its refinement of an abstract list semaphore, memory safety,
    accounting, wake-ups and fairness.
  \<^item> \<^verbatim>\<open>Simple_Semaphore\<close>, \<^verbatim>\<open>Semaphore_Guard\<close> (same header): \<open>SimpleSemaphore\<close>; \<open>SemaphoreGuard\<close> and
    \<open>SemaphoreTimedLockableAdapter\<close> over the locale \<open>sem_type\<close>, interpreted on both semaphores.
  \<^item> \<^verbatim>\<open>Guarded_Sections\<close>, \<^verbatim>\<open>Guarded_Progress\<close> (same header): threads whose scopes are guards and adapter locks, concurrently over the
    event system of either semaphore, presented by the locale \<open>sem_sections\<close>; when they
    cannot deadlock.
  \<^item> \<^verbatim>\<open>Reader_Writer\<close>, \<^verbatim>\<open>Shared_Mutex\<close>, \<^verbatim>\<open>Reader_Preferring\<close> (\<^verbatim>\<open>concurrency/shared_mutex.h\<close>): the state word and
    its bits; the two-gate \<open>SharedTimedMutex\<close>; \<open>ReaderPreferringSharedTimedMutex\<close>.
  \<^item> \<^verbatim>\<open>Shared_Lock\<close> (same header): \<open>SharedLock\<close> objects in a store, over the locale \<open>shared_mutex_type\<close>,
    interpreted on both shared mutexes.
  \<^item> \<^verbatim>\<open>Executor\<close>, \<^verbatim>\<open>Executor_Properties\<close>, \<^verbatim>\<open>Executor_Shutdown\<close>,
    \<^verbatim>\<open>Executor_Lifecycle\<close> (\<^verbatim>\<open>concurrency/executor.h\<close>): \<open>ThreadPoolExecutor\<close>
    with its workers, task queue, dead workers, shutdown, the three forms of waiting for termination and the
    destructor; \<^verbatim>\<open>Executor_Shutdown\<close> bounds what the workers still do after a shutdown,
    \<^verbatim>\<open>Executor_Lifecycle\<close> orders the phases a client sees and says when termination is final.
  \<^item> \<^verbatim>\<open>Latch\<close> (\<^verbatim>\<open>concurrency/latch.h\<close>): \<open>Latch\<close>, one event per atomic access, lock and notification.
  \<^item> \<^verbatim>\<open>Spin_Lock\<close> (\<^verbatim>\<open>concurrency/spin_lock.h\<close>): the waiting loops as partial functions of their probes;
    \<open>SpinLock\<close> and the ticket lock \<open>FairSpinLock\<close> as event systems over the locale \<open>exclusive_lock\<close> and
    over \<open>bisim_system\<close> with a queue.
  \<^item> \<^verbatim>\<open>Pthread_Wrapper\<close> (\<^verbatim>\<open>pthread_wrapper/\<close>): what the wrappers make of the codes pthread returns, and
    thread-specific pointers over a documented pthread key.
  \<^item> \<^verbatim>\<open>Scope_Guard\<close>, \<^verbatim>\<open>Util_Bits\<close> (\<^verbatim>\<open>util/bits/\<close>): scope guards and \<open>timed_invoke\<close>; overload selection of
    \<open>invoke\<close>, \<open>RValueWrapper\<close>, \<open>make_unique\<close>.

  \<^bold>\<open>What the theorems show.\<close>  Refinement of abstract specifications: the cache is a bounded recency list,
  the queued semaphore a semaphore with a list of waiters, the ticket lock a queue, the thread-local
  pointer a variable per thread, the overloads of \<open>invoke\<close> the ordered choice of \<open>std::invoke\<close> but for one
  case, in which they are ambiguous.  Safety and
  invariants in every schedule: mutual exclusion, conservation of permits and, for guarded
  sections, their balance for ever, memory safety of the linked queues, one execution per task in submission order, consistency of the worker vectors, termination of
  the pool only when everything is done, exact ownership of \<open>SharedLock\<close>s, each scope guard's action once.
  Liveness: no wake-up is lost (semaphores, on the queued one while there are permits for the largest
  request; shared mutexes, the latch, the workers), the shared mutex and guards of any sizes that do not wait
  inside one another do not deadlock, waiting at the ticket lock is bounded exactly,
  the threads at an open latch all return within a bound, and so does the pool drain after a shutdown.  Errors: the behaviour of the code where it is
  wrong is stated as theorems too (a stranded task after a submit that races with shutdown, a worker
  that times out while a task is inserted, lost wake-ups with mixed request sizes, attempts that ignore
  their request, a self-deadlock in \<open>await_termination_until\<close>, thread-local objects lost when
  \<open>pthread_setspecific\<close> fails).

  \<^bold>\<open>Reading the properties.\<close>  Each numbered property is one theorem; where it has hypotheses, the theorem
  of the same name ending in \<open>_witness\<close> applies it to a concrete run.  Invariants are proved per event
  and reach the properties through the interpretation of the locale they belong to.

  \<^bold>\<open>Not modelled.\<close>  Weak memory orders; the pthread and standard libraries themselves beyond their
  documented behaviour; the C++ type system (value categories, \<open>noexcept\<close>, template deduction) except for
  what decides the overloads of \<open>invoke\<close>; failure to allocate or to start a thread (the
  constructor of \<open>Worker\<close> is \<open>noexcept\<close>, so the latter terminates the process); the helper
  \<open>make_cached_thread_pool(duration)\<close> and \<open>QueuedSemaphore::try_acquire_until\<close>, which do not compile when
  instantiated; the tests.
\<close>

end
